(* ===== verification/Prelude.thy ===== *)
theory Prelude
  imports Main "HOL-Library.Word"
begin

unbundle bit_operations_syntax

text \<open>
  What the components share.

  A Rust \<open>u64\<close> or \<open>usize\<close> is modelled by the natural number it holds. The kernel is built
  both with overflow checks (the dev profile, where an overflow ends the machine) and without
  them (the release profile, where it wraps), so an unchecked \<open>+\<close>, \<open>-\<close> or \<open>*\<close> of the source is
  the wrapping operation here and the component theorems show that it never wraps; a
  \<open>checked_add\<close> or \<open>checked_sub\<close> of the source is the option-valued operation here. The lemmas
  that end in \<open>_word\<close> tie each of them to 64-bit words.
\<close>

named_theorems u64 \<open>the wrapping and checked operations, unfolded\<close>

subsection \<open>Machine integers\<close>

type_synonym u64 = nat
type_synonym u32 = nat
type_synonym usize = nat
type_synonym byte = "8 word"

definition U64 :: nat where
  "U64 = 2 ^ 64"

definition checked_add :: "u64 \<Rightarrow> u64 \<Rightarrow> u64 option" where
  "checked_add a b = (if a + b < U64 then Some (a + b) else None)"

definition checked_sub :: "u64 \<Rightarrow> u64 \<Rightarrow> u64 option" where
  "checked_sub a b = (if b \<le> a then Some (a - b) else None)"

definition wadd :: "u64 \<Rightarrow> u64 \<Rightarrow> u64" where
  "wadd a b = (a + b) mod U64"

definition wsub :: "u64 \<Rightarrow> u64 \<Rightarrow> u64" where
  "wsub a b = (a + (U64 - b)) mod U64"

definition wmul :: "u64 \<Rightarrow> u64 \<Rightarrow> u64" where
  "wmul a b = (a * b) mod U64"

definition div_ceil :: "u64 \<Rightarrow> u64 \<Rightarrow> u64" where
  "div_ceil a b = (if 0 < a mod b then a div b + 1 else a div b)"

definition PAGE_SIZE :: u64 where
  "PAGE_SIZE = 4096"

text \<open>\<open>x & !(PAGE_SIZE - 1)\<close>.\<close>

definition page_floor :: "u64 \<Rightarrow> u64" where
  "page_floor x = x - x mod PAGE_SIZE"

definition aligned :: "u64 \<Rightarrow> bool" where
  "aligned x \<longleftrightarrow> x mod PAGE_SIZE = 0"

subsection \<open>Results\<close>

text \<open>A result \<open>Result<T, E>\<close> is a sum with the error on the left.\<close>

fun res_map :: "('a \<Rightarrow> 'b) \<Rightarrow> 'e + 'a \<Rightarrow> 'e + 'b" where
  "res_map f (Inl e) = Inl e"
| "res_map f (Inr a) = Inr (f a)"

text \<open>The operator \<open>?\<close> of Rust.\<close>

fun andthen :: "'e + 'a \<Rightarrow> ('a \<Rightarrow> 'e + 'b) \<Rightarrow> 'e + 'b" where
  "andthen (Inl e) f = Inl e"
| "andthen (Inr a) f = f a"

lemma andthen_Inr: "andthen r f = Inr b \<longleftrightarrow> (\<exists>a. r = Inr a \<and> f a = Inr b)"
  by (cases r) auto

fun is_ok :: "'e + 'a \<Rightarrow> bool" where
  "is_ok (Inl e) = False"
| "is_ok (Inr a) = True"

subsection \<open>Slices and bytes\<close>

text \<open>\<open>xs.get(a..b)\<close>: the elements from \<open>a\<close> up to \<open>b\<close>, or nothing out of range.\<close>

definition slice :: "'a list \<Rightarrow> usize \<Rightarrow> usize \<Rightarrow> 'a list option" where
  "slice xs a b = (if a \<le> b \<and> b \<le> length xs then Some (take (b - a) (drop a xs)) else None)"

text \<open>\<open>xs.iter().position(p)\<close>: the index of the first element that satisfies \<open>p\<close>.\<close>

fun position :: "('a \<Rightarrow> bool) \<Rightarrow> 'a list \<Rightarrow> usize option" where
  "position p [] = None"
| "position p (x # xs) = (if p x then Some 0 else map_option Suc (position p xs))"

text \<open>\<open>from_le_bytes\<close> of any width, and \<open>to_le_bytes\<close> of a value \<open>n\<close> bytes wide.\<close>

fun from_le :: "byte list \<Rightarrow> nat" where
  "from_le [] = 0"
| "from_le (b # bs) = unat b + 256 * from_le bs"

fun to_le :: "nat \<Rightarrow> nat \<Rightarrow> byte list" where
  "to_le 0 v = []"
| "to_le (Suc n) v = of_nat (v mod 256) # to_le n (v div 256)"

subsection \<open>Laws of slices and bytes\<close>

lemma slice_Some [simp]:
  "slice xs a b = Some ys \<longleftrightarrow> a \<le> b \<and> b \<le> length xs \<and> ys = take (b - a) (drop a xs)"
  by (auto simp: slice_def)

lemma slice_None [simp]: "slice xs a b = None \<longleftrightarrow> b < a \<or> length xs < b"
  by (auto simp: slice_def)

lemma length_to_le [simp]: "length (to_le n v) = n"
  by (induction n arbitrary: v) auto

lemma unat_byte_less: "unat (b :: byte) < 256"
  using unsigned_less [of b, where ?'a = nat] by simp

lemma unat_byte_of_nat [simp]: "v < 256 \<Longrightarrow> unat (of_nat v :: byte) = v"
  by (simp add: unat_of_nat)

lemma from_le_to_le: "v < 256 ^ n \<Longrightarrow> from_le (to_le n v) = v"
proof (induction n arbitrary: v)
  case 0
  then show ?case by simp
next
  case (Suc n)
  then have "v div 256 < 256 ^ n"
    by (simp add: less_mult_imp_div_less mult.commute)
  then have "from_le (to_le n (v div 256)) = v div 256"
    by (rule Suc.IH)
  then show ?case by simp
qed

lemma from_le_less: "from_le bs < 256 ^ length bs"
proof (induction bs)
  case Nil
  then show ?case by simp
next
  case (Cons b bs)
  then have "256 * from_le bs + 256 \<le> 256 * 256 ^ length bs"
    by (metis Suc_leI add.commute mult_Suc_right mult_le_mono2)
  with unat_byte_less [of b] show ?case by simp
qed

lemma to_le_from_le: "to_le (length bs) (from_le bs) = bs"
proof (induction bs)
  case Nil
  then show ?case by simp
next
  case (Cons b bs)
  have "(unat b + 256 * from_le bs) mod 256 = unat b"
    using unat_byte_less [of b] by simp
  moreover have "(unat b + 256 * from_le bs) div 256 = from_le bs"
    using unat_byte_less [of b] by simp
  ultimately show ?case using Cons by simp
qed

lemma position_Some:
  "position p xs = Some i \<Longrightarrow> i < length xs \<and> p (xs ! i) \<and> (\<forall>j < i. \<not> p (xs ! j))"
proof (induction xs arbitrary: i)
  case (Cons x xs)
  then show ?case
    by (auto split: if_splits simp: nth_Cons split: nat.splits)
qed simp

lemma position_None: "position p xs = None \<longleftrightarrow> (\<forall>x \<in> set xs. \<not> p x)"
  by (induction xs) auto

subsection \<open>Laws of the machine integers\<close>

lemma U64_pos [simp]: "0 < U64"
  by (simp add: U64_def)

lemma U64_gt_1 [simp]: "Suc 0 < U64"
  by (simp add: U64_def)

lemma PAGE_SIZE_pos [simp]: "0 < PAGE_SIZE"
  by (simp add: PAGE_SIZE_def)

lemma checked_add_Some [simp]:
  "checked_add a b = Some c \<longleftrightarrow> c = a + b \<and> a + b < U64"
  by (auto simp: checked_add_def)

lemma checked_add_None [simp]: "checked_add a b = None \<longleftrightarrow> U64 \<le> a + b"
  by (auto simp: checked_add_def)

lemma checked_sub_Some [simp]: "checked_sub a b = Some c \<longleftrightarrow> c = a - b \<and> b \<le> a"
  by (auto simp: checked_sub_def)

lemma checked_sub_None [simp]: "checked_sub a b = None \<longleftrightarrow> a < b"
  by (auto simp: checked_sub_def)

lemma wadd_exact [simp]: "a + b < U64 \<Longrightarrow> wadd a b = a + b"
  by (simp add: wadd_def)

lemma wsub_exact [simp]: "b \<le> a \<Longrightarrow> a < U64 \<Longrightarrow> wsub a b = a - b"
proof -
  assume "b \<le> a" "a < U64"
  then have "a + (U64 - b) = U64 + (a - b)" and "a - b < U64" by linarith+
  then show ?thesis by (simp add: wsub_def)
qed

lemma wmul_exact [simp]: "a * b < U64 \<Longrightarrow> wmul a b = a * b"
  by (simp add: wmul_def)

lemma wadd_less [simp]: "wadd a b < U64"
  by (simp add: wadd_def)

lemma wsub_less [simp]: "wsub a b < U64"
  by (simp add: wsub_def)

lemma wmul_less [simp]: "wmul a b < U64"
  by (simp add: wmul_def)

lemma unat_less_U64: "unat (x :: 64 word) < U64"
  using unsigned_less [of x, where ?'a = nat] by (simp add: U64_def)

lemma wadd_word: "unat (x + y :: 64 word) = wadd (unat x) (unat y)"
  by (simp add: wadd_def U64_def unat_word_ariths)

lemma wmul_word: "unat (x * y :: 64 word) = wmul (unat x) (unat y)"
  by (simp add: wmul_def U64_def unat_word_ariths)

lemma wsub_word: "unat (x - y :: 64 word) = wsub (unat x) (unat y)"
proof -
  have "unat y < U64"
    by (rule unat_less_U64)
  moreover have "unat x < U64"
    by (rule unat_less_U64)
  ultimately show ?thesis
  proof (cases "unat y \<le> unat x")
    case True
    with \<open>unat x < U64\<close> show ?thesis by (simp add: unat_sub_if')
  next
    case False
    then have "unat x + (U64 - unat y) < U64"
      using \<open>unat y < U64\<close> by linarith
    with False \<open>unat y < U64\<close> show ?thesis
      by (simp add: unat_sub_if' wsub_def) (simp add: U64_def)
  qed
qed

lemma page_floor_le [simp]: "page_floor x \<le> x"
  by (simp add: page_floor_def)

lemma page_floor_div: "page_floor x = x div PAGE_SIZE * PAGE_SIZE"
  by (simp add: page_floor_def minus_mod_eq_div_mult)

lemma aligned_page_floor [simp]: "aligned (page_floor x)"
  by (simp add: aligned_def page_floor_div)

lemma page_floor_aligned [simp]: "aligned x \<Longrightarrow> page_floor x = x"
  by (simp add: page_floor_def aligned_def)

lemma page_floor_gt: "x < page_floor x + PAGE_SIZE"
proof -
  have "x mod PAGE_SIZE < PAGE_SIZE" by simp
  moreover have "x mod PAGE_SIZE \<le> x" by simp
  ultimately show ?thesis unfolding page_floor_def by linarith
qed

lemma page_floor_word: "unat (w AND NOT 4095 :: 64 word) = page_floor (unat w)"
proof -
  have "w AND NOT (mask 12) = push_bit 12 (drop_bit 12 w)"
    by (rule bit_eqI) (auto simp: bit_simps bit_not_iff)
  then have "w AND NOT 4095 = push_bit 12 (drop_bit 12 w)"
    by (simp add: mask_numeral)
  moreover have "unat w div 4096 * 4096 < 2 ^ 64"
    using unat_less_U64 [of w] div_times_less_eq_dividend [of "unat w" 4096]
    by (simp add: U64_def)
  ultimately show ?thesis
    by (simp add: page_floor_div PAGE_SIZE_def unsigned_push_bit_eq unsigned_drop_bit_eq
        push_bit_eq_mult drop_bit_eq_div take_bit_eq_mod unat_word_ariths unat_div)
qed

lemma aligned_add [simp]: "aligned x \<Longrightarrow> aligned y \<Longrightarrow> aligned (x + y)"
  by (simp add: aligned_def mod_add_eq [symmetric])

lemma aligned_PAGE_SIZE [simp]: "aligned PAGE_SIZE"
  by (simp add: aligned_def)

lemma aligned_0 [simp]: "aligned 0"
  by (simp add: aligned_def)

subsection \<open>Sums over a map\<close>

definition msum :: "('v \<Rightarrow> nat) \<Rightarrow> ('k \<rightharpoonup> 'v) \<Rightarrow> nat" where
  "msum w m = (\<Sum>k \<in> dom m. w (the (m k)))"

lemma msum_empty [simp]: "msum w Map.empty = 0"
  by (simp add: msum_def)

lemma msum_new:
  assumes "finite (dom m)" "m k = None"
  shows "msum w (m(k \<mapsto> v)) = msum w m + w v"
proof -
  have "k \<notin> dom m" using assms(2) by auto
  moreover have "(\<Sum>j \<in> dom m. w (the ((m(k \<mapsto> v)) j))) = msum w m"
    unfolding msum_def using \<open>k \<notin> dom m\<close> by (intro sum.cong) auto
  ultimately show ?thesis using assms(1) by (simp add: msum_def)
qed

lemma msum_del:
  assumes "finite (dom m)" "m k = Some v"
  shows "msum w m = msum w (m(k := None)) + w v"
proof -
  have "m = (m(k := None))(k \<mapsto> v)" using assms(2) by auto
  moreover have "msum w ((m(k := None))(k \<mapsto> v)) = msum w (m(k := None)) + w v"
    using assms(1) by (intro msum_new) auto
  ultimately show ?thesis by metis
qed

lemma msum_upd:
  assumes "finite (dom m)" "m k = Some u"
  shows "msum w (m(k \<mapsto> v)) + w u = msum w m + w v"
  using msum_del [OF assms, of w] msum_del [of "m(k \<mapsto> v)" k v w] assms(1) by simp

lemma msum_upd_same: "finite (dom m) \<Longrightarrow> m k = Some u \<Longrightarrow> w v = w u \<Longrightarrow> msum w (m(k \<mapsto> v)) = msum w m"
  using msum_upd [of m k u w v] by simp

lemma msum_ge: "finite (dom m) \<Longrightarrow> m k = Some v \<Longrightarrow> w v \<le> msum w m"
  by (simp add: msum_del)

text \<open>Grouping the entries by a key loses none, where every entry's key is among the groups.\<close>

lemma msum_group:
  assumes "finite A" "\<And>k v. m k = Some v \<Longrightarrow> f v \<in> A"
  shows "(\<Sum>a \<in> A. msum (\<lambda>v. if f v = a then g v else 0) m) = msum g m"
proof -
  have "(\<Sum>a \<in> A. msum (\<lambda>v. if f v = a then g v else 0) m) =
      (\<Sum>k \<in> dom m. \<Sum>a \<in> A. if f (the (m k)) = a then g (the (m k)) else 0)"
    unfolding msum_def by (rule sum.swap)
  also have "\<dots> = msum g m"
    unfolding msum_def using assms by (intro sum.cong) (auto simp: sum.delta')
  finally show ?thesis .
qed

subsection \<open>State machines\<close>

text \<open>
  A component whose state changes by steps: what holds at the start and is kept by each step holds in
  every state the steps reach.
\<close>

locale transition_system =
  fixes start :: "'s \<Rightarrow> bool"
    and step :: "'s \<Rightarrow> 's \<Rightarrow> bool"
    and good :: "'s \<Rightarrow> bool"
  assumes start_good: "start s \<Longrightarrow> good s"
    and step_good: "good s \<Longrightarrow> step s t \<Longrightarrow> good t"
begin

lemma steps_good: "rtranclp step s t \<Longrightarrow> good s \<Longrightarrow> good t"
  by (induction rule: rtranclp_induct) (auto intro: step_good)

lemma reachable_good: "start s \<Longrightarrow> rtranclp step s t \<Longrightarrow> good t"
  by (auto intro: steps_good start_good)

end

end
