(* ===== verification/Abi.thy ===== *)
theory Abi
  imports Prelude
begin

unbundle bit_operations_syntax

text \<open>
  The native ABI (\<open>kernel/abi/src/lib.rs\<close>): the call numbers, the error codes and how a call
  returns one in \<open>rax\<close>, rights and signals as sets of bits, the numbers of the object types and
  of the resource kinds, what an account is charged, the bounds the kernel enforces, and the
  little-endian fields the kernel and a process exchange through memory.

  Two interfaces are stated as locales: \<open>coded_enum\<close>, an enumeration with a numeric code and a
  decoder that searches the list of all values, and \<open>flag_set\<close>, a set of bits within a mask.
\<close>

named_theorems abi_consts \<open>the numbers of the ABI\<close>

subsection \<open>Call numbers\<close>

datatype call =
    ABI_VERSION | HANDLE_CLOSE | HANDLE_DUPLICATE | HANDLE_INFO
  | CHANNEL_CREATE | CHANNEL_WRITE | CHANNEL_READ
  | MEMORY_CREATE | MEMORY_MAP | MEMORY_UNMAP
  | PROCESS_CREATE | PROCESS_MAP_IMAGE | PROCESS_START | PROCESS_EXIT
  | THREAD_CREATE | THREAD_EXIT | WAIT | CLOCK_GET | TIMER_CREATE | TIMER_SET
  | DEBUG_WRITE | INTERRUPT_CREATE | INTERRUPT_ACK | DEVICE_MEMORY_CREATE
  | RESOURCE_NARROW | INTERRUPT_CREATE_MSI | MEMORY_PIN | DMA_RELEASE | RESOURCE_INFO
  | PROCESS_KILL | MEMORY_PROTECT | PROCESS_FORWARD | PROCESS_LAUNCH | PROCESS_MAP
  | PROCESS_UNMAP | PROCESS_PROTECT | PROCESS_READ | PROCESS_WRITE
  | FUTEX_WAIT | FUTEX_WAKE | THREAD_SET_FS | FORWARD_CLONE | RANDOM_READ
  | SLOT_CREATE | SLOT_PUSH | SLOT_TAKE | SLOT_CLOSE | SLOT_REFUSE
  | PROCESS_PLANE | PROCESS_GRANT | ACCOUNT_CREATE | ACCOUNT_INFO | ACCOUNT_MATCHES
  | BATCH_GET | BATCH_PUT | PORT_CALL | PLANE_GET | PLANE_PUT | PLANE_PROBE

definition nr_BASE :: u64 where
  [abi_consts]: "nr_BASE = 0x10000"

definition nr_COUNT :: u64 where
  [abi_consts]: "nr_COUNT = 53"

definition nr_DATA_PLANE_start :: u64 where
  [abi_consts]: "nr_DATA_PLANE_start = nr_BASE + 0x100"

definition nr_DATA_PLANE_end :: u64 where
  [abi_consts]: "nr_DATA_PLANE_end = nr_BASE + 0x110"

text \<open>The offset of each call from \<open>BASE\<close>.\<close>

fun nr_offset :: "call \<Rightarrow> u64" where
  "nr_offset ABI_VERSION = 0"
| "nr_offset HANDLE_CLOSE = 1"
| "nr_offset HANDLE_DUPLICATE = 2"
| "nr_offset HANDLE_INFO = 3"
| "nr_offset CHANNEL_CREATE = 4"
| "nr_offset CHANNEL_WRITE = 5"
| "nr_offset CHANNEL_READ = 6"
| "nr_offset MEMORY_CREATE = 7"
| "nr_offset MEMORY_MAP = 8"
| "nr_offset MEMORY_UNMAP = 9"
| "nr_offset PROCESS_CREATE = 10"
| "nr_offset PROCESS_MAP_IMAGE = 11"
| "nr_offset PROCESS_START = 12"
| "nr_offset PROCESS_EXIT = 13"
| "nr_offset THREAD_CREATE = 14"
| "nr_offset THREAD_EXIT = 15"
| "nr_offset WAIT = 16"
| "nr_offset CLOCK_GET = 17"
| "nr_offset TIMER_CREATE = 18"
| "nr_offset TIMER_SET = 19"
| "nr_offset DEBUG_WRITE = 20"
| "nr_offset INTERRUPT_CREATE = 21"
| "nr_offset INTERRUPT_ACK = 22"
| "nr_offset DEVICE_MEMORY_CREATE = 23"
| "nr_offset RESOURCE_NARROW = 24"
| "nr_offset INTERRUPT_CREATE_MSI = 25"
| "nr_offset MEMORY_PIN = 26"
| "nr_offset DMA_RELEASE = 27"
| "nr_offset RESOURCE_INFO = 28"
| "nr_offset PROCESS_KILL = 29"
| "nr_offset MEMORY_PROTECT = 30"
| "nr_offset PROCESS_FORWARD = 31"
| "nr_offset PROCESS_LAUNCH = 32"
| "nr_offset PROCESS_MAP = 33"
| "nr_offset PROCESS_UNMAP = 34"
| "nr_offset PROCESS_PROTECT = 35"
| "nr_offset PROCESS_READ = 36"
| "nr_offset PROCESS_WRITE = 37"
| "nr_offset FUTEX_WAIT = 38"
| "nr_offset FUTEX_WAKE = 39"
| "nr_offset THREAD_SET_FS = 40"
| "nr_offset FORWARD_CLONE = 41"
| "nr_offset RANDOM_READ = 42"
| "nr_offset SLOT_CREATE = 43"
| "nr_offset SLOT_PUSH = 44"
| "nr_offset SLOT_TAKE = 45"
| "nr_offset SLOT_CLOSE = 46"
| "nr_offset SLOT_REFUSE = 47"
| "nr_offset PROCESS_PLANE = 48"
| "nr_offset PROCESS_GRANT = 49"
| "nr_offset ACCOUNT_CREATE = 50"
| "nr_offset ACCOUNT_INFO = 51"
| "nr_offset ACCOUNT_MATCHES = 52"
| "nr_offset BATCH_GET = 0x100"
| "nr_offset BATCH_PUT = 0x101"
| "nr_offset PORT_CALL = 0x102"
| "nr_offset PLANE_GET = 0x103"
| "nr_offset PLANE_PUT = 0x104"
| "nr_offset PLANE_PROBE = 0x10f"

definition nr :: "call \<Rightarrow> u64" where
  "nr c = nr_BASE + nr_offset c"

definition nr_ALL :: "call list" where
  "nr_ALL =
    [ABI_VERSION, HANDLE_CLOSE, HANDLE_DUPLICATE, HANDLE_INFO, CHANNEL_CREATE, CHANNEL_WRITE,
     CHANNEL_READ, MEMORY_CREATE, MEMORY_MAP, MEMORY_UNMAP, PROCESS_CREATE, PROCESS_MAP_IMAGE,
     PROCESS_START, PROCESS_EXIT, THREAD_CREATE, THREAD_EXIT, WAIT, CLOCK_GET, TIMER_CREATE,
     TIMER_SET, DEBUG_WRITE, INTERRUPT_CREATE, INTERRUPT_ACK, DEVICE_MEMORY_CREATE,
     RESOURCE_NARROW, INTERRUPT_CREATE_MSI, MEMORY_PIN, DMA_RELEASE, RESOURCE_INFO,
     PROCESS_KILL, MEMORY_PROTECT, PROCESS_FORWARD, PROCESS_LAUNCH, PROCESS_MAP,
     PROCESS_UNMAP, PROCESS_PROTECT, PROCESS_READ, PROCESS_WRITE, FUTEX_WAIT, FUTEX_WAKE,
     THREAD_SET_FS, FORWARD_CLONE, RANDOM_READ, SLOT_CREATE, SLOT_PUSH, SLOT_TAKE, SLOT_CLOSE,
     SLOT_REFUSE, PROCESS_PLANE, PROCESS_GRANT, ACCOUNT_CREATE, ACCOUNT_INFO, ACCOUNT_MATCHES,
     BATCH_GET, BATCH_PUT, PORT_CALL, PLANE_GET, PLANE_PUT, PLANE_PROBE]"

definition is_native :: "u64 \<Rightarrow> bool" where
  "is_native number \<longleftrightarrow>
     (nr_BASE \<le> number \<and> number < nr_BASE + nr_COUNT) \<or>
     (nr_DATA_PLANE_start \<le> number \<and> number < nr_DATA_PLANE_end)"

text \<open>
  Which call \<open>syscall::dispatch\<close> makes for a number: the arm of its \<open>match\<close>, none for
  \<open>BadSyscall\<close>. The arm of \<open>PLANE_PROBE\<close> is there only with the kernel's \<open>probe\<close> feature.
\<close>

definition dispatch_call :: "bool \<Rightarrow> u64 \<Rightarrow> call option" where
  "dispatch_call probe number =
     List.find (\<lambda>c. nr c = number \<and> (c = PLANE_PROBE \<longrightarrow> probe)) nr_ALL"

subsection \<open>Errors\<close>

datatype error =
    BadHandle | WrongType | AccessDenied | InvalidArgs | NoMemory | ShouldWait | PeerClosed
  | TimedOut | BufferTooSmall | OutOfRange | BadSyscall | Limit | BadState | Fault
  | QuotaExceeded

type_synonym 'a res = "error + 'a"

fun Error_code :: "error \<Rightarrow> u32" where
  "Error_code BadHandle = 1"
| "Error_code WrongType = 2"
| "Error_code AccessDenied = 3"
| "Error_code InvalidArgs = 4"
| "Error_code NoMemory = 5"
| "Error_code ShouldWait = 6"
| "Error_code PeerClosed = 7"
| "Error_code TimedOut = 8"
| "Error_code BufferTooSmall = 9"
| "Error_code OutOfRange = 10"
| "Error_code BadSyscall = 11"
| "Error_code Limit = 12"
| "Error_code BadState = 13"
| "Error_code Fault = 14"
| "Error_code QuotaExceeded = 15"

definition Error_ALL :: "error list" where
  "Error_ALL =
    [BadHandle, WrongType, AccessDenied, InvalidArgs, NoMemory, ShouldWait, PeerClosed,
     TimedOut, BufferTooSmall, OutOfRange, BadSyscall, Limit, BadState, Fault, QuotaExceeded]"

definition Error_from_code :: "u32 \<Rightarrow> error option" where
  "Error_from_code code = List.find (\<lambda>e. Error_code e = code) Error_ALL"

text \<open>\<open>(-(self as i64)) as u64\<close>.\<close>

definition Error_to_raw :: "error \<Rightarrow> 64 word" where
  "Error_to_raw e = - of_nat (Error_code e)"

definition Error_from_raw :: "64 word \<Rightarrow> 64 word res" where
  "Error_from_raw raw =
     (let signed = sint raw in
      if 0 \<le> signed then Inr raw
      else let code = (if signed = - (2 ^ 63) then None
                       else if - signed < 2 ^ 32 then Some (nat (- signed)) else None)
           in Inl (case code of
                     None \<Rightarrow> BadSyscall
                   | Some c \<Rightarrow> (case Error_from_code c of None \<Rightarrow> BadSyscall | Some e \<Rightarrow> e)))"

subsection \<open>Rights\<close>

type_synonym rights = "32 word"
type_synonym RawHandle = "32 word"

definition R_NONE :: rights where "R_NONE = 0"
definition R_READ :: rights where [abi_consts]: "R_READ = 1"
definition R_WRITE :: rights where [abi_consts]: "R_WRITE = 2"
definition R_MAP :: rights where [abi_consts]: "R_MAP = 4"
definition R_DUPLICATE :: rights where [abi_consts]: "R_DUPLICATE = 8"
definition R_TRANSFER :: rights where [abi_consts]: "R_TRANSFER = 16"
definition R_WAIT :: rights where [abi_consts]: "R_WAIT = 32"
definition R_ALL :: rights where [abi_consts]: "R_ALL = 0x3f"

definition Rights_from_bits :: "32 word \<Rightarrow> rights option" where
  "Rights_from_bits bits = (if bits AND NOT R_ALL \<noteq> 0 then None else Some bits)"

definition Rights_contains :: "rights \<Rightarrow> rights \<Rightarrow> bool" where
  "Rights_contains self other \<longleftrightarrow> self AND other = other"

definition Rights_union :: "rights \<Rightarrow> rights \<Rightarrow> rights" where
  "Rights_union self other = self OR other"

definition Rights_intersection :: "rights \<Rightarrow> rights \<Rightarrow> rights" where
  "Rights_intersection self other = self AND other"

definition Rights_difference :: "rights \<Rightarrow> rights \<Rightarrow> rights" where
  "Rights_difference self other = self AND NOT other"

definition Rights_NAMES :: "(string \<times> rights) list" where
  "Rights_NAMES =
    [(''read'', R_READ), (''write'', R_WRITE), (''map'', R_MAP), (''duplicate'', R_DUPLICATE),
     (''transfer'', R_TRANSFER), (''wait'', R_WAIT)]"

definition Rights_from_name :: "string \<Rightarrow> rights option" where
  "Rights_from_name name = map_option snd (List.find (\<lambda>(n, _). n = name) Rights_NAMES)"

subsection \<open>Signals\<close>

type_synonym signals = "32 word"

definition S_NONE :: signals where "S_NONE = 0"
definition S_READABLE :: signals where [abi_consts]: "S_READABLE = 1"
definition S_WRITABLE :: signals where [abi_consts]: "S_WRITABLE = 2"
definition S_PEER_CLOSED :: signals where [abi_consts]: "S_PEER_CLOSED = 4"
definition S_TERMINATED :: signals where [abi_consts]: "S_TERMINATED = 8"
definition S_SIGNALED :: signals where [abi_consts]: "S_SIGNALED = 16"
definition S_ALL :: signals where [abi_consts]: "S_ALL = 0x1f"

definition Signals_from_bits :: "32 word \<Rightarrow> signals option" where
  "Signals_from_bits bits = (if bits AND NOT S_ALL \<noteq> 0 then None else Some bits)"

definition Signals_contains :: "signals \<Rightarrow> signals \<Rightarrow> bool" where
  "Signals_contains self other \<longleftrightarrow> self AND other = other"

definition Signals_intersects :: "signals \<Rightarrow> signals \<Rightarrow> bool" where
  "Signals_intersects self other \<longleftrightarrow> self AND other \<noteq> 0"

definition Signals_union :: "signals \<Rightarrow> signals \<Rightarrow> signals" where
  "Signals_union self other = self OR other"

definition Signals_difference :: "signals \<Rightarrow> signals \<Rightarrow> signals" where
  "Signals_difference self other = self AND NOT other"

definition Signals_is_empty :: "signals \<Rightarrow> bool" where
  "Signals_is_empty self \<longleftrightarrow> self = 0"

subsection \<open>Object types and resource kinds\<close>

datatype ObjectType =
    OT_Process | OT_Thread | OT_Channel | OT_Memory | OT_Timer | OT_Interrupt
  | OT_DeviceMemory | OT_Console | OT_Resource | OT_Pin | OT_Slot | OT_Account

fun ObjectType_raw :: "ObjectType \<Rightarrow> u32" where
  "ObjectType_raw OT_Process = 1"
| "ObjectType_raw OT_Thread = 2"
| "ObjectType_raw OT_Channel = 3"
| "ObjectType_raw OT_Memory = 4"
| "ObjectType_raw OT_Timer = 5"
| "ObjectType_raw OT_Interrupt = 6"
| "ObjectType_raw OT_DeviceMemory = 7"
| "ObjectType_raw OT_Console = 8"
| "ObjectType_raw OT_Resource = 9"
| "ObjectType_raw OT_Pin = 10"
| "ObjectType_raw OT_Slot = 11"
| "ObjectType_raw OT_Account = 12"

definition ObjectType_ALL :: "ObjectType list" where
  "ObjectType_ALL =
    [OT_Process, OT_Thread, OT_Channel, OT_Memory, OT_Timer, OT_Interrupt, OT_DeviceMemory,
     OT_Console, OT_Resource, OT_Pin, OT_Slot, OT_Account]"

definition ObjectType_from_raw :: "u32 \<Rightarrow> ObjectType option" where
  "ObjectType_from_raw raw = List.find (\<lambda>t. ObjectType_raw t = raw) ObjectType_ALL"

datatype ResourceKind = RK_Process | RK_DeviceMemory | RK_Interrupt | RK_Msi | RK_Dma

fun ResourceKind_raw :: "ResourceKind \<Rightarrow> u32" where
  "ResourceKind_raw RK_Process = 1"
| "ResourceKind_raw RK_DeviceMemory = 2"
| "ResourceKind_raw RK_Interrupt = 3"
| "ResourceKind_raw RK_Msi = 4"
| "ResourceKind_raw RK_Dma = 5"

definition ResourceKind_ALL :: "ResourceKind list" where
  "ResourceKind_ALL = [RK_Process, RK_DeviceMemory, RK_Interrupt, RK_Msi, RK_Dma]"

definition ResourceKind_from_raw :: "u32 \<Rightarrow> ResourceKind option" where
  "ResourceKind_from_raw raw = List.find (\<lambda>k. ResourceKind_raw k = raw) ResourceKind_ALL"

subsection \<open>Messages a device raises an interrupt with\<close>

definition msi_address :: "64 word \<Rightarrow> 64 word" where
  "msi_address rdx = rdx AND 0xffffffff"

definition msi_data :: "64 word \<Rightarrow> 32 word" where
  "msi_data rdx = ucast (drop_bit 32 rdx)"

definition msi_pack :: "32 word \<Rightarrow> 32 word \<Rightarrow> 64 word" where
  "msi_pack address data = push_bit 32 (ucast data) OR ucast address"

subsection \<open>Charges, flags and bounds\<close>

definition charge_PAGE :: u64 where [abi_consts]: "charge_PAGE = 4096"
definition charge_OBJECT :: u64 where [abi_consts]: "charge_OBJECT = 256"
definition charge_PAGE_RECORD :: u64 where [abi_consts]: "charge_PAGE_RECORD = 16"
definition charge_ZERO_PAGE :: u64 where [abi_consts]: "charge_ZERO_PAGE = charge_PAGE + 32"
definition charge_AREA :: u64 where [abi_consts]: "charge_AREA = 96"
definition charge_PIN_PAGE :: u64 where [abi_consts]: "charge_PIN_PAGE = 128"
definition charge_CHANNEL :: u64 where [abi_consts]: "charge_CHANNEL = 4 * charge_PAGE"
definition charge_SLOT :: u64 where [abi_consts]: "charge_SLOT = 3 * charge_PAGE"
definition charge_THREAD :: u64 where [abi_consts]: "charge_THREAD = 130 * charge_PAGE"
definition charge_PROCESS :: u64 where [abi_consts]: "charge_PROCESS = charge_PAGE"
definition charge_SPACE :: u64 where [abi_consts]: "charge_SPACE = 4 * charge_PAGE"

definition charge_TABLE_REGIONS :: "u64 list" where
  "charge_TABLE_REGIONS = [2 ^ 21, 2 ^ 30, 2 ^ 39]"

definition charge_MESSAGE :: u64 where [abi_consts]: "charge_MESSAGE = 128"
definition charge_MESSAGE_HANDLE :: u64 where [abi_consts]: "charge_MESSAGE_HANDLE = 32"
definition charge_HANDLE_SLOTS :: u64 where [abi_consts]: "charge_HANDLE_SLOTS = 64"
definition charge_HANDLE_SLOT :: u64 where [abi_consts]: "charge_HANDLE_SLOT = 96"

definition charge_memory :: "u64 \<Rightarrow> u64" where
  "charge_memory pages = wadd charge_OBJECT (wmul pages (charge_PAGE + charge_PAGE_RECORD))"

definition map_READ :: "64 word" where [abi_consts]: "map_READ = 1"
definition map_WRITE :: "64 word" where [abi_consts]: "map_WRITE = 2"
definition map_EXECUTE :: "64 word" where [abi_consts]: "map_EXECUTE = 4"
definition map_FIXED :: "64 word" where [abi_consts]: "map_FIXED = 8"
definition map_PROTECTION :: "64 word" where [abi_consts]: "map_PROTECTION = 7"
definition map_ALL :: "64 word" where [abi_consts]: "map_ALL = 7"
definition map_PROCESS_ALL :: "64 word" where [abi_consts]: "map_PROCESS_ALL = 15"

definition IMAGE_START :: u64 where [abi_consts]: "IMAGE_START = 0x1000"
definition IMAGE_END :: u64 where [abi_consts]: "IMAGE_END = 0x100000000000"

definition CHANNEL_MAX_BYTES :: usize where [abi_consts]: "CHANNEL_MAX_BYTES = 64 * 1024"
definition CHANNEL_MAX_HANDLES :: usize where [abi_consts]: "CHANNEL_MAX_HANDLES = 64"
definition CHANNEL_DEPTH :: usize where [abi_consts]: "CHANNEL_DEPTH = 64"
definition HANDLES_PER_PROCESS :: usize where [abi_consts]: "HANDLES_PER_PROCESS = 4096"
definition MEMORY_MAX_BYTES :: u64 where [abi_consts]: "MEMORY_MAX_BYTES = 256 * 1024 * 1024"
definition NAME_MAX :: usize where [abi_consts]: "NAME_MAX = 32"
definition SLOT_DEPTH :: usize where [abi_consts]: "SLOT_DEPTH = 64"
definition START_HANDLES_MAX :: usize where [abi_consts]: "START_HANDLES_MAX = 64"
definition DEADLINE_INFINITE :: u64 where [abi_consts]: "DEADLINE_INFINITE = 2 ^ 64 - 1"

subsection \<open>Fields of a byte buffer\<close>

definition read_u32 :: "byte list \<Rightarrow> usize \<Rightarrow> u32 option" where
  "read_u32 bytes offset =
     (case checked_add offset 4 of
        None \<Rightarrow> None
      | Some e \<Rightarrow> map_option from_le (slice bytes offset e))"

definition write_u32 :: "byte list \<Rightarrow> usize \<Rightarrow> u32 \<Rightarrow> bool \<times> byte list" where
  "write_u32 bytes offset v =
     (case checked_add offset 4 of
        None \<Rightarrow> (False, bytes)
      | Some e \<Rightarrow>
          (case slice bytes offset e of
             None \<Rightarrow> (False, bytes)
           | Some _ \<Rightarrow> (True, take offset bytes @ to_le 4 v @ drop e bytes)))"

definition read_u64 :: "byte list \<Rightarrow> usize \<Rightarrow> u64 option" where
  "read_u64 bytes offset =
     (case checked_add offset 8 of
        None \<Rightarrow> None
      | Some e \<Rightarrow> map_option from_le (slice bytes offset e))"

definition write_u64 :: "byte list \<Rightarrow> usize \<Rightarrow> u64 \<Rightarrow> bool \<times> byte list" where
  "write_u64 bytes offset v =
     (case checked_add offset 8 of
        None \<Rightarrow> (False, bytes)
      | Some e \<Rightarrow>
          (case slice bytes offset e of
             None \<Rightarrow> (False, bytes)
           | Some _ \<Rightarrow> (True, take offset bytes @ to_le 8 v @ drop e bytes)))"

definition fixed_name :: "byte list \<Rightarrow> byte list" where
  "fixed_name field =
     (let len = (case position (\<lambda>b. b = 0) field of None \<Rightarrow> length field | Some n \<Rightarrow> n)
      in take len field)"

text \<open>The bytes of \<open>[a-z0-9._-]\<close>.\<close>

definition name_byte :: "byte \<Rightarrow> bool" where
  "name_byte b \<longleftrightarrow> (97 \<le> b \<and> b \<le> 122) \<or> (48 \<le> b \<and> b \<le> 57) \<or> b = 46 \<or> b = 95 \<or> b = 45"

definition valid_name :: "byte list \<Rightarrow> bool" where
  "valid_name name \<longleftrightarrow> name \<noteq> [] \<and> length name \<le> NAME_MAX \<and> list_all name_byte name"

subsection \<open>Enumerations with a numeric code\<close>

locale coded_enum =
  fixes code :: "'e \<Rightarrow> nat"
    and all :: "'e list"
    and of_code :: "nat \<Rightarrow> 'e option"
  assumes codes_distinct: "distinct (map code all)"
    and in_all: "x \<in> set all"
    and of_code_find: "of_code c = List.find (\<lambda>x. code x = c) all"
begin

lemma code_eq: "code x = code y \<Longrightarrow> x = y"
  using codes_distinct in_all by (auto simp: distinct_map dest: inj_onD)

lemma of_code_Some: "of_code c = Some x \<longleftrightarrow> code x = c"
proof
  assume "of_code c = Some x"
  then show "code x = c" by (auto simp: of_code_find find_Some_iff)
next
  assume c: "code x = c"
  then have "of_code c \<noteq> None" using in_all [of x] by (auto simp: of_code_find find_None_iff)
  then obtain y where y: "of_code c = Some y" by auto
  then have "code y = c" by (auto simp: of_code_find find_Some_iff)
  then have "y = x" using c by (intro code_eq) simp
  then show "of_code c = Some x" using y by simp
qed

lemma of_code_code: "of_code (code x) = Some x"
  by (simp add: of_code_Some)

lemma of_code_None: "of_code c = None \<longleftrightarrow> c \<notin> range code"
  by (metis of_code_Some of_code_code not_Some_eq rangeE rangeI)

end

interpretation err: coded_enum Error_code Error_ALL Error_from_code
proof
  show "distinct (map Error_code Error_ALL)"
    by code_simp
  show "x \<in> set Error_ALL" for x
    by (cases x) (simp_all add: Error_ALL_def)
qed (simp add: Error_from_code_def)

interpretation objt: coded_enum ObjectType_raw ObjectType_ALL ObjectType_from_raw
proof
  show "distinct (map ObjectType_raw ObjectType_ALL)"
    by code_simp
  show "x \<in> set ObjectType_ALL" for x
    by (cases x) (simp_all add: ObjectType_ALL_def)
qed (simp add: ObjectType_from_raw_def)

interpretation resk: coded_enum ResourceKind_raw ResourceKind_ALL ResourceKind_from_raw
proof
  show "distinct (map ResourceKind_raw ResourceKind_ALL)"
    by code_simp
  show "x \<in> set ResourceKind_ALL" for x
    by (cases x) (simp_all add: ResourceKind_ALL_def)
qed (simp add: ResourceKind_from_raw_def)

subsection \<open>Sets of bits within a mask\<close>

locale flag_set =
  fixes mask_all :: "32 word"
    and from_bits :: "32 word \<Rightarrow> 32 word option"
    and contains :: "32 word \<Rightarrow> 32 word \<Rightarrow> bool"
    and union :: "32 word \<Rightarrow> 32 word \<Rightarrow> 32 word"
    and difference :: "32 word \<Rightarrow> 32 word \<Rightarrow> 32 word"
  assumes contains_bits: "contains a b \<longleftrightarrow> (\<forall>n. bit b n \<longrightarrow> bit a n)"
    and from_bits_mask: "from_bits a = (if contains mask_all a then Some a else None)"
    and union_bits: "bit (union a b) n \<longleftrightarrow> bit a n \<or> bit b n"
    and difference_bits: "bit (difference a b) n \<longleftrightarrow> bit a n \<and> \<not> bit b n"
begin

lemma contains_refl: "contains a a"
  by (simp add: contains_bits)

lemma contains_trans: "contains a b \<Longrightarrow> contains b c \<Longrightarrow> contains a c"
  by (simp add: contains_bits)

lemma contains_antisym: "contains a b \<Longrightarrow> contains b a \<Longrightarrow> a = b"
  by (rule bit_eqI) (auto simp: contains_bits)

lemma contains_union: "contains (union a b) a" "contains (union a b) b"
  by (simp_all add: contains_bits union_bits)

lemma union_contained: "contains c (union a b) \<longleftrightarrow> contains c a \<and> contains c b"
  by (auto simp: contains_bits union_bits)

lemma difference_contained: "contains a (difference a b)"
  by (simp add: contains_bits difference_bits)

lemma from_bits_Some: "from_bits b = Some f \<longleftrightarrow> f = b \<and> contains mask_all b"
  by (auto simp: from_bits_mask)

lemma contains_in_mask: "contains mask_all a \<Longrightarrow> contains a b \<Longrightarrow> from_bits b = Some b"
  by (simp add: from_bits_Some contains_trans)

end

lemma and_eq_iff_bits: "a AND b = b \<longleftrightarrow> (\<forall>n. bit b n \<longrightarrow> bit a n)" for a b :: "'a::len word"
  by (auto simp: bit_eq_iff bit_and_iff dest: bit_imp_le_length)

lemma and_not_eq_0_iff: "a AND NOT m = 0 \<longleftrightarrow> m AND a = a" for a m :: "'a::len word"
  by (auto simp: bit_eq_iff bit_and_iff bit_not_iff dest: bit_imp_le_length)

interpretation rgt: flag_set R_ALL Rights_from_bits Rights_contains Rights_union Rights_difference
  by unfold_locales
    (auto simp: Rights_contains_def Rights_from_bits_def Rights_union_def Rights_difference_def
      and_eq_iff_bits and_not_eq_0_iff bit_or_iff bit_and_iff bit_not_iff
      dest: bit_imp_le_length)

interpretation sgn: flag_set S_ALL Signals_from_bits Signals_contains Signals_union Signals_difference
  by unfold_locales
    (auto simp: Signals_contains_def Signals_from_bits_def Signals_union_def Signals_difference_def
      and_eq_iff_bits and_not_eq_0_iff bit_or_iff bit_and_iff bit_not_iff
      dest: bit_imp_le_length)

lemma Rights_intersection_contained:
  "Rights_contains a (Rights_intersection a b)" "Rights_contains b (Rights_intersection a b)"
  by (simp_all add: Rights_contains_def Rights_intersection_def and_eq_iff_bits bit_and_iff)

subsection \<open>The raw result of a call\<close>

lemma Error_code_range: "0 < Error_code e" "Error_code e \<le> 15"
  by (cases e; simp)+

lemma sint_Error_to_raw: "sint (Error_to_raw e) = - int (Error_code e)"
  by (cases e) (simp_all add: Error_to_raw_def)

lemma sint_64: "sint w = (if uint w < 2 ^ 63 then uint w else uint w - 2 ^ 64)"
  for w :: "64 word"
proof -
  have "sint w = (uint w + 2 ^ 63) mod 2 ^ 64 - 2 ^ 63"
    by (simp add: sint_uint signed_take_bit_eq_take_bit_shift take_bit_eq_mod)
  moreover have "0 \<le> uint w" "uint w < 2 ^ 64"
    using uint_lt2p [of w] by simp_all
  moreover have "(uint w + 2 ^ 63) mod 2 ^ 64 =
      (if uint w < 2 ^ 63 then uint w + 2 ^ 63 else uint w - 2 ^ 63)"
    using calculation(2,3) zmod_trivial_iff [of "uint w + 2 ^ 63" "2 ^ 64"]
      mod_add_self2 [of "uint w - 2 ^ 63" "2 ^ 64"] by (auto simp: add.commute)
  ultimately show ?thesis by simp
qed

lemma Error_from_raw_value: "Error_from_raw raw = Inr v \<longleftrightarrow> v = raw \<and> uint raw < 2 ^ 63"
  using uint_lt2p [of raw] by (auto simp: Error_from_raw_def sint_64 Let_def)

lemma Error_from_raw_to_raw: "Error_from_raw (Error_to_raw e) = Inl e"
  using Error_code_range [of e]
  by (auto simp: Error_from_raw_def Let_def sint_Error_to_raw err.of_code_code)

lemma Error_from_raw_Inl:
  assumes "Error_from_raw raw = Inl e" "e \<noteq> BadSyscall"
  shows "raw = Error_to_raw e"
proof -
  have "sint raw < 0" "Error_from_code (nat (- sint raw)) = Some e"
    using assms by (auto simp: Error_from_raw_def Let_def split: if_splits option.splits)
  then have "sint raw = sint (Error_to_raw e)"
    by (simp add: err.of_code_Some sint_Error_to_raw)
  then show ?thesis by (simp add: signed_word_eqI)
qed

text \<open>
  C36. What a call returns in \<open>rax\<close> is read back exactly: every error decodes to itself, a raw
  word decodes to an error other than \<open>BadSyscall\<close> only if it is that error's own encoding, and
  a raw word is a value exactly when it is below \<open>2 ^ 63\<close>, the value being the word itself.
\<close>

theorem error_raw_roundtrip:
  "Error_from_raw (Error_to_raw e) = Inl e \<and>
   (Error_from_raw raw = Inl e \<longrightarrow> raw = Error_to_raw e \<or> e = BadSyscall) \<and>
   (Error_from_raw raw = Inr v \<longleftrightarrow> v = raw \<and> uint raw < 2 ^ 63)"
  using Error_from_raw_Inl [of raw e]
  by (auto simp: Error_from_raw_to_raw Error_from_raw_value)

theorem error_raw_roundtrip_witness:
  "Error_from_raw (Error_to_raw Fault) = Inl Fault \<and>
   Error_from_raw (- 14) = Inl Fault \<and> - 14 = Error_to_raw Fault"
  using error_raw_roundtrip [of Fault "- 14" 0]
  by (simp add: Error_to_raw_def Error_from_raw_def Error_from_code_def Error_ALL_def)

subsection \<open>The table of calls\<close>

lemma nr_offset_range:
  "nr_offset c < nr_COUNT \<or> 0x100 \<le> nr_offset c \<and> nr_offset c < 0x110"
  by (cases c) (simp_all add: nr_COUNT_def)

lemma nr_in_ALL [simp]: "c \<in> set nr_ALL"
  by (cases c) (simp_all add: nr_ALL_def)

lemma nr_offset_eq: "nr_offset c = nr_offset d \<Longrightarrow> c = d"
proof -
  have "distinct (map nr_offset nr_ALL)" by code_simp
  then have "inj_on nr_offset (set nr_ALL)" by (simp add: distinct_map)
  then show "nr_offset c = nr_offset d \<Longrightarrow> c = d" by (auto dest: inj_onD)
qed

lemma nr_eq [simp]: "nr c = nr d \<longleftrightarrow> c = d"
  using nr_offset_eq by (auto simp: nr_def)

lemma dispatch_call_Some:
  "dispatch_call probe number = Some c \<longleftrightarrow> nr c = number \<and> (c = PLANE_PROBE \<longrightarrow> probe)"
proof
  assume "dispatch_call probe number = Some c"
  then show "nr c = number \<and> (c = PLANE_PROBE \<longrightarrow> probe)"
    by (auto simp: dispatch_call_def find_Some_iff)
next
  assume c: "nr c = number \<and> (c = PLANE_PROBE \<longrightarrow> probe)"
  then have "dispatch_call probe number \<noteq> None"
    using nr_in_ALL [of c] by (auto simp: dispatch_call_def find_None_iff)
  then obtain d where d: "dispatch_call probe number = Some d" by auto
  then have "nr d = number" by (auto simp: dispatch_call_def find_Some_iff)
  then show "dispatch_call probe number = Some c" using c d by auto
qed

lemma nr_offset_onto:
  assumes "n < nr_COUNT"
  shows "\<exists>c. nr_offset c = n \<and> c \<noteq> PLANE_PROBE"
proof -
  have "map nr_offset (take 53 nr_ALL) = [0..<53]"
    by code_simp
  moreover have "n \<in> set [0..<53]" using assms by (simp add: nr_COUNT_def)
  ultimately have "n \<in> set (map nr_offset (take 53 nr_ALL))" by (simp only:)
  then obtain c where "nr_offset c = n" by auto
  then show ?thesis using assms by (intro exI [of _ c]) (auto simp: nr_COUNT_def)
qed

text \<open>
  C37. The call table has no hole and no overlap: a number below \<open>BASE + COUNT\<close> in the native range
  always names a call, a number names at most one call and only its own, the probe call is
  answered only by a kernel built with it, and a number that is not native names no call.
\<close>

theorem dispatch_table:
  "(dispatch_call probe number = Some c \<longleftrightarrow> nr c = number \<and> (c = PLANE_PROBE \<longrightarrow> probe)) \<and>
   (nr_BASE \<le> number \<and> number < nr_BASE + nr_COUNT \<longrightarrow> dispatch_call probe number \<noteq> None) \<and>
   (dispatch_call probe number \<noteq> None \<longrightarrow> is_native number)"
proof (intro conjI impI)
  assume n: "nr_BASE \<le> number \<and> number < nr_BASE + nr_COUNT"
  then have "number - nr_BASE < nr_COUNT" by auto
  then obtain d where "nr_offset d = number - nr_BASE" "d \<noteq> PLANE_PROBE"
    using nr_offset_onto by blast
  then have "dispatch_call probe number = Some d"
    using n by (auto simp: dispatch_call_Some nr_def)
  then show "dispatch_call probe number \<noteq> None" by simp
next
  assume "dispatch_call probe number \<noteq> None"
  then obtain d where "nr d = number" by (auto simp: dispatch_call_Some)
  then show "is_native number"
    using nr_offset_range [of d]
    by (auto simp: is_native_def nr_def nr_DATA_PLANE_start_def nr_DATA_PLANE_end_def)
qed (rule dispatch_call_Some)

theorem dispatch_table_witness:
  "dispatch_call False 0x10005 = Some CHANNEL_WRITE \<and> is_native 0x10005 \<and>
   dispatch_call False 0x1010f = None \<and> dispatch_call True 0x1010f = Some PLANE_PROBE \<and>
   dispatch_call False 0x10034 \<noteq> None"
  using dispatch_table [of False "0x10005" CHANNEL_WRITE]
    dispatch_table [of True "0x1010f" PLANE_PROBE]
    dispatch_table [of False "0x10034" ACCOUNT_MATCHES]
  by (simp add: nr_def abi_consts) (simp add: dispatch_call_def nr_ALL_def nr_def abi_consts)

subsection \<open>Reading and writing fields\<close>

lemma slice_update:
  assumes "n \<le> length xs" "length ys = k" "n + k \<le> length xs"
  shows "slice (take n xs @ ys @ drop (n + k) xs) n (n + k) = Some ys"
  using assms by (simp add: slice_def)

lemma read_u64_Some:
  "read_u64 bytes offset = Some v \<longleftrightarrow>
     offset + 8 < U64 \<and> offset + 8 \<le> length bytes \<and> v = from_le (take 8 (drop offset bytes))"
  by (auto simp: read_u64_def checked_add_def slice_def)

lemma read_u32_Some:
  "read_u32 bytes offset = Some v \<longleftrightarrow>
     offset + 4 < U64 \<and> offset + 4 \<le> length bytes \<and> v = from_le (take 4 (drop offset bytes))"
  by (auto simp: read_u32_def checked_add_def slice_def)

lemma write_u64_True:
  "write_u64 bytes offset v = (True, out) \<longleftrightarrow>
     offset + 8 < U64 \<and> offset + 8 \<le> length bytes \<and>
     out = take offset bytes @ to_le 8 v @ drop (offset + 8) bytes"
  by (auto simp: write_u64_def checked_add_def slice_def)

lemma write_u32_True:
  "write_u32 bytes offset v = (True, out) \<longleftrightarrow>
     offset + 4 < U64 \<and> offset + 4 \<le> length bytes \<and>
     out = take offset bytes @ to_le 4 v @ drop (offset + 4) bytes"
  by (auto simp: write_u32_def checked_add_def slice_def)

lemma take_drop_splice_apart:
  assumes "length ys = k" "n + k \<le> length xs" "m + j \<le> n \<or> n + k \<le> m"
  shows "take j (drop m (take n xs @ ys @ drop (n + k) xs)) = take j (drop m xs)"
proof -
  let ?l = "take n xs @ ys @ drop (n + k) xs"
  have "take j (drop m ?l) ! i = take j (drop m xs) ! i"
    if "length ?l = length xs" "i < j" "m + i < length xs" for i
    using assms that by (auto simp: nth_append simp del: take_append drop_append)
  moreover have "length ?l = length xs" using assms(1,2) by simp
  ultimately show ?thesis
    by (intro nth_equalityI) (auto simp del: take_append drop_append length_append)
qed

text \<open>
  C38. A field of the ABI's layouts is written exactly: where \<open>write_u64\<close> answers true the length
  of the buffer is kept, the field reads back as the value, and every field of eight or of four
  bytes that does not overlap it reads as before; where it answers false nothing is written, and
  it answers false only for a field that does not lie within the buffer.
\<close>

theorem field_write_read:
  assumes "v < U64" "length bytes < U64" "write_u64 bytes offset v = (ok, out)"
  shows "length out = length bytes \<and>
    (ok \<longleftrightarrow> offset + 8 \<le> length bytes) \<and>
    (ok \<longrightarrow> read_u64 out offset = Some v) \<and>
    (\<not> ok \<longrightarrow> out = bytes) \<and>
    (other + 8 \<le> offset \<or> offset + 8 \<le> other \<longrightarrow> read_u64 out other = read_u64 bytes other) \<and>
    (other + 4 \<le> offset \<or> offset + 8 \<le> other \<longrightarrow> read_u32 out other = read_u32 bytes other)"
proof (cases "offset + 8 \<le> length bytes")
  case True
  then have w: "ok" "out = take offset bytes @ to_le 8 v @ drop (offset + 8) bytes"
    using assms(2,3) by (auto simp: write_u64_def checked_add_def slice_def split: if_splits)
  have len: "length out = length bytes" using w True by (simp add: length_to_le)
  have "read_u64 out offset = Some v"
    using w True assms(1,2) len
    by (simp add: read_u64_Some length_to_le from_le_to_le U64_def)
  moreover have "read_u64 out other = read_u64 bytes other"
    if "other + 8 \<le> offset \<or> offset + 8 \<le> other"
    using take_drop_splice_apart [of "to_le 8 v" 8 offset bytes other 8] that w True len
    by (simp add: read_u64_def checked_add_def slice_def length_to_le)
  moreover have "read_u32 out other = read_u32 bytes other"
    if "other + 4 \<le> offset \<or> offset + 8 \<le> other"
    using take_drop_splice_apart [of "to_le 8 v" 8 offset bytes other 4] that w True len
    by (simp add: read_u32_def checked_add_def slice_def length_to_le)
  ultimately show ?thesis using True w(1) len by simp
next
  case False
  then have "\<not> ok" "out = bytes"
    using assms(3) by (auto simp: write_u64_def checked_add_def slice_def split: if_splits)
  then show ?thesis using False by simp
qed

theorem field_write_read_witness:
  "\<exists>out. write_u64 (replicate 12 0xff) 2 0x0102 = (True, out) \<and>
     length out = length (replicate 12 (0xff :: byte)) \<and> read_u64 out 2 = Some 0x0102 \<and>
     read_u32 out 11 = read_u32 (replicate 12 0xff) 11"
proof -
  obtain ok out where w: "write_u64 (replicate 12 0xff) 2 0x0102 = (ok, out)" by fastforce
  then have ok: "ok"
    by (simp add: write_u64_def checked_add_def slice_def U64_def)
  show ?thesis
    using field_write_read [OF _ _ w, of 11] ok w by (auto simp: U64_def)
qed

subsection \<open>Messages of a device\<close>

lemma msi_low_mask: "(0xffffffff :: 64 word) = mask 32"
  by (simp add: mask_eq_exp_minus_1)

lemma msi_address_pack: "msi_address (msi_pack a d) = ucast a"
  by (rule bit_word_eqI) (auto simp: msi_address_def msi_pack_def msi_low_mask bit_simps
      dest: bit_imp_le_length)

lemma msi_data_pack: "msi_data (msi_pack a d) = d"
  by (rule bit_word_eqI) (auto simp: msi_data_def msi_pack_def bit_simps dest: bit_imp_le_length)

end
