(* ===== verification/Handles.thy ===== *)
theory Handles
  imports Abi
begin

unbundle bit_operations_syntax

text \<open>
  A process's handle table (\<open>kernel/handles/src/lib.rs\<close>). A handle value is a slot's index and
  generation, XORed with the table's salt; the model keeps the 32-bit arithmetic of \<open>encode\<close> and
  \<open>decode\<close> and the 16-bit generation, which wraps.
\<close>

record 'a Slot =
  generation :: "16 word"
  entry :: "'a option"

record 'a HandleTable =
  slots :: "'a Slot list"
  free :: "usize list"
  salt :: "32 word"
  count :: usize

definition HandleTable_new :: "32 word \<Rightarrow> 'a HandleTable" where
  "HandleTable_new s = \<lparr>slots = [], free = [], salt = s, count = 0\<rparr>"

text \<open>\<open>(((generation as u32) << 16) | (slot as u32 + 1)) ^ self.salt\<close>.\<close>

definition encode :: "'a HandleTable \<Rightarrow> usize \<Rightarrow> 16 word \<Rightarrow> RawHandle" where
  "encode t slot g = (push_bit 16 (ucast g) OR (of_nat slot + 1)) XOR salt t"

definition decode :: "'a HandleTable \<Rightarrow> RawHandle \<Rightarrow> (usize \<times> 16 word) option" where
  "decode t v =
     (let x = v XOR salt t; index = unat (x AND 0xffff)
      in if index = 0 then None else Some (index - 1, ucast (drop_bit 16 x)))"

definition HandleTable_len :: "'a HandleTable \<Rightarrow> usize" where
  "HandleTable_len t = count t"

definition HandleTable_is_empty :: "'a HandleTable \<Rightarrow> bool" where
  "HandleTable_is_empty t \<longleftrightarrow> count t = 0"

definition HandleTable_room :: "'a HandleTable \<Rightarrow> usize" where
  "HandleTable_room t = HANDLES_PER_PROCESS - count t"

definition HandleTable_slots :: "'a HandleTable \<Rightarrow> usize" where
  "HandleTable_slots t = length (slots t)"

definition HandleTable_grows :: "'a HandleTable \<Rightarrow> bool" where
  "HandleTable_grows t \<longleftrightarrow> free t = []"

text \<open>
  The free list is a stack, its last element the one \<open>pop\<close> takes; here its head. \<open>reserve_ok\<close> is
  whether the vector of slots could grow (\<open>try_reserve\<close>).
\<close>

definition take_slot :: "bool \<Rightarrow> 'a HandleTable \<Rightarrow> (usize \<times> 'a HandleTable) option" where
  "take_slot reserve_ok t =
     (case free t of
        slot # rest \<Rightarrow> Some (slot, t\<lparr>free := rest\<rparr>)
      | [] \<Rightarrow>
          if \<not> reserve_ok then None
          else let t1 = t\<lparr>slots := slots t @ [\<lparr>generation = 0, entry = None\<rparr>]\<rparr>
               in Some (length (slots t1) - 1, t1))"

definition insert_or_return ::
  "bool \<Rightarrow> 'a HandleTable \<Rightarrow> 'a \<Rightarrow> ((error \<times> 'a) + RawHandle) \<times> 'a HandleTable"
where
  "insert_or_return reserve_ok t handle =
     (if count t \<ge> HANDLES_PER_PROCESS then (Inl (Limit, handle), t)
      else case take_slot reserve_ok t of
        None \<Rightarrow> (Inl (NoMemory, handle), t)
      | Some (slot, t1) \<Rightarrow>
          let g = generation (slots t1 ! slot);
              g' = (if encode t1 slot g = 0 then g + 1 else g);
              t2 = t1\<lparr>slots := (slots t1)[slot := \<lparr>generation = g', entry = Some handle\<rparr>],
                      count := count t1 + 1\<rparr>
          in (Inr (encode t2 slot g'), t2))"

definition HandleTable_insert ::
  "bool \<Rightarrow> 'a HandleTable \<Rightarrow> 'a \<Rightarrow> RawHandle res \<times> 'a HandleTable"
where
  "HandleTable_insert reserve_ok t handle =
     (case insert_or_return reserve_ok t handle of
        (Inl (e, _), t') \<Rightarrow> (Inl e, t')
      | (Inr v, t') \<Rightarrow> (Inr v, t'))"

definition HandleTable_get :: "'a HandleTable \<Rightarrow> RawHandle \<Rightarrow> 'a res" where
  "HandleTable_get t v =
     (case decode t v of
        None \<Rightarrow> Inl BadHandle
      | Some (slot, g) \<Rightarrow>
          if slot < length (slots t) then
            (case entry (slots t ! slot) of
               Some handle \<Rightarrow> if generation (slots t ! slot) = g then Inr handle else Inl BadHandle
             | None \<Rightarrow> Inl BadHandle)
          else Inl BadHandle)"

definition HandleTable_remove :: "'a HandleTable \<Rightarrow> RawHandle \<Rightarrow> 'a res \<times> 'a HandleTable" where
  "HandleTable_remove t v =
     (case HandleTable_get t v of
        Inl e \<Rightarrow> (Inl e, t)
      | Inr _ \<Rightarrow>
          (case decode t v of
             None \<Rightarrow> (Inl BadHandle, t)
           | Some (slot, _) \<Rightarrow>
               (case entry (slots t ! slot) of
                  None \<Rightarrow> (Inl BadHandle, t)
                | Some handle \<Rightarrow>
                    (Inr handle,
                     t\<lparr>slots := (slots t)[slot := \<lparr>generation = generation (slots t ! slot) + 1,
                                                  entry = None\<rparr>],
                       free := slot # free t,
                       count := count t - 1\<rparr>))))"

text \<open>\<open>drain\<close> rebuilds the free list in ascending order, so that the last slot is taken first.\<close>

definition HandleTable_drain :: "'a HandleTable \<Rightarrow> 'a list \<times> 'a HandleTable" where
  "HandleTable_drain t =
     (List.map_filter entry (slots t),
      t\<lparr>slots := map (\<lambda>s. \<lparr>generation = generation s + 1, entry = None\<rparr>) (slots t),
        free := rev [0..<length (slots t)],
        count := 0\<rparr>)"

subsection \<open>Well-formed tables\<close>

text \<open>
  The free list names each empty slot once and no other, and the count is that of the full ones,
  never above the bound; so a table never has more slots than the bound either.
\<close>

definition live :: "'a HandleTable \<Rightarrow> usize set" where
  "live t = {i. i < length (slots t) \<and> entry (slots t ! i) \<noteq> None}"

definition HandleTable_inv :: "'a HandleTable \<Rightarrow> bool" where
  "HandleTable_inv t \<longleftrightarrow>
     distinct (free t) \<and> set (free t) = {i. i < length (slots t)} - live t \<and>
     count t = card (live t) \<and> length (slots t) \<le> HANDLES_PER_PROCESS"

subsection \<open>Values\<close>

lemma mask_16: "(0xffff :: 32 word) = mask 16"
  by (simp add: mask_eq_exp_minus_1)

lemma low_bit_index:
  fixes n :: nat
  assumes "n < 65536" "bit n i"
  shows "i < 16"
proof (rule ccontr)
  assume "\<not> i < 16"
  then have "n < 2 ^ i" using assms(1) power_increasing [of 16 i "2 :: nat"] by simp
  then have "\<not> bit n i" by (simp add: bit_iff_odd)
  then show False using assms(2) by simp
qed

lemma pack_low:
  "n < 2 ^ 16 \<Longrightarrow> (push_bit 16 (ucast g) OR of_nat n) AND mask 16 = (of_nat n :: 32 word)"
  by (rule bit_word_eqI) (auto simp: bit_simps dest: low_bit_index)

lemma pack_high:
  fixes g :: "16 word"
  shows "n < 2 ^ 16 \<Longrightarrow> ucast (drop_bit 16 (push_bit 16 (ucast g) OR of_nat n :: 32 word)) = g"
  by (rule bit_word_eqI) (auto simp: bit_simps simp del: of_nat_Suc dest: low_bit_index)

lemma encode_alt: "encode t slot g = (push_bit 16 (ucast g) OR of_nat (slot + 1)) XOR salt t"
  by (simp add: encode_def add.commute)

text \<open>A slot index is below the bound of a table, so it never reaches the generation's bits.\<close>

lemma decode_encode: "slot < HANDLES_PER_PROCESS \<Longrightarrow> decode t (encode t slot g) = Some (slot, g)"
proof -
  assume "slot < HANDLES_PER_PROCESS"
  then have n: "slot + 1 < 2 ^ 16" by (simp add: HANDLES_PER_PROCESS_def)
  have "unat (of_nat (slot + 1) :: 32 word) = slot + 1"
    using n by (simp only: unat_of_nat) simp
  then show ?thesis
    using pack_low [OF n, of g] pack_high [OF n, of g]
    by (simp add: decode_def encode_alt Let_def xor.assoc mask_16 del: of_nat_add of_nat_Suc)
qed

lemma encode_eq:
  assumes "i < HANDLES_PER_PROCESS" "j < HANDLES_PER_PROCESS" "salt t = salt u"
  shows "encode t i g = encode u j h \<longleftrightarrow> i = j \<and> g = h"
proof
  have "encode u j h = encode t j h" using assms(3) by (simp add: encode_def)
  moreover assume "encode t i g = encode u j h"
  ultimately have "decode t (encode t i g) = decode t (encode t j h)" by simp
  then show "i = j \<and> g = h" using assms(1,2) by (simp add: decode_encode)
qed (use assms(3) in \<open>simp add: encode_def\<close>)

text \<open>At most one generation of a slot has the value zero, so skipping one generation avoids it.\<close>

lemma encode_nonzero:
  assumes "i < HANDLES_PER_PROCESS" "encode t i g = 0"
  shows "encode t i (g + 1) \<noteq> 0"
  using assms encode_eq [of i i t t g "g + 1"] by auto

subsection \<open>The operations on a well-formed table\<close>

lemma live_finite [simp]: "finite (live t)"
  by (simp add: live_def)

lemma live_less: "i \<in> live t \<Longrightarrow> i < length (slots t)"
  by (simp add: live_def)

lemma get_encode:
  assumes "i < HANDLES_PER_PROCESS" "salt t = salt u"
  shows "HandleTable_get t (encode u i g) = Inr h \<longleftrightarrow>
    i < length (slots t) \<and> generation (slots t ! i) = g \<and> entry (slots t ! i) = Some h"
proof -
  have "encode u i g = encode t i g" using assms(2) by (simp add: encode_def)
  then show ?thesis
    using assms(1)
    by (auto simp: HandleTable_get_def decode_encode split: option.splits if_splits)
qed

text \<open>A value that names something is the encoding of a live slot at its generation.\<close>

lemma xor_word_cancel: "(a XOR b) XOR b = (a :: 'a::len word)"
  by (simp add: xor.assoc)

lemma decode_Some:
  assumes "decode t v = Some (i, g)"
  shows "v = encode t i g"
proof -
  define x where "x = v XOR salt t"
  have i: "unat (x AND mask 16) = i + 1" and g: "g = ucast (drop_bit 16 x)"
    using assms by (auto simp: decode_def x_def Let_def mask_16 split: if_splits)
  have "of_nat (i + 1) = x AND mask 16" by (simp only: of_nat_unat ucast_id flip: i)
  moreover have "x = push_bit 16 (ucast (ucast (drop_bit 16 x) :: 16 word)) OR (x AND mask 16)"
    by (rule bit_word_eqI) (auto simp: bit_simps)
  ultimately have "x = push_bit 16 (ucast g) OR of_nat (i + 1)" using g by simp
  then show ?thesis by (metis encode_alt x_def xor_word_cancel)
qed

lemma get_Inr:
  assumes "HandleTable_get t v = Inr h"
  obtains i where "i < length (slots t)" "entry (slots t ! i) = Some h"
    "v = encode t i (generation (slots t ! i))" "decode t v = Some (i, generation (slots t ! i))"
proof -
  obtain i g where d: "decode t v = Some (i, g)"
    using assms by (auto simp: HandleTable_get_def split: option.splits)
  then have "i < length (slots t)" "entry (slots t ! i) = Some h" "generation (slots t ! i) = g"
    using assms by (auto simp: HandleTable_get_def split: option.splits if_splits)
  then show ?thesis using that d decode_Some [OF d] by simp
qed

lemma get_cases: "HandleTable_get t v = Inl e \<Longrightarrow> e = BadHandle"
  by (auto simp: HandleTable_get_def split: option.splits if_splits)

lemma new_inv: "HandleTable_inv (HandleTable_new s)"
  by (simp add: HandleTable_inv_def HandleTable_new_def live_def)

text \<open>What \<open>take_slot\<close> gives: an empty slot within the table, with nothing else changed.\<close>

lemma take_slot_inv:
  assumes inv: "HandleTable_inv t" and c: "count t < HANDLES_PER_PROCESS"
    and t1: "take_slot r t = Some (i, t1)"
  shows "i < length (slots t1)" "entry (slots t1 ! i) = None" "live t1 = live t"
    "distinct (i # free t1)" "insert i (set (free t1)) = {i. i < length (slots t1)} - live t1"
    "length (slots t1) \<le> HANDLES_PER_PROCESS" "salt t1 = salt t" "count t1 = count t"
    "\<And>j. j < length (slots t) \<Longrightarrow> slots t1 ! j = slots t ! j" "length (slots t) \<le> length (slots t1)"
proof -
  have all: "i < length (slots t1) \<and> entry (slots t1 ! i) = None \<and> live t1 = live t \<and>
      distinct (i # free t1) \<and> insert i (set (free t1)) = {i. i < length (slots t1)} - live t1 \<and>
      length (slots t1) \<le> HANDLES_PER_PROCESS \<and> salt t1 = salt t \<and> count t1 = count t \<and>
      (\<forall>j < length (slots t). slots t1 ! j = slots t ! j) \<and> length (slots t) \<le> length (slots t1)"
  proof (cases "free t")
    case Nil
    then have full: "live t = {i. i < length (slots t)}" using inv
      by (auto simp: HandleTable_inv_def live_def)
    then have "length (slots t) < HANDLES_PER_PROCESS"
      using inv c by (simp add: HandleTable_inv_def)
    moreover have "i = length (slots t)"
        "t1 = t\<lparr>slots := slots t @ [\<lparr>generation = 0, entry = None\<rparr>]\<rparr>"
      using t1 Nil by (auto simp: take_slot_def Let_def split: if_splits)
    moreover have "live t1 = live t"
      unfolding live_def calculation(3)
      by (rule Collect_cong) (auto simp: nth_append less_Suc_eq)
    moreover have "{j. j < Suc (length (slots t))} - {j. j < length (slots t)} = {length (slots t)}"
      by auto
    ultimately show ?thesis using Nil full by (simp add: nth_append less_Suc_eq)
  next
    case (Cons a rest)
    then have eq: "i = a" "t1 = t\<lparr>free := rest\<rparr>" using t1 by (auto simp: take_slot_def)
    then have "live t1 = live t" by (simp add: live_def)
    moreover have f: "set (free t) = {i. i < length (slots t)} - live t" "distinct (free t)"
      using inv by (simp_all add: HandleTable_inv_def)
    then have "i \<in> {i. i < length (slots t)} - live t" using Cons eq(1) by auto
    then have "i < length (slots t)" "entry (slots t ! i) = None" by (simp_all add: live_def)
    moreover have "insert i (set rest) = {i. i < length (slots t)} - live t" "distinct (i # rest)"
      using f Cons eq(1) by auto
    moreover have "length (slots t) \<le> HANDLES_PER_PROCESS"
      using inv by (simp add: HandleTable_inv_def)
    ultimately show ?thesis unfolding eq(2) by simp
  qed
  then show "i < length (slots t1)" "entry (slots t1 ! i) = None" "live t1 = live t"
    "distinct (i # free t1)" "insert i (set (free t1)) = {i. i < length (slots t1)} - live t1"
    "length (slots t1) \<le> HANDLES_PER_PROCESS" "salt t1 = salt t" "count t1 = count t"
    "\<And>j. j < length (slots t) \<Longrightarrow> slots t1 ! j = slots t ! j" "length (slots t) \<le> length (slots t1)"
    by simp_all
qed

lemma insert_or_return_ok:
  assumes inv: "HandleTable_inv t" and ins: "insert_or_return r t h = (Inr v, t')"
  obtains i g where "i < length (slots t')" "i < HANDLES_PER_PROCESS" "v = encode t i g" "v \<noteq> 0"
    "generation (slots t' ! i) = g" "entry (slots t' ! i) = Some h"
    "i \<notin> live t" "live t' = insert i (live t)" "salt t' = salt t" "HandleTable_inv t'"
    "\<And>j. j < length (slots t) \<Longrightarrow> j \<noteq> i \<Longrightarrow> slots t' ! j = slots t ! j"
    "\<And>j. j < length (slots t') \<Longrightarrow> j \<noteq> i \<Longrightarrow> j < length (slots t)"
    "length (slots t) \<le> length (slots t')"
    "i < length (slots t) \<Longrightarrow> g = generation (slots t ! i) \<or> g = generation (slots t ! i) + 1"
proof -
  have c: "count t < HANDLES_PER_PROCESS"
    using ins by (auto simp: insert_or_return_def split: if_splits)
  obtain i t1 where t1: "take_slot r t = Some (i, t1)"
    using ins c by (auto simp: insert_or_return_def split: if_splits option.splits)
  note ts = take_slot_inv [OF inv c t1]
  define g where "g = (if encode t1 i (generation (slots t1 ! i)) = 0
    then generation (slots t1 ! i) + 1 else generation (slots t1 ! i))"
  have i: "i < HANDLES_PER_PROCESS" using ts(1,6) by simp
  have t': "t' = t1\<lparr>slots := (slots t1)[i := \<lparr>generation = g, entry = Some h\<rparr>], count := count t + 1\<rparr>"
      "v = encode t' i g"
    using ins c t1 ts(8) by (auto simp: insert_or_return_def g_def Let_def split: if_splits)
  have v: "v = encode t i g" using t' ts(7) by (simp add: encode_def)
  have "v = encode t1 i g" using v ts(7) by (simp add: encode_def)
  then have "v \<noteq> 0" using encode_nonzero [OF i, of t1] by (auto simp: g_def)
  have "i \<notin> live t1" using ts(2) by (simp add: live_def)
  then have ni: "i \<notin> live t" using ts(3) by simp
  have l': "live t' = insert i (live t)"
    unfolding ts(3) [symmetric] using ts(1) by (auto simp: t'(1) live_def nth_list_update)
  have "set (free t1) = {j. j < length (slots t1)} - insert i (live t)"
    using ts(3,4,5) by auto
  moreover have "count t = card (live t)" using inv by (simp add: HandleTable_inv_def)
  ultimately have "HandleTable_inv t'"
    using ts(4,6) l' ni by (simp add: HandleTable_inv_def t'(1))
  have grow: "j < length (slots t)" if "j < length (slots t1)" "j \<noteq> i" for j
    using t1 that by (auto simp: take_slot_def Let_def split: list.splits if_splits)
  show ?thesis
  proof (rule that [of i g])
    show "g = generation (slots t ! i) \<or> g = generation (slots t ! i) + 1" if "i < length (slots t)"
      using ts(9) [OF that] by (simp add: g_def)
    show "slots t' ! j = slots t ! j" if "j < length (slots t)" "j \<noteq> i" for j
      using ts(9) that by (simp add: t'(1))
    show "j < length (slots t)" if "j < length (slots t')" "j \<noteq> i" for j
      using grow that by (simp add: t'(1))
    show "i < length (slots t')" "generation (slots t' ! i) = g" "entry (slots t' ! i) = Some h"
        "salt t' = salt t" "length (slots t) \<le> length (slots t')"
      using ts(1,7,10) by (simp_all add: t'(1))
  qed fact+
qed

text \<open>Two tables that differ in one slot, empty or dead for all but one value, agree on the others.\<close>

lemma get_other:
  assumes "salt t' = salt t" "i < HANDLES_PER_PROCESS" "w \<noteq> encode t i g"
    and "\<And>j. j \<noteq> i \<Longrightarrow> j < length (slots t') \<longleftrightarrow> j < length (slots t)"
    and "\<And>j. j < length (slots t) \<Longrightarrow> j \<noteq> i \<Longrightarrow> slots t' ! j = slots t ! j"
    and "i < length (slots t) \<Longrightarrow> entry (slots t ! i) = None \<or> generation (slots t ! i) = g"
    and "i < length (slots t') \<Longrightarrow> entry (slots t' ! i) = None \<or> generation (slots t' ! i) = g"
  shows "HandleTable_get t' w = HandleTable_get t w"
proof (cases "decode t w")
  case None
  moreover from this have "decode t' w = None" using assms(1) by (simp add: decode_def)
  ultimately show ?thesis by (simp add: HandleTable_get_def)
next
  case (Some p)
  then obtain j k where d: "decode t w = Some (j, k)" by (cases p) auto
  have d': "decode t' w = Some (j, k)" using d assms(1) by (simp add: decode_def)
  have "w = encode t j k" by (rule decode_Some [OF d])
  then have ne: "j = i \<Longrightarrow> k \<noteq> g" using assms(3) by blast
  show ?thesis
  proof (cases "j = i")
    case True
    then have "HandleTable_get t w = Inl BadHandle" "HandleTable_get t' w = Inl BadHandle"
      using assms(6,7) d d' ne
      by (auto simp: HandleTable_get_def split: option.splits)
    then show ?thesis by simp
  next
    case False
    then have "j < length (slots t') \<longleftrightarrow> j < length (slots t)" by (rule assms(4))
    then show ?thesis
      using assms(5) [of j] False d d' by (cases "j < length (slots t)") (simp_all add: HandleTable_get_def split: option.split)
  qed
qed

lemma remove_ok:
  assumes inv: "HandleTable_inv t" and get: "HandleTable_get t v = Inr h"
  obtains i g t' where "HandleTable_remove t v = (Inr h, t')" "i < length (slots t)"
    "v = encode t i g" "generation (slots t ! i) = g" "entry (slots t ! i) = Some h"
    "t' = t\<lparr>slots := (slots t)[i := \<lparr>generation = g + 1, entry = None\<rparr>],
            free := i # free t, count := count t - 1\<rparr>"
    "HandleTable_inv t'"
proof -
  obtain i where i: "i < length (slots t)" "entry (slots t ! i) = Some h"
      "v = encode t i (generation (slots t ! i))" "decode t v = Some (i, generation (slots t ! i))"
    using get by (rule get_Inr)
  define t' where "t' = t\<lparr>slots := (slots t)[i := \<lparr>generation = generation (slots t ! i) + 1, entry = None\<rparr>],
            free := i # free t, count := count t - 1\<rparr>"
  have "HandleTable_remove t v = (Inr h, t')"
    using i get by (simp add: HandleTable_remove_def t'_def)
  moreover have "HandleTable_inv t'"
  proof -
    have "i \<in> live t" using i by (simp add: live_def)
    moreover have "live t' = live t - {i}"
      using i(1) by (auto simp: t'_def live_def nth_list_update)
    ultimately show ?thesis
      using inv i(1) by (auto simp: HandleTable_inv_def t'_def)
  qed
  ultimately show ?thesis by (rule that [OF _ i(1) i(3) refl i(2) t'_def])
qed

subsection \<open>Contract of a handle table\<close>

text \<open>
  What the calls rely on: a value names what was inserted under it and nothing else, inserting and
  removing leave every other value's meaning alone, and an operation refused changes nothing.
\<close>

locale handle_store =
  fixes inv :: "'t \<Rightarrow> bool"
    and lookup :: "'t \<Rightarrow> RawHandle \<Rightarrow> 'h res"
    and ins :: "'t \<Rightarrow> 'h \<Rightarrow> RawHandle res \<times> 't"
    and rem :: "'t \<Rightarrow> RawHandle \<Rightarrow> 'h res \<times> 't"
  assumes ins_ok: "inv t \<Longrightarrow> ins t h = (Inr v, t') \<Longrightarrow>
      inv t' \<and> v \<noteq> 0 \<and> lookup t v = Inl BadHandle \<and> lookup t' v = Inr h \<and>
      (\<forall>w. w \<noteq> v \<longrightarrow> lookup t' w = lookup t w)"
    and ins_refused: "ins t h = (Inl e, t') \<Longrightarrow> t' = t"
    and rem_ok: "inv t \<Longrightarrow> lookup t v = Inr h \<Longrightarrow> rem t v = (r, t') \<Longrightarrow>
      r = Inr h \<and> inv t' \<and> lookup t' v = Inl BadHandle \<and>
      (\<forall>w. w \<noteq> v \<longrightarrow> lookup t' w = lookup t w)"
    and rem_refused: "lookup t v = Inl e \<Longrightarrow> rem t v = (Inl e, t)"
begin

text \<open>Handles put in one after the other, as a message's are when it is read.\<close>

fun ins_list :: "'t \<Rightarrow> 'h list \<Rightarrow> RawHandle res list \<times> 't" where
  "ins_list t [] = ([], t)"
| "ins_list t (h # hs) =
     (let (r, t1) = ins t h; (rs, t2) = ins_list t1 hs in (r # rs, t2))"

lemma ins_inv: "inv t \<Longrightarrow> inv (snd (ins t h))"
  using ins_ok [of t h] ins_refused [of t h] by (cases "ins t h"; cases "fst (ins t h)") auto

lemma ins_keeps: "inv t \<Longrightarrow> lookup t v = Inr h' \<Longrightarrow> lookup (snd (ins t h)) v = Inr h'"
  using ins_ok [of t h] ins_refused [of t h]
  by (cases "ins t h"; cases "fst (ins t h)") (auto, metis Inl_Inr_False)

lemma ins_list_inv: "inv t \<Longrightarrow> inv (snd (ins_list t hs))"
  by (induction hs arbitrary: t) (auto simp: split_beta Let_def ins_inv)

lemma ins_list_keeps:
  "inv t \<Longrightarrow> lookup t v = Inr h' \<Longrightarrow> lookup (snd (ins_list t hs)) v = Inr h'"
  by (induction hs arbitrary: t) (auto simp: split_beta Let_def ins_inv ins_keeps)

lemma ins_list_lookup:
  assumes "inv t" "i < length hs" "fst (ins_list t hs) ! i = Inr v"
  shows "lookup (snd (ins_list t hs)) v = Inr (hs ! i)"
  using assms
proof (induction hs arbitrary: t i)
  case (Cons h hs)
  obtain r t1 where t1: "ins t h = (r, t1)" by force
  have "inv t1" using ins_inv [OF Cons.prems(1), of h] t1 by simp
  show ?case
  proof (cases i)
    case 0
    then have "lookup t1 v = Inr h"
      using Cons.prems t1 ins_ok [of t h v t1] by (simp add: split_beta Let_def)
    then show ?thesis using 0 t1 \<open>inv t1\<close> by (simp add: split_beta Let_def ins_list_keeps)
  next
    case (Suc k)
    then show ?thesis using Cons t1 \<open>inv t1\<close> by (simp add: split_beta Let_def)
  qed
qed simp

lemma ins_rem:
  assumes "inv t" "ins t h = (Inr v, t1)" "rem t1 v = (r, t2)"
  shows "r = Inr h \<and> inv t2 \<and> lookup t2 = lookup t"
  using ins_ok [OF assms(1,2)] rem_ok [OF _ _ assms(3), of h] by (intro conjI ext) metis+

lemma rem_twice:
  assumes "inv t" "lookup t v = Inr h"
  shows "fst (rem (snd (rem t v)) v) = Inl BadHandle"
  using rem_ok [OF assms, of "fst (rem t v)" "snd (rem t v)"] rem_refused by (metis fst_conv prod.collapse)

end

lemma HandleTable_insert_Inr:
  "HandleTable_insert r t h = (Inr v, t') \<longleftrightarrow> insert_or_return r t h = (Inr v, t')"
  by (auto simp: HandleTable_insert_def split: prod.splits sum.splits)

lemma HandleTable_insert_Inl:
  "HandleTable_insert r t h = (Inl e, t') \<Longrightarrow> t' = t"
  by (auto simp: HandleTable_insert_def insert_or_return_def Let_def
      split: prod.splits sum.splits if_splits option.splits)

lemma HandleTable_insert_ok:
  assumes "HandleTable_inv t" "HandleTable_insert r t h = (Inr v, t')"
  shows "HandleTable_inv t' \<and> v \<noteq> 0 \<and> HandleTable_get t v = Inl BadHandle \<and>
    HandleTable_get t' v = Inr h \<and> (\<forall>w. w \<noteq> v \<longrightarrow> HandleTable_get t' w = HandleTable_get t w)"
proof -
  have ins: "insert_or_return r t h = (Inr v, t')" using assms(2) by (simp add: HandleTable_insert_Inr)
  from assms(1) ins show ?thesis
  proof (rule insert_or_return_ok)
    fix i g
    assume i: "i < length (slots t')" "i < HANDLES_PER_PROCESS" "v = encode t i g" "v \<noteq> 0"
      and e: "generation (slots t' ! i) = g" "entry (slots t' ! i) = Some h"
      and l: "i \<notin> live t" "live t' = insert i (live t)"
      and s: "salt t' = salt t" "HandleTable_inv t'"
      and same: "\<And>j. j < length (slots t) \<Longrightarrow> j \<noteq> i \<Longrightarrow> slots t' ! j = slots t ! j"
      and shrink: "\<And>j. j < length (slots t') \<Longrightarrow> j \<noteq> i \<Longrightarrow> j < length (slots t)"
      and grow: "length (slots t) \<le> length (slots t')"
    have empty: "i < length (slots t) \<Longrightarrow> entry (slots t ! i) = None" using l(1) by (simp add: live_def)
    have "HandleTable_get t' w = HandleTable_get t w" if "w \<noteq> v" for w
      by (rule get_other [of t' t i w g]) (use s i e same shrink grow empty that in auto)
    moreover have "HandleTable_get t' v = Inr h" using i e s by (simp add: get_encode)
    moreover have "HandleTable_get t v = Inl BadHandle"
      using i(2,3) empty by (auto simp: HandleTable_get_def decode_encode)
    ultimately show ?thesis using s(2) i(4) by blast
  qed
qed

lemma HandleTable_remove_ok:
  assumes inv: "HandleTable_inv t" and get: "HandleTable_get t v = Inr h"
    and rem: "HandleTable_remove t v = (r, t')"
  shows "r = Inr h \<and> HandleTable_inv t' \<and> HandleTable_get t' v = Inl BadHandle \<and>
    (\<forall>w. w \<noteq> v \<longrightarrow> HandleTable_get t' w = HandleTable_get t w)"
  using inv get
proof (rule remove_ok)
  fix i g u
  assume r: "HandleTable_remove t v = (Inr h, u)" "HandleTable_inv u"
    and i: "i < length (slots t)" "v = encode t i g" "generation (slots t ! i) = g"
    and u: "u = t\<lparr>slots := (slots t)[i := \<lparr>generation = g + 1, entry = None\<rparr>],
        free := i # free t, count := count t - 1\<rparr>"
  have b: "i < HANDLES_PER_PROCESS" using inv i(1) by (simp add: HandleTable_inv_def)
  have "HandleTable_get u w = HandleTable_get t w" if "w \<noteq> v" for w
    by (rule get_other [of u t i w g]) (use i b that in \<open>auto simp: u\<close>)
  moreover have "HandleTable_get u v = Inl BadHandle"
  proof -
    have "encode u i g = v" using i(2) by (simp add: u encode_def)
    then have "decode u v = Some (i, g)" using decode_encode [OF b, of u g] by simp
    then show ?thesis using i(1) by (simp add: HandleTable_get_def) (simp add: u)
  qed
  ultimately show ?thesis using r rem by auto
qed

interpretation ht: handle_store HandleTable_inv HandleTable_get "HandleTable_insert r" HandleTable_remove
  for r
proof unfold_locales
  fix t :: "'h HandleTable" and h v t'
  show "HandleTable_inv t' \<and> v \<noteq> 0 \<and> HandleTable_get t v = Inl BadHandle \<and>
      HandleTable_get t' v = Inr h \<and> (\<forall>w. w \<noteq> v \<longrightarrow> HandleTable_get t' w = HandleTable_get t w)"
    if "HandleTable_inv t" "HandleTable_insert r t h = (Inr v, t')"
    using that by (rule HandleTable_insert_ok)
  show "t' = t" if "HandleTable_insert r t h = (Inl e, t')" for e
    using that by (rule HandleTable_insert_Inl)
  show "x = Inr h \<and> HandleTable_inv t' \<and> HandleTable_get t' v = Inl BadHandle \<and>
      (\<forall>w. w \<noteq> v \<longrightarrow> HandleTable_get t' w = HandleTable_get t w)"
    if "HandleTable_inv t" "HandleTable_get t v = Inr h" "HandleTable_remove t v = (x, t')" for x
    using that by (rule HandleTable_remove_ok)
  show "HandleTable_remove t v = (Inl e, t)" if "HandleTable_get t v = Inl e" for e
    using that by (simp add: HandleTable_remove_def)
qed

lemma drain_inv: "HandleTable_inv t \<Longrightarrow> HandleTable_inv (snd (HandleTable_drain t))"
  by (auto simp: HandleTable_inv_def HandleTable_drain_def live_def)

lemma drain_get: "HandleTable_get (snd (HandleTable_drain t)) v = Inl BadHandle"
  by (auto simp: HandleTable_get_def HandleTable_drain_def split: option.splits)

lemma drain_entries:
  "HandleTable_inv t \<Longrightarrow> length (fst (HandleTable_drain t)) = count t"
proof -
  have "length (List.map_filter entry xs) = card {i. i < length xs \<and> entry (xs ! i) \<noteq> None}"
    for xs :: "'a Slot list"
    by (simp add: map_filter_def length_filter_conv_card)
  then show "HandleTable_inv t \<Longrightarrow> ?thesis"
    by (simp add: HandleTable_drain_def HandleTable_inv_def live_def)
qed

subsection \<open>Tables over time\<close>

datatype 'a table_op = OpInsert bool 'a | OpRemove RawHandle | OpDrain

fun table_apply :: "'a HandleTable \<Rightarrow> 'a table_op \<Rightarrow> 'a HandleTable" where
  "table_apply t (OpInsert r h) = snd (HandleTable_insert r t h)"
| "table_apply t (OpRemove v) = snd (HandleTable_remove t v)"
| "table_apply t OpDrain = snd (HandleTable_drain t)"

lemma remove_inv: "HandleTable_inv t \<Longrightarrow> HandleTable_inv (snd (HandleTable_remove t v))"
  using ht.rem_ok [of t v _ "fst (HandleTable_remove t v)" "snd (HandleTable_remove t v)"]
  by (cases "HandleTable_get t v") (simp_all add: ht.rem_refused)

lemma table_apply_inv: "HandleTable_inv t \<Longrightarrow> HandleTable_inv (table_apply t op)"
  by (cases op) (simp_all add: ht.ins_inv remove_inv drain_inv)

lemma table_run_inv: "HandleTable_inv t \<Longrightarrow> HandleTable_inv (foldl table_apply t ops)"
  by (induction ops arbitrary: t) (simp_all add: table_apply_inv)

text \<open>
  The generation of a slot moves by at most one in an operation, and the salt never. A slot never
  goes away.
\<close>

definition gen_step :: "'a HandleTable \<Rightarrow> 'a HandleTable \<Rightarrow> usize \<Rightarrow> bool" where
  "gen_step t t' i \<longleftrightarrow> salt t' = salt t \<and> i < length (slots t') \<and>
     (generation (slots t' ! i) = generation (slots t ! i) \<or>
      generation (slots t' ! i) = generation (slots t ! i) + 1)"

lemma insert_gen_step:
  assumes inv: "HandleTable_inv t" and i: "i < length (slots t)"
  shows "gen_step t (snd (HandleTable_insert r t h)) i"
proof (cases "HandleTable_insert r t h")
  case (Pair x t')
  show ?thesis
  proof (cases x)
    case (Inl e)
    then have "t' = t" using Pair HandleTable_insert_Inl by simp
    then show ?thesis using Pair i by (simp add: gen_step_def)
  next
    case (Inr v)
    then have "insert_or_return r t h = (Inr v, t')" using Pair by (simp add: HandleTable_insert_Inr)
    with inv have "gen_step t t' i"
    proof (rule insert_or_return_ok)
      fix j g
      assume s: "salt t' = salt t" "length (slots t) \<le> length (slots t')"
        and same: "\<And>k. k < length (slots t) \<Longrightarrow> k \<noteq> j \<Longrightarrow> slots t' ! k = slots t ! k"
        and g: "generation (slots t' ! j) = g"
          "j < length (slots t) \<Longrightarrow> g = generation (slots t ! j) \<or> g = generation (slots t ! j) + 1"
      show "gen_step t t' i"
        using s i same [OF i] g by (cases "i = j") (auto simp: gen_step_def)
    qed
    then show ?thesis using Pair by simp
  qed
qed

lemma nth_list_update_at: "i < length xs \<Longrightarrow> xs[a := y] ! i = (if a = i then y else xs ! i)"
  by (cases "a = i") simp_all

lemma remove_gen_step:
  "i < length (slots t) \<Longrightarrow> gen_step t (snd (HandleTable_remove t v)) i"
  by (simp add: HandleTable_remove_def gen_step_def nth_list_update_at
      split: sum.split option.split prod.split)

lemma table_apply_gen_step:
  "HandleTable_inv t \<Longrightarrow> i < length (slots t) \<Longrightarrow> gen_step t (table_apply t op) i"
  by (cases op) (simp_all add: insert_gen_step remove_gen_step, simp add: gen_step_def HandleTable_drain_def)

lemma table_run_gen:
  assumes "HandleTable_inv t" "i < length (slots t)"
  shows "\<exists>k \<le> length ops. salt (foldl table_apply t ops) = salt t \<and>
    generation (slots (foldl table_apply t ops) ! i) = generation (slots t ! i) + of_nat k"
  using assms
proof (induction ops arbitrary: t)
  case (Cons op ops)
  let ?u = "table_apply t op"
  have g: "gen_step t ?u i" by (rule table_apply_gen_step [OF Cons.prems])
  then have "i < length (slots ?u)" by (simp add: gen_step_def)
  then obtain k where k: "k \<le> length ops" "salt (foldl table_apply ?u ops) = salt ?u"
      "generation (slots (foldl table_apply ?u ops) ! i) = generation (slots ?u ! i) + of_nat k"
    using Cons.IH [OF table_apply_inv [OF Cons.prems(1)]] by blast
  from g consider "generation (slots ?u ! i) = generation (slots t ! i)"
    | "generation (slots ?u ! i) = generation (slots t ! i) + 1"
    by (auto simp: gen_step_def)
  then show ?case
  proof cases
    case 1 then show ?thesis using g k by (intro exI [of _ k]) (simp add: gen_step_def)
  next
    case 2 then show ?thesis using g k by (intro exI [of _ "Suc k"]) (simp add: gen_step_def)
  qed
qed simp

text \<open>
  C14. A handle value means what it was issued for. In any table reached from an empty one, a value
  that an insert issues is not zero, named nothing before, and now names the inserted handle;
  every other value keeps its meaning. An insert that is refused leaves the table as it was. Taking
  a value out returns what it named, after which it names nothing while every other value keeps
  its meaning; and a table never names more than its bound of handles.
\<close>

theorem handle_values:
  fixes s :: "32 word" and ops :: "'a table_op list"
  defines "t \<equiv> foldl table_apply (HandleTable_new s) ops"
  assumes "HandleTable_insert r t h = (x, t')" "HandleTable_remove t w = (y, u)"
  shows "(\<forall>v. x = Inr v \<longrightarrow> v \<noteq> 0 \<and> HandleTable_get t v = Inl BadHandle \<and> HandleTable_get t' v = Inr h \<and>
        (\<forall>z. z \<noteq> v \<longrightarrow> HandleTable_get t' z = HandleTable_get t z)) \<and>
    (\<forall>e. x = Inl e \<longrightarrow> t' = t) \<and>
    y = HandleTable_get t w \<and> HandleTable_get u w = Inl BadHandle \<and>
    (\<forall>z. z \<noteq> w \<longrightarrow> HandleTable_get u z = HandleTable_get t z) \<and>
    HandleTable_len t' \<le> HANDLES_PER_PROCESS"
proof -
  have inv: "HandleTable_inv t" unfolding t_def by (rule table_run_inv [OF new_inv])
  have ins: "v \<noteq> 0 \<and> HandleTable_get t v = Inl BadHandle \<and> HandleTable_get t' v = Inr h \<and>
      (\<forall>z. z \<noteq> v \<longrightarrow> HandleTable_get t' z = HandleTable_get t z)" if "x = Inr v" for v
    using HandleTable_insert_ok [OF inv] assms(2) that by simp
  have "t' = t" if "x = Inl e" for e using HandleTable_insert_Inl assms(2) that by simp
  moreover have "y = HandleTable_get t w \<and> HandleTable_get u w = Inl BadHandle \<and>
      (\<forall>z. z \<noteq> w \<longrightarrow> HandleTable_get u z = HandleTable_get t z)"
  proof (cases "HandleTable_get t w")
    case (Inl e)
    then show ?thesis using ht.rem_refused [OF Inl] get_cases [OF Inl] assms(3) by simp
  next
    case (Inr k)
    then show ?thesis using ht.rem_ok [OF inv Inr assms(3)] by simp
  qed
  moreover have "HandleTable_len t' \<le> HANDLES_PER_PROCESS"
  proof -
    have "HandleTable_inv t'" using ht.ins_inv [OF inv, of r h] assms(2) by simp
    then show ?thesis
      using card_mono [of "{i. i < length (slots t')}" "live t'"]
      by (simp add: HandleTable_len_def HandleTable_inv_def) (simp add: live_def Collect_mono)
  qed
  ultimately show ?thesis using ins by blast
qed

theorem handle_values_witness:
  "\<exists>t' u. HandleTable_insert True (foldl table_apply (HandleTable_new 1) [OpInsert True ''a'']) ''b''
      = (Inr 3, t') \<and>
    HandleTable_remove (foldl table_apply (HandleTable_new 1) [OpInsert True ''a'']) 0x10000
      = (Inr ''a'', u) \<and>
    HandleTable_get t' 3 = Inr ''b'' \<and> HandleTable_get u 0x10000 = Inl BadHandle"
proof -
  let ?t = "foldl table_apply (HandleTable_new 1) [OpInsert True ''a'']"
  obtain x t' where i: "HandleTable_insert True ?t ''b'' = (x, t')" by force
  obtain y u where r: "HandleTable_remove ?t 0x10000 = (y, u)" by force
  have "x = Inr 3" using i by (simp add: HandleTable_new_def HandleTable_insert_def
        insert_or_return_def take_slot_def encode_def HANDLES_PER_PROCESS_def)
  moreover have "HandleTable_get ?t 0x10000 = Inr ''a''"
    by (simp add: HandleTable_new_def HandleTable_insert_def HandleTable_get_def decode_def
        insert_or_return_def take_slot_def encode_def HANDLES_PER_PROCESS_def)
  ultimately show ?thesis using handle_values [OF i r] i r by simp
qed

text \<open>
  C15. A closed value stays dead: once a value has been taken out of a well-formed table, fewer than
  \<open>2 ^ 16 - 1\<close> further inserts, removals and drains, whatever they are, never make it name anything
  again.
\<close>

theorem closed_value_stays_dead:
  assumes inv: "HandleTable_inv t" and get: "HandleTable_get t v = Inr h"
    and n: "length ops < 2 ^ 16 - 1"
  shows "HandleTable_get (foldl table_apply (snd (HandleTable_remove t v)) ops) v = Inl BadHandle"
  using inv get
proof (rule remove_ok)
  fix i g u
  assume r: "HandleTable_remove t v = (Inr h, u)" "HandleTable_inv u"
    and i: "i < length (slots t)" "v = encode t i g"
    and u: "u = t\<lparr>slots := (slots t)[i := \<lparr>generation = g + 1, entry = None\<rparr>],
        free := i # free t, count := count t - 1\<rparr>"
  let ?w = "foldl table_apply u ops"
  have iu: "i < length (slots u)" "generation (slots u ! i) = g + 1" "salt u = salt t"
    using i(1) by (simp_all add: u)
  obtain k where k: "k \<le> length ops" "salt ?w = salt u"
      "generation (slots ?w ! i) = g + 1 + of_nat k"
    using table_run_gen [OF r(2) iu(1), of ops] iu(2) by auto
  have "of_nat (k + 1) \<noteq> (0 :: 16 word)"
    using k(1) n by (simp only: word_of_nat_eq_0_iff) (auto dest: dvd_imp_le)
  then have "generation (slots ?w ! i) \<noteq> g" using k(3) by (simp add: add.commute)
  moreover have "i < HANDLES_PER_PROCESS" using inv i(1) by (simp add: HandleTable_inv_def)
  moreover have "v = encode ?w i g" using i(2) k(2) iu(3) by (simp add: encode_def)
  ultimately have "HandleTable_get ?w v \<noteq> Inr x" for x
    using get_encode [of i ?w ?w g x] by simp
  then have "HandleTable_get ?w v = Inl BadHandle"
    using get_cases [of ?w v] by (cases "HandleTable_get ?w v") auto
  then show ?thesis using r(1) by simp
qed

theorem closed_value_stays_dead_witness:
  "let t = snd (HandleTable_insert True (HandleTable_new 0) ''a'') in
    HandleTable_get t 1 = Inr ''a'' \<and>
    HandleTable_get (foldl table_apply (snd (HandleTable_remove t 1)) [OpInsert True ''b'', OpDrain]) 1
      = Inl BadHandle"
proof -
  let ?t = "snd (HandleTable_insert True (HandleTable_new 0) ''a'')"
  have g: "HandleTable_get ?t 1 = Inr ''a''"
    by (simp add: HandleTable_new_def HandleTable_insert_def HandleTable_get_def decode_def
        insert_or_return_def take_slot_def encode_def HANDLES_PER_PROCESS_def)
  have "HandleTable_inv ?t" by (rule ht.ins_inv [OF new_inv])
  from closed_value_stays_dead [OF this g, of "[OpInsert True ''b'', OpDrain]"] g
  show ?thesis by (simp add: Let_def)
qed

end
