(* ===== verification/Quota.thy ===== *)
theory Quota
  imports Abi
begin

text \<open>
  The memory accounting that is arithmetic (\<open>kernel/quota/src/lib.rs\<close>): one account's figures and
  the four operations on them, the page tables that a change of an address space's areas makes or
  frees, and the szs the kernel derives at boot and for a handle table.

  Additions the code makes without a check are written \<open>wadd\<close> and \<open>wmul\<close> where an argument could
  make them wrap; the lemmas show where they do not.
\<close>

named_theorems ledger_simps \<open>what an operation on a ledger does to each figure\<close>

subsection \<open>One account's figures\<close>

record Usage =
  limit :: u64
  used :: u64
  peak :: u64
  reserved :: u64

type_synonym Ledger = Usage

record Exceeded =
  asked :: u64
  usage :: Usage

record Underflow =
  returned :: u64
  held :: u64

definition room :: "Usage \<Rightarrow> u64" where
  "room u = limit u - used u - reserved u"

definition Ledger_new :: "u64 \<Rightarrow> Ledger" where
  "Ledger_new lim = \<lparr>limit = lim, used = 0, peak = 0, reserved = 0\<rparr>"

definition Ledger_fits :: "Ledger \<Rightarrow> u64 \<Rightarrow> bool" where
  "Ledger_fits l bytes =
     (case checked_add (used l) (reserved l) of
        None \<Rightarrow> False
      | Some v \<Rightarrow> (case checked_add v bytes of None \<Rightarrow> False | Some t \<Rightarrow> t \<le> limit l))"

definition Ledger_charge :: "Ledger \<Rightarrow> u64 \<Rightarrow> (Exceeded + unit) \<times> Ledger" where
  "Ledger_charge l bytes =
     (if \<not> Ledger_fits l bytes then (Inl \<lparr>asked = bytes, usage = l\<rparr>, l)
      else let l1 = l\<lparr>used := wadd (used l) bytes\<rparr>
           in (Inr (), l1\<lparr>peak := max (peak l1) (used l1)\<rparr>))"

definition Ledger_uncharge :: "Ledger \<Rightarrow> u64 \<Rightarrow> (Underflow + unit) \<times> Ledger" where
  "Ledger_uncharge l bytes =
     (case checked_sub (used l) bytes of
        None \<Rightarrow> (Inl \<lparr>returned = bytes, held = used l\<rparr>, l)
      | Some u \<Rightarrow> (Inr (), l\<lparr>used := u\<rparr>))"

definition Ledger_reserve :: "Ledger \<Rightarrow> u64 \<Rightarrow> (Exceeded + unit) \<times> Ledger" where
  "Ledger_reserve l bytes =
     (if \<not> Ledger_fits l bytes then (Inl \<lparr>asked = bytes, usage = l\<rparr>, l)
      else (Inr (), l\<lparr>reserved := wadd (reserved l) bytes\<rparr>))"

definition Ledger_unreserve :: "Ledger \<Rightarrow> u64 \<Rightarrow> (Underflow + unit) \<times> Ledger" where
  "Ledger_unreserve l bytes =
     (case checked_sub (reserved l) bytes of
        None \<Rightarrow> (Inl \<lparr>returned = bytes, held = reserved l\<rparr>, l)
      | Some r \<Rightarrow> (Inr (), l\<lparr>reserved := r\<rparr>))"

text \<open>What is charged and what is held never pass the limit together.\<close>

definition Ledger_inv :: "Ledger \<Rightarrow> bool" where
  "Ledger_inv l \<longleftrightarrow>
     used l + reserved l \<le> limit l \<and> used l \<le> peak l \<and> peak l \<le> limit l \<and> limit l < U64"

subsection \<open>Page tables of an address space\<close>

record Tables =
  t_pages :: u64
  t_reclaim :: "(u64 \<times> u64) option list"

definition Tables_bytes :: "Tables \<Rightarrow> u64" where
  "Tables_bytes t = wmul (t_pages t) charge_PAGE"

definition regions :: "u64 \<Rightarrow> u64 \<Rightarrow> u64 \<Rightarrow> u64 \<times> u64" where
  "regions s e sz = (s div sz, (e - 1) div sz)"

text \<open>
  The inner loop of \<open>tables\<close>, over the regions of one piece: it counts a region unless it is the
  topmost or a neighbour's, and widens the hull.
\<close>

fun count_regions ::
  "u64 \<Rightarrow> u64 option \<Rightarrow> u64 option \<Rightarrow> u64 list \<Rightarrow> u64 \<times> (u64 \<times> u64) option \<Rightarrow> u64 \<times> (u64 \<times> u64) option"
where
  "count_regions topmost left right [] acc = acc"
| "count_regions topmost left right (region # rs) (n, hull) =
     (if region = topmost \<or> Some region = left \<or> Some region = right
      then count_regions topmost left right rs (n, hull)
      else count_regions topmost left right rs
             (n + 1, Some (case hull of None \<Rightarrow> (region, region) | Some (lo, _) \<Rightarrow> (lo, region))))"

text \<open>The loop over the pieces, at one level.\<close>

fun tables_pieces ::
  "u64 \<Rightarrow> u64 \<Rightarrow> u64 option \<Rightarrow> u64 option \<Rightarrow> (u64 \<times> u64) list \<Rightarrow> u64 option \<Rightarrow>
   u64 \<times> (u64 \<times> u64) option \<Rightarrow> u64 \<times> (u64 \<times> u64) option"
where
  "tables_pieces sz topmost left right [] last_counted acc = acc"
| "tables_pieces sz topmost left right ((s, e) # pieces) last_counted acc =
     (if e \<le> s then tables_pieces sz topmost left right pieces last_counted acc
      else
        let (first, lst) = regions s e sz;
            from = (case last_counted of
                      Some done \<Rightarrow> (if done \<ge> first then done + 1 else first)
                    | None \<Rightarrow> first)
        in tables_pieces sz topmost left right pieces
             (Some (case last_counted of None \<Rightarrow> lst | Some done \<Rightarrow> max done lst))
             (count_regions topmost left right [from..<Suc lst] acc))"

text \<open>The loop over the levels of \<open>charge::TABLE_REGIONS\<close>.\<close>

fun tables_levels ::
  "(u64 \<times> u64) list \<Rightarrow> u64 option \<Rightarrow> u64 option \<Rightarrow> u64 \<Rightarrow> u64 list \<Rightarrow> Tables \<Rightarrow> Tables"
where
  "tables_levels pieces before after tp [] out = out"
| "tables_levels pieces before after tp (sz # szs) out =
     (let topmost = (tp - 1) div sz;
          left = (case before of Some e \<Rightarrow> (if e > 0 then Some ((e - 1) div sz) else None)
                               | None \<Rightarrow> None);
          right = map_option (\<lambda>s. s div sz) after;
          (n, hull) = tables_pieces sz topmost left right pieces None (t_pages out, None)
      in tables_levels pieces before after tp szs
           \<lparr>t_pages = n,
            t_reclaim = t_reclaim out @
              [map_option (\<lambda>(lo, hi). (wmul lo sz, wmul (hi + 1) sz)) hull]\<rparr>)"

definition tables :: "(u64 \<times> u64) list \<Rightarrow> u64 option \<Rightarrow> u64 option \<Rightarrow> u64 \<Rightarrow> Tables" where
  "tables pieces before after tp =
     tables_levels pieces before after tp charge_TABLE_REGIONS \<lparr>t_pages = 0, t_reclaim = []\<rparr>"

subsection \<open>Derived szs\<close>

definition machine_limit :: "u64 \<Rightarrow> u64" where
  "machine_limit free =
     (let fraction = free div 32;
          reserve = (if fraction > 32 * 2 ^ 20 then fraction else 32 * 2 ^ 20)
      in page_floor (free - reserve))"

definition split_needed :: "u64 \<Rightarrow> u64 \<Rightarrow> u64 \<Rightarrow> bool" where
  "split_needed s e at \<longleftrightarrow> s < at \<and> at < e"

definition table_steps :: "usize \<Rightarrow> u64" where
  "table_steps slots = div_ceil slots charge_HANDLE_SLOTS"

subsection \<open>Specification of the page tables\<close>

text \<open>The regions of a level that a set of ranges touches.\<close>

definition touched :: "u64 \<Rightarrow> (u64 \<times> u64) set \<Rightarrow> u64 set" where
  "touched sz A = (\<Union>(s, e) \<in> A. {s div sz .. (e - 1) div sz})"

text \<open>
  Every region at every level any range touches, but the topmost: what a space must have table
  pages for besides its fixed four.
\<close>

definition table_count :: "u64 \<Rightarrow> (u64 \<times> u64) set \<Rightarrow> nat" where
  "table_count tp A =
     (\<Sum>sz \<leftarrow> charge_TABLE_REGIONS. card (touched sz A - {(tp - 1) div sz}))"

subsection \<open>Contract of a budget\<close>

text \<open>
  What a client of an account relies on: a charge is granted exactly when it fits and then moves
  the bytes from the room to what is used; a refused one changes nothing; giving bytes back undoes it.
\<close>

locale budget =
  fixes inv :: "'l \<Rightarrow> bool"
    and roomof usedof :: "'l \<Rightarrow> nat"
    and chg :: "'l \<Rightarrow> nat \<Rightarrow> ('e + unit) \<times> 'l"
    and unchg :: "'l \<Rightarrow> nat \<Rightarrow> ('f + unit) \<times> 'l"
  assumes chg_granted: "inv l \<Longrightarrow> n \<le> roomof l \<Longrightarrow>
      fst (chg l n) = Inr () \<and> inv (snd (chg l n)) \<and>
      usedof (snd (chg l n)) = usedof l + n \<and> roomof (snd (chg l n)) = roomof l - n"
    and chg_refused: "inv l \<Longrightarrow> roomof l < n \<Longrightarrow> snd (chg l n) = l \<and> fst (chg l n) \<noteq> Inr ()"
    and unchg_granted: "inv l \<Longrightarrow> n \<le> usedof l \<Longrightarrow>
      fst (unchg l n) = Inr () \<and> inv (snd (unchg l n)) \<and>
      usedof (snd (unchg l n)) = usedof l - n \<and> roomof (snd (unchg l n)) = roomof l + n"
begin

lemma chg_iff: "inv l \<Longrightarrow> fst (chg l n) = Inr () \<longleftrightarrow> n \<le> roomof l"
  using chg_granted [of l n] chg_refused [of l n] by (cases "n \<le> roomof l") auto

lemma chg_inv: "inv l \<Longrightarrow> inv (snd (chg l n))"
  using chg_granted [of l n] chg_refused [of l n] by (cases "n \<le> roomof l") auto

lemma chg_unchg:
  assumes "inv l" "fst (chg l n) = Inr ()" "m \<le> n"
  shows "fst (unchg (snd (chg l n)) m) = Inr ()"
    "usedof (snd (unchg (snd (chg l n)) m)) = usedof l + (n - m)"
    "roomof (snd (unchg (snd (chg l n)) m)) = roomof l - (n - m)"
    "inv (snd (unchg (snd (chg l n)) m))"
  using assms chg_iff [of l n] chg_granted [of l n] unchg_granted [of "snd (chg l n)" m] by auto

end

lemma Ledger_fits_iff: "Ledger_inv l \<Longrightarrow> Ledger_fits l n \<longleftrightarrow> n \<le> room l"
  by (auto simp: Ledger_fits_def Ledger_inv_def room_def checked_add_def)

lemma Ledger_no_wrap:
  "Ledger_inv l \<Longrightarrow> n \<le> room l \<Longrightarrow> used l + n < U64 \<and> reserved l + n < U64"
  by (auto simp: Ledger_inv_def room_def)

lemma Ledger_charge_granted [ledger_simps]:
  "Ledger_inv l \<Longrightarrow> n \<le> room l \<Longrightarrow>
     Ledger_charge l n = (Inr (), l\<lparr>used := used l + n, peak := max (peak l) (used l + n)\<rparr>)"
  by (simp add: Ledger_charge_def Ledger_fits_iff Let_def Ledger_no_wrap)

lemma Ledger_charge_refused [ledger_simps]:
  "Ledger_inv l \<Longrightarrow> room l < n \<Longrightarrow> Ledger_charge l n = (Inl \<lparr>asked = n, usage = l\<rparr>, l)"
  by (simp add: Ledger_charge_def Ledger_fits_iff)

lemma Ledger_uncharge_granted [ledger_simps]:
  "n \<le> used l \<Longrightarrow> Ledger_uncharge l n = (Inr (), l\<lparr>used := used l - n\<rparr>)"
  by (simp add: Ledger_uncharge_def checked_sub_def)

lemma Ledger_uncharge_refused [ledger_simps]:
  "used l < n \<Longrightarrow> Ledger_uncharge l n = (Inl \<lparr>returned = n, held = used l\<rparr>, l)"
  by (simp add: Ledger_uncharge_def checked_sub_def)

lemma Ledger_reserve_granted [ledger_simps]:
  "Ledger_inv l \<Longrightarrow> n \<le> room l \<Longrightarrow> Ledger_reserve l n = (Inr (), l\<lparr>reserved := reserved l + n\<rparr>)"
  by (simp add: Ledger_reserve_def Ledger_fits_iff Ledger_no_wrap)

lemma Ledger_reserve_refused [ledger_simps]:
  "Ledger_inv l \<Longrightarrow> room l < n \<Longrightarrow> Ledger_reserve l n = (Inl \<lparr>asked = n, usage = l\<rparr>, l)"
  by (simp add: Ledger_reserve_def Ledger_fits_iff)

lemma Ledger_unreserve_granted [ledger_simps]:
  "n \<le> reserved l \<Longrightarrow> Ledger_unreserve l n = (Inr (), l\<lparr>reserved := reserved l - n\<rparr>)"
  by (simp add: Ledger_unreserve_def checked_sub_def)

lemma Ledger_unreserve_refused [ledger_simps]:
  "reserved l < n \<Longrightarrow> Ledger_unreserve l n = (Inl \<lparr>returned = n, held = reserved l\<rparr>, l)"
  by (simp add: Ledger_unreserve_def checked_sub_def)

interpretation ldg: budget Ledger_inv room used Ledger_charge Ledger_uncharge
  by unfold_locales (auto simp: ledger_simps, auto simp: Ledger_inv_def room_def)

text \<open>Holding a child's limit is the same contract, on the reserved figure.\<close>

interpretation rsv: budget Ledger_inv room reserved Ledger_reserve Ledger_unreserve
  by unfold_locales (auto simp: ledger_simps, auto simp: Ledger_inv_def room_def)

lemma Ledger_new_inv: "lim < U64 \<Longrightarrow> Ledger_inv (Ledger_new lim)"
  by (simp add: Ledger_inv_def Ledger_new_def)

text \<open>A caller's operations on one ledger, refused ones included.\<close>

datatype ledger_op = OpCharge u64 | OpUncharge u64 | OpReserve u64 | OpUnreserve u64

fun ledger_apply :: "Ledger \<Rightarrow> ledger_op \<Rightarrow> Ledger" where
  "ledger_apply l (OpCharge n) = snd (Ledger_charge l n)"
| "ledger_apply l (OpUncharge n) = snd (Ledger_uncharge l n)"
| "ledger_apply l (OpReserve n) = snd (Ledger_reserve l n)"
| "ledger_apply l (OpUnreserve n) = snd (Ledger_unreserve l n)"

lemma unreserve_uncharge_inv:
  "Ledger_inv l \<Longrightarrow> Ledger_inv (snd (Ledger_uncharge l n))"
  "Ledger_inv l \<Longrightarrow> Ledger_inv (snd (Ledger_unreserve l n))"
  by (auto simp: Ledger_uncharge_def Ledger_unreserve_def Ledger_inv_def split: option.splits)

lemma ledger_apply_inv: "Ledger_inv l \<Longrightarrow> Ledger_inv (ledger_apply l op)"
  by (cases op) (simp_all add: ldg.chg_inv rsv.chg_inv unreserve_uncharge_inv)

lemma ledger_apply_limit: "limit (ledger_apply l op) = limit l"
  by (cases op)
    (auto simp: Ledger_charge_def Ledger_uncharge_def Ledger_reserve_def Ledger_unreserve_def Let_def
      split: option.splits)

lemma ledger_apply_peak: "peak l \<le> peak (ledger_apply l op)"
  by (cases op)
    (auto simp: Ledger_charge_def Ledger_uncharge_def Ledger_reserve_def Ledger_unreserve_def Let_def
      split: option.splits)

lemma ledger_run_inv: "Ledger_inv l \<Longrightarrow> Ledger_inv (foldl ledger_apply l ops)"
  by (induction ops arbitrary: l) (simp_all add: ledger_apply_inv)

lemma ledger_run_limit: "limit (foldl ledger_apply l ops) = limit l"
  by (induction ops arbitrary: l) (simp_all add: ledger_apply_limit)

lemma ledger_run_peak_mono: "peak l \<le> peak (foldl ledger_apply l ops)"
  by (induction ops arbitrary: l) (auto intro: order_trans ledger_apply_peak)

lemma ledger_run_peak:
  "Ledger_inv l \<Longrightarrow> used (foldl ledger_apply l (take n ops)) \<le> peak (foldl ledger_apply l ops)"
proof (induction ops arbitrary: l n)
  case Nil then show ?case by (simp add: Ledger_inv_def)
next
  case (Cons op ops)
  show ?case
  proof (cases n)
    case 0
    have "used l \<le> peak l" using Cons.prems by (simp add: Ledger_inv_def)
    then show ?thesis using 0 ledger_run_peak_mono [of l "op # ops"] by simp
  next
    case (Suc m)
    then show ?thesis using Cons ledger_apply_inv by auto
  qed
qed

text \<open>
  C17. Whatever charges, reservations and returns are asked of an account made with a limit, in any
  order and with any amounts, what is charged to it and what it holds for its children together
  never pass that limit; its limit never changes; and its peak is at least what was charged to it at
  any moment, and never above the limit.
\<close>

theorem ledger_never_exceeds:
  assumes "lim < U64"
  shows "used (foldl ledger_apply (Ledger_new lim) ops) +
      reserved (foldl ledger_apply (Ledger_new lim) ops) \<le> lim \<and>
    limit (foldl ledger_apply (Ledger_new lim) ops) = lim \<and>
    peak (foldl ledger_apply (Ledger_new lim) ops) \<le> lim \<and>
    used (foldl ledger_apply (Ledger_new lim) (take n ops)) \<le>
      peak (foldl ledger_apply (Ledger_new lim) ops)"
  using ledger_run_inv [OF Ledger_new_inv [OF assms], of ops]
    ledger_run_limit [of "Ledger_new lim" ops]
    ledger_run_peak [OF Ledger_new_inv [OF assms], of n ops]
  by (simp add: Ledger_inv_def) (simp add: Ledger_new_def)

theorem ledger_never_exceeds_witness:
  "used (foldl ledger_apply (Ledger_new 100) [OpCharge 60, OpReserve 30, OpCharge 20, OpUncharge 50])
     = 10 \<and>
   used (foldl ledger_apply (Ledger_new 100) [OpCharge 60]) \<le>
     peak (foldl ledger_apply (Ledger_new 100) [OpCharge 60, OpReserve 30, OpCharge 20, OpUncharge 50])"
  using ledger_never_exceeds [of 100 "[OpCharge 60, OpReserve 30, OpCharge 20, OpUncharge 50]" 1]
  by (simp add: U64_def Ledger_new_def Ledger_charge_def Ledger_reserve_def Ledger_uncharge_def
      Ledger_fits_def checked_add_def checked_sub_def wadd_def Let_def)

subsection \<open>What \<open>tables\<close> counts\<close>

text \<open>The regions one level counts, in the order the loops meet them.\<close>

fun counted :: "u64 \<Rightarrow> u64 set \<Rightarrow> (u64 \<times> u64) list \<Rightarrow> u64 option \<Rightarrow> u64 list" where
  "counted sz X [] done = []"
| "counted sz X ((s, e) # pieces) done =
     (if e \<le> s then counted sz X pieces done
      else
        filter (\<lambda>r. r \<notin> X)
          [(case done of Some d \<Rightarrow> (if d \<ge> s div sz then d + 1 else s div sz) | None \<Rightarrow> s div sz)
           ..< Suc ((e - 1) div sz)] @
        counted sz X pieces
          (Some (case done of None \<Rightarrow> (e - 1) div sz | Some d \<Rightarrow> max d ((e - 1) div sz))))"

definition hull_of :: "(u64 \<times> u64) option \<Rightarrow> u64 list \<Rightarrow> (u64 \<times> u64) option" where
  "hull_of h cs =
     (if cs = [] then h else Some (case h of None \<Rightarrow> hd cs | Some (lo, _) \<Rightarrow> lo, last cs))"

definition skipped :: "u64 \<Rightarrow> u64 option \<Rightarrow> u64 option \<Rightarrow> u64 set" where
  "skipped topmost left right = {topmost} \<union> set_option left \<union> set_option right"

lemma count_regions_eq:
  "count_regions topmost left right rs (n, h) =
     (let cs = filter (\<lambda>r. r \<notin> skipped topmost left right) rs in (n + length cs, hull_of h cs))"
proof (induction rs arbitrary: n h)
  case (Cons r rs)
  have "r \<in> skipped topmost left right \<longleftrightarrow> r = topmost \<or> Some r = left \<or> Some r = right"
    by (cases left; cases right) (auto simp: skipped_def)
  then show ?case
    using Cons by (auto simp: Let_def hull_of_def split: option.splits)
qed (simp add: hull_of_def)

lemma hull_of_append: "hull_of (hull_of h cs) ds = hull_of h (cs @ ds)"
  by (auto simp: hull_of_def split: option.splits)

lemma tables_pieces_eq:
  "tables_pieces sz topmost left right pieces dn (n, h) =
     (let cs = counted sz (skipped topmost left right) pieces dn
      in (n + length cs, hull_of h cs))"
proof (induction pieces arbitrary: dn n h)
  case (Cons p pieces)
  then show ?case
    by (cases p; cases dn)
      (auto simp: regions_def count_regions_eq hull_of_append Let_def add.assoc simp del: upt_Suc)
qed (simp add: hull_of_def)

text \<open>Pieces in address order, none empty.\<close>

definition in_order :: "(u64 \<times> u64) list \<Rightarrow> bool" where
  "in_order pieces \<longleftrightarrow>
     sorted_wrt (\<lambda>p q. snd p \<le> fst q) pieces \<and> (\<forall>(s, e) \<in> set pieces. s < e)"

lemma in_order_Cons:
  "in_order ((s, e) # pieces) \<longleftrightarrow> s < e \<and> (\<forall>(s', e') \<in> set pieces. e \<le> s') \<and> in_order pieces"
  by (auto simp: in_order_def)

lemma div_pred_mono: "s < e \<Longrightarrow> e \<le> s' \<Longrightarrow> (e - 1) div sz \<le> s' div sz" for s e s' sz :: nat
  by (intro div_le_mono) simp

lemma touched_Cons:
  "touched sz (set ((s, e) # pieces)) = {s div sz .. (e - 1) div sz} \<union> touched sz (set pieces)"
  by (simp add: touched_def)

lemma touched_lower:
  assumes "\<forall>(s, e) \<in> A. l \<le> s" "r \<in> touched sz A"
  shows "l div sz \<le> r"
  using assms by (force simp: touched_def intro: order_trans [OF div_le_mono])

lemma counted_order:
  assumes "in_order pieces" "\<forall>d. dn = Some d \<longrightarrow> (\<forall>(s, e) \<in> set pieces. d \<le> s div sz)"
  shows "set (counted sz X pieces dn) =
      {r \<in> touched sz (set pieces) - X. \<forall>d. dn = Some d \<longrightarrow> d < r} \<and>
    sorted_wrt (<) (counted sz X pieces dn)"
  using assms
proof (induction pieces arbitrary: dn)
  case Nil then show ?case by (simp add: touched_def)
next
  case (Cons p pieces)
  obtain s e where p: "p = (s, e)" by force
  define a b where "a = s div sz" and "b = (e - 1) div sz"
  define lo where "lo = (if dn = Some a then a + 1 else a)"
  have se: "s < e" "in_order pieces" and above: "\<forall>(s', e') \<in> set pieces. e \<le> s'"
    using Cons.prems p by (auto simp: in_order_Cons)
  have ab: "a \<le> b" using se by (auto simp: a_def b_def intro: div_le_mono)
  have d: "d \<le> a" if "dn = Some d" for d using Cons.prems(2) p that by (auto simp: a_def)
  have above_b: "\<forall>(s', e') \<in> set pieces. b \<le> s' div sz"
    using above se(1) div_pred_mono by (fastforce simp: b_def)
  let ?rest = "counted sz X pieces (Some b)"
  have eq: "counted sz X (p # pieces) dn = filter (\<lambda>r. r \<notin> X) [lo..<Suc b] @ ?rest"
    using se(1) d ab p
    by (cases dn) (auto simp: a_def b_def lo_def max_def simp del: upt_Suc dest: le_antisym)
  have rest: "set ?rest = {r \<in> touched sz (set pieces) - X. b < r}" "sorted_wrt (<) ?rest"
    using Cons.IH [of "Some b"] se(2) above_b by auto
  have t: "touched sz (set (p # pieces)) = {a..b} \<union> touched sz (set pieces)"
    using p touched_Cons by (simp only: a_def b_def)
  have "b \<le> r" if "r \<in> touched sz (set pieces)" for r
    using that above_b by (fastforce simp: touched_def)
  then have "set (counted sz X (p # pieces) dn) =
      {r \<in> touched sz (set (p # pieces)) - X. \<forall>d. dn = Some d \<longrightarrow> d < r}"
    unfolding eq t using rest(1) d ab by (cases dn) (force simp: lo_def)+
  moreover have "sorted_wrt (<) (counted sz X (p # pieces) dn)"
    unfolding eq using rest
    by (auto simp: sorted_wrt_append sorted_wrt_filter sorted_wrt_upt simp del: upt_Suc)
  ultimately show ?case by blast
qed

lemma length_sorted_less: "sorted_wrt (<) cs \<Longrightarrow> length cs = card (set cs)" for cs :: "nat list"
  by (simp add: distinct_card strict_sorted_iff)

lemma tables_pieces_count:
  assumes "in_order pieces"
  shows "fst (tables_pieces sz topmost left right pieces None (n, None)) =
    n + card (touched sz (set pieces) - skipped topmost left right)"
  using counted_order [OF assms, of None sz "skipped topmost left right"]
  by (simp add: tables_pieces_eq Let_def length_sorted_less set_diff_eq)

lemma hull_of_sorted:
  assumes "sorted_wrt (<) cs" "hull_of None cs = Some (lo, hi)"
  shows "lo \<in> set cs" "hi \<in> set cs" "\<forall>r \<in> set cs. lo \<le> r \<and> r \<le> hi"
proof -
  have "cs \<noteq> []" "lo = hd cs" "hi = last cs" using assms(2) by (auto simp: hull_of_def split: if_splits)
  then show "lo \<in> set cs" "hi \<in> set cs" by auto
  show "\<forall>r \<in> set cs. lo \<le> r \<and> r \<le> hi"
    using assms(1) \<open>lo = hd cs\<close> \<open>hi = last cs\<close>
    by (induction cs arbitrary: lo) (auto, (metis last_in_set less_imp_le)+)
qed

text \<open>
  The neighbours of a change: \<open>before\<close> is the end of the nearest kept range below the pieces and
  \<open>after\<close> the start of the nearest one above them; no kept range lies between.
\<close>

definition neighboured ::
  "(u64 \<times> u64) set \<Rightarrow> u64 option \<Rightarrow> u64 option \<Rightarrow> (u64 \<times> u64) list \<Rightarrow> bool"
where
  "neighboured K before after pieces \<longleftrightarrow>
     (\<forall>(s, e) \<in> K. s < e \<and> ((\<exists>b. before = Some b \<and> e \<le> b) \<or> (\<exists>a. after = Some a \<and> a \<le> s))) \<and>
     (\<forall>b. before = Some b \<longrightarrow> (\<exists>s. (s, b) \<in> K) \<and> (\<forall>(s, e) \<in> set pieces. b \<le> s)) \<and>
     (\<forall>a. after = Some a \<longrightarrow> (\<exists>e. (a, e) \<in> K) \<and> (\<forall>(s, e) \<in> set pieces. e \<le> a))"

definition left_of :: "u64 \<Rightarrow> u64 option \<Rightarrow> u64 option" where
  "left_of sz before =
     (case before of Some e \<Rightarrow> (if e > 0 then Some ((e - 1) div sz) else None) | None \<Rightarrow> None)"

definition right_of :: "u64 \<Rightarrow> u64 option \<Rightarrow> u64 option" where
  "right_of sz after = map_option (\<lambda>s. s div sz) after"

lemma touchedI: "(s, e) \<in> A \<Longrightarrow> s div sz \<le> r \<Longrightarrow> r \<le> (e - 1) div sz \<Longrightarrow> r \<in> touched sz A"
  by (force simp: touched_def)

lemma touchedE:
  assumes "r \<in> touched sz A"
  obtains s e where "(s, e) \<in> A" "s div sz \<le> r" "r \<le> (e - 1) div sz"
  using assms by (auto simp: touched_def)

lemma left_touched:
  assumes "neighboured K before after pieces" "left_of sz before = Some r"
  shows "r \<in> touched sz K"
proof -
  obtain b where b: "before = Some b" "r = (b - 1) div sz"
    using assms(2) by (auto simp: left_of_def split: option.splits if_splits)
  then obtain s where s: "(s, b) \<in> K" "s < b" using assms(1) by (fastforce simp: neighboured_def)
  have "s div sz \<le> (b - 1) div sz" using s(2) by (intro div_le_mono) simp
  then show ?thesis using s(1) b(2) by (intro touchedI) auto
qed

lemma right_touched:
  assumes "neighboured K before after pieces" "right_of sz after = Some r"
  shows "r \<in> touched sz K"
proof -
  obtain a where a: "after = Some a" "r = a div sz" using assms(2) by (auto simp: right_of_def)
  then obtain e where e: "(a, e) \<in> K" "a < e" using assms(1) by (fastforce simp: neighboured_def)
  have "a div sz \<le> (e - 1) div sz" using e(2) by (intro div_le_mono) simp
  then show ?thesis using e(1) a(2) by (intro touchedI) auto
qed

text \<open>A region a piece touches lies at or between the neighbours' regions.\<close>

lemma piece_region_bounds:
  assumes "neighboured K before after pieces" "in_order pieces" "r \<in> touched sz (set pieces)"
  shows "\<And>b. before = Some b \<Longrightarrow> (b - 1) div sz \<le> r" "\<And>a. after = Some a \<Longrightarrow> r \<le> a div sz"
proof -
  obtain s e where p: "(s, e) \<in> set pieces" "s div sz \<le> r" "r \<le> (e - 1) div sz"
    using assms(3) by (rule touchedE)
  show "(b - 1) div sz \<le> r" if "before = Some b" for b
  proof -
    have "b \<le> s" using assms(1) that p(1) by (auto simp: neighboured_def)
    then have "(b - 1) div sz \<le> s div sz" by (intro div_le_mono) simp
    then show ?thesis using p(2) by simp
  qed
  show "r \<le> a div sz" if "after = Some a" for a
  proof -
    have "e \<le> a" using assms(1) that p(1) by (auto simp: neighboured_def)
    then have "(e - 1) div sz \<le> a div sz" by (intro div_le_mono) simp
    then show ?thesis using p(3) by simp
  qed
qed

lemma touched_between:
  assumes n: "neighboured K before after pieces" and o: "in_order pieces"
    and r: "r \<in> touched sz (set pieces)" "r \<in> touched sz K"
  shows "left_of sz before = Some r \<or> right_of sz after = Some r"
proof -
  obtain s e where k: "(s, e) \<in> K" "s div sz \<le> r" "r \<le> (e - 1) div sz"
    using r(2) by (rule touchedE)
  then consider b where "before = Some b" "e \<le> b" "s < e" | a where "after = Some a" "a \<le> s"
    using n by (fastforce simp: neighboured_def)
  then show ?thesis
  proof cases
    case 1
    have "(e - 1) div sz \<le> (b - 1) div sz" using 1 by (intro div_le_mono) simp
    then show ?thesis
      using piece_region_bounds(1) [OF n o r(1) 1(1)] 1 k by (auto simp: left_of_def)
  next
    case 2
    have "a div sz \<le> s div sz" using 2 by (intro div_le_mono)
    then show ?thesis
      using piece_region_bounds(2) [OF n o r(1) 2(1)] 2 k by (auto simp: right_of_def)
  qed
qed

lemma finite_touched: "finite A \<Longrightarrow> finite (touched sz A)"
  by (auto simp: touched_def)

lemma touched_Un: "touched sz (A \<union> B) = touched sz A \<union> touched sz B"
  by (auto simp: touched_def)

lemma touched_count_split:
  assumes "neighboured K before after pieces" "in_order pieces" "finite K"
  shows "card (touched sz (K \<union> set pieces) - {t}) =
    card (touched sz K - {t}) +
    card (touched sz (set pieces) - skipped t (left_of sz before) (right_of sz after))"
proof -
  let ?new = "touched sz (set pieces) - skipped t (left_of sz before) (right_of sz after)"
  have "touched sz (K \<union> set pieces) - {t} = (touched sz K - {t}) \<union> ?new"
    using left_touched [OF assms(1)] right_touched [OF assms(1)]
    by (auto simp: touched_Un skipped_def)
  moreover have "(touched sz K - {t}) \<inter> ?new = {}"
    using touched_between [OF assms(1,2)] by (fastforce simp: skipped_def)
  ultimately show ?thesis
    using assms(3) by (simp add: card_Un_disjoint finite_touched)
qed

text \<open>One level of \<open>tables\<close>: what it adds to the count, and its range to reclaim.\<close>

definition level_pages :: "(u64 \<times> u64) list \<Rightarrow> u64 option \<Rightarrow> u64 option \<Rightarrow> u64 \<Rightarrow> u64 \<Rightarrow> nat" where
  "level_pages pieces before after tp sz =
     card (touched sz (set pieces) -
       skipped ((tp - 1) div sz) (left_of sz before) (right_of sz after))"

definition level_hull ::
  "(u64 \<times> u64) list \<Rightarrow> u64 option \<Rightarrow> u64 option \<Rightarrow> u64 \<Rightarrow> u64 \<Rightarrow> (u64 \<times> u64) option"
where
  "level_hull pieces before after tp sz =
     hull_of None (counted sz (skipped ((tp - 1) div sz) (left_of sz before) (right_of sz after))
       pieces None)"

lemma tables_levels_pages:
  assumes "in_order pieces"
  shows "t_pages (tables_levels pieces before after tp szs out) =
    t_pages out + (\<Sum>sz \<leftarrow> szs. level_pages pieces before after tp sz)"
proof (induction szs arbitrary: out)
  case (Cons sz szs)
  have "fst (tables_pieces sz ((tp - 1) div sz) (left_of sz before) (right_of sz after) pieces None
      (t_pages out, None)) = t_pages out + level_pages pieces before after tp sz"
    by (simp only: tables_pieces_count [OF assms] level_pages_def)
  then show ?case
    using Cons by (simp add: Let_def case_prod_unfold flip: left_of_def right_of_def)
qed simp

lemma tables_levels_reclaim:
  "t_reclaim (tables_levels pieces before after tp szs out) =
    t_reclaim out @ map (\<lambda>sz. map_option (\<lambda>(lo, hi). (wmul lo sz, wmul (hi + 1) sz))
      (level_hull pieces before after tp sz)) szs"
proof (induction szs arbitrary: out)
  case (Cons sz szs)
  have "snd (tables_pieces sz ((tp - 1) div sz) (left_of sz before) (right_of sz after) pieces None
      (n, None)) = level_hull pieces before after tp sz" for n
    by (simp add: tables_pieces_eq Let_def level_hull_def)
  then show ?case
    using Cons by (simp add: Let_def case_prod_unfold flip: left_of_def right_of_def)
qed simp

lemma tables_count:
  assumes "neighboured K before after pieces" "in_order pieces" "finite K"
  shows "table_count tp (K \<union> set pieces) = table_count tp K + t_pages (tables pieces before after tp)"
  unfolding tables_def tables_levels_pages [OF assms(2)] table_count_def level_pages_def
    touched_count_split [OF assms] sum_list_addf by simp

lemma level_hull_Some:
  assumes "in_order pieces" "level_hull pieces before after tp sz = Some (lo, hi)"
  defines "new \<equiv> touched sz (set pieces) -
      skipped ((tp - 1) div sz) (left_of sz before) (right_of sz after)"
  shows "lo \<in> new" "hi \<in> new" "\<forall>r \<in> new. lo \<le> r \<and> r \<le> hi"
  using hull_of_sorted [OF _ assms(2) [unfolded level_hull_def]]
    counted_order [OF assms(1), of None sz "skipped ((tp - 1) div sz) (left_of sz before) (right_of sz after)"]
  by (simp_all add: new_def)

text \<open>The regions from the first freed one to the last are strictly between the neighbours'.\<close>

lemma level_hull_clear:
  assumes n: "neighboured K before after pieces" and o: "in_order pieces" and sz: "0 < sz"
    and h: "level_hull pieces before after tp sz = Some (lo, hi)" and k: "(s, e) \<in> K"
  shows "e \<le> lo * sz \<or> (hi + 1) * sz \<le> s"
proof -
  note lh = level_hull_Some [OF o h]
  from n k have "s < e" by (auto simp: neighboured_def)
  from n k consider b where "before = Some b" "e \<le> b" | a where "after = Some a" "a \<le> s"
    by (fastforce simp: neighboured_def)
  then show ?thesis
  proof cases
    case 1
    then have "(b - 1) div sz \<le> lo" "(b - 1) div sz \<noteq> lo" "0 < b"
      using piece_region_bounds(1) [OF n o, of lo sz b] lh(1) \<open>s < e\<close>
      by (auto simp: skipped_def left_of_def)
    then have "(b - 1) div sz < lo" by simp
    then have "b - 1 < lo * sz" using sz by (simp add: div_less_iff_less_mult)
    then have "b \<le> lo * sz" by linarith
    then show ?thesis using 1 by simp
  next
    case 2
    then have "hi \<le> a div sz" "a div sz \<noteq> hi"
      using piece_region_bounds(2) [OF n o, of hi sz a] lh(2) by (auto simp: skipped_def right_of_def)
    then have "hi + 1 \<le> a div sz" by simp
    then have "(hi + 1) * sz \<le> a" using sz by (simp add: less_eq_div_iff_mult_less_eq)
    then show ?thesis using 2 by simp
  qed
qed

lemma level_hull_top:
  assumes o: "in_order pieces" and sz: "0 < sz" and e: "\<forall>(s, e) \<in> set pieces. e \<le> tp"
    and h: "level_hull pieces before after tp sz = Some (lo, hi)"
  shows "lo \<le> hi" "(hi + 1) * sz \<le> tp - 1"
proof -
  note lh = level_hull_Some [OF o h]
  show "lo \<le> hi" using lh by blast
  obtain s' e' where p: "(s', e') \<in> set pieces" "hi \<le> (e' - 1) div sz"
    using lh(2) by (auto elim: touchedE)
  have "(e' - 1) div sz \<le> (tp - 1) div sz" using p e by (intro div_le_mono) auto
  moreover have "hi \<noteq> (tp - 1) div sz" using lh(2) by (simp add: skipped_def)
  ultimately have "hi + 1 \<le> (tp - 1) div sz" using p by simp
  then show "(hi + 1) * sz \<le> tp - 1" using sz by (simp add: less_eq_div_iff_mult_less_eq)
qed

lemma table_region_pos: "sz \<in> set charge_TABLE_REGIONS \<Longrightarrow> 0 < sz"
  by (auto simp: charge_TABLE_REGIONS_def)

lemma tables_reclaim_nth:
  assumes "in_order pieces" "\<forall>(s, e) \<in> set pieces. e \<le> tp" "tp < U64" "i < 3"
    and "t_reclaim (tables pieces before after tp) ! i = Some (x, y)"
  obtains lo hi where
    "level_hull pieces before after tp (charge_TABLE_REGIONS ! i) = Some (lo, hi)"
    "x = lo * charge_TABLE_REGIONS ! i" "y = (hi + 1) * charge_TABLE_REGIONS ! i"
    "x < y" "y \<le> tp - 1"
proof -
  let ?sz = "charge_TABLE_REGIONS ! i"
  have len: "length charge_TABLE_REGIONS = 3" by (simp add: charge_TABLE_REGIONS_def)
  then have pos: "0 < ?sz" using assms(4) by (intro table_region_pos) simp
  obtain lo hi where h: "level_hull pieces before after tp ?sz = Some (lo, hi)"
      "x = wmul lo ?sz" "y = wmul (hi + 1) ?sz"
    using assms(4,5) len by (auto simp: tables_def tables_levels_reclaim)
  have b: "lo \<le> hi" "(hi + 1) * ?sz \<le> tp - 1"
    by (rule level_hull_top [OF assms(1) pos assms(2) h(1)])+
  have "lo * ?sz < (hi + 1) * ?sz" using b(1) pos by (intro mult_strict_right_mono) auto
  moreover have "(hi + 1) * ?sz < U64" using b(2) assms(3) by simp
  ultimately have "x = lo * ?sz" "y = (hi + 1) * ?sz" "x < y" using h(2,3) by auto
  then show ?thesis using that h(1) b(2) by simp
qed

lemma tables_reclaim_clear:
  assumes "neighboured K before after pieces" "in_order pieces"
    and "\<forall>(s, e) \<in> set pieces. e \<le> tp" "tp < U64"
    and r: "Some (x, y) \<in> set (t_reclaim (tables pieces before after tp))"
  shows "x < y \<and> y \<le> tp - 1 \<and> (\<forall>(s, e) \<in> K. e \<le> x \<or> y \<le> s)"
proof -
  have "length (t_reclaim (tables pieces before after tp)) = 3"
    by (simp add: tables_def tables_levels_reclaim) (simp add: charge_TABLE_REGIONS_def)
  then obtain i where i: "i < 3" "t_reclaim (tables pieces before after tp) ! i = Some (x, y)"
    using r by (metis in_set_conv_nth)
  obtain lo hi where h: "level_hull pieces before after tp (charge_TABLE_REGIONS ! i) = Some (lo, hi)"
      "x = lo * charge_TABLE_REGIONS ! i" "y = (hi + 1) * charge_TABLE_REGIONS ! i" "x < y" "y \<le> tp - 1"
    using tables_reclaim_nth [OF assms(2,3,4) i] by blast
  have "0 < charge_TABLE_REGIONS ! i"
    using i nth_mem [of i charge_TABLE_REGIONS]
    by (intro table_region_pos) (simp add: charge_TABLE_REGIONS_def del: nth_mem)
  then show ?thesis using level_hull_clear [OF assms(1,2) _ h(1)] h by blast
qed

text \<open>
  C16. What \<open>tables\<close> counts incrementally is exact: for pieces in address order lying between the
  neighbours \<open>before\<close> and \<open>after\<close> of the kept ranges, the regions that kept ranges and pieces touch
  together (at the three levels, the topmost left out) are those the kept ranges touch plus the pages
  it reports. A range it names for reclaiming lies below the end of user space, no kept range
  overlaps it, and it covers every region of its level that the pieces touched and no kept range
  touches, but the topmost.
\<close>

theorem tables_exact:
  assumes "neighboured K before after pieces" "in_order pieces" "finite K"
    and "\<forall>(s, e) \<in> set pieces. e \<le> tp" "tp < U64"
  shows "table_count tp (K \<union> set pieces) =
      table_count tp K + t_pages (tables pieces before after tp) \<and>
    (i < 3 \<and> t_reclaim (tables pieces before after tp) ! i = Some (x, y) \<longrightarrow>
      x < y \<and> y \<le> tp \<and> (\<forall>(s, e) \<in> K. e \<le> x \<or> y \<le> s) \<and>
      (let sz = charge_TABLE_REGIONS ! i in
        \<forall>r \<in> touched sz (set pieces) - touched sz K - {(tp - 1) div sz}.
          x \<le> r * sz \<and> (r + 1) * sz \<le> y))"
proof (rule conjI [OF tables_count [OF assms(1,2,3)]], rule impI, elim conjE)
  assume i: "i < 3" and r: "t_reclaim (tables pieces before after tp) ! i = Some (x, y)"
  let ?sz = "charge_TABLE_REGIONS ! i"
  obtain lo hi where h: "level_hull pieces before after tp ?sz = Some (lo, hi)"
      "x = lo * ?sz" "y = (hi + 1) * ?sz" and xy: "x < y" "y \<le> tp - 1"
    using tables_reclaim_nth [OF assms(2,4,5) i r] by blast
  have "0 < ?sz"
    using i nth_mem [of i charge_TABLE_REGIONS]
    by (intro table_region_pos) (simp add: charge_TABLE_REGIONS_def del: nth_mem)
  then have "\<forall>(s, e) \<in> K. e \<le> x \<or> y \<le> s"
    using level_hull_clear [OF assms(1,2) _ h(1)] h(2,3) by blast
  moreover have "x \<le> r * ?sz \<and> (r + 1) * ?sz \<le> y"
    if "r \<in> touched ?sz (set pieces) - touched ?sz K - {(tp - 1) div ?sz}" for r
  proof -
    have "r \<in> touched ?sz (set pieces) -
        skipped ((tp - 1) div ?sz) (left_of ?sz before) (right_of ?sz after)"
      using that left_touched [OF assms(1)] right_touched [OF assms(1)] by (auto simp: skipped_def)
    then have "lo \<le> r" "r \<le> hi" using level_hull_Some(3) [OF assms(2) h(1)] by blast+
    then show ?thesis using h(2,3) by (auto intro: mult_le_mono1)
  qed
  ultimately show "x < y \<and> y \<le> tp \<and> (\<forall>(s, e) \<in> K. e \<le> x \<or> y \<le> s) \<and>
      (let sz = charge_TABLE_REGIONS ! i in
        \<forall>r \<in> touched sz (set pieces) - touched sz K - {(tp - 1) div sz}.
          x \<le> r * sz \<and> (r + 1) * sz \<le> y)"
    using xy by (simp add: Let_def)
qed

theorem tables_exact_witness:
  "t_pages (tables [(0x400000, 0x401000)] (Some 0x201000) None 0x800000000000) = 1 \<and>
   table_count 0x800000000000 ({(0x200000, 0x201000)} \<union> set [(0x400000, 0x401000)]) =
     table_count 0x800000000000 {(0x200000, 0x201000)} + 1 \<and>
   t_reclaim (tables [(0x400000, 0x401000)] (Some 0x201000) None 0x800000000000) ! 0 =
     Some (0x400000, 0x600000) \<and>
   (0x201000 :: u64) \<le> 0x400000"
proof -
  let ?t = "tables [(0x400000, 0x401000)] (Some 0x201000) None 0x800000000000"
  have t: "t_pages ?t = 1" "t_reclaim ?t ! 0 = Some (0x400000, 0x600000)"
    by (simp_all add: tables_def charge_TABLE_REGIONS_def regions_def wmul_def U64_def)
  have "neighboured {(0x200000, 0x201000)} (Some 0x201000) None [(0x400000, 0x401000)]"
      "in_order [(0x400000, 0x401000)]"
    by (simp_all add: neighboured_def in_order_def)
  from tables_exact [OF this, of "0x800000000000" 0 "0x400000" "0x600000"] t
  show ?thesis by (simp add: U64_def Let_def del: Un_insert_left Un_insert_right)
qed

subsection \<open>The machine's budget\<close>

lemma machine_limit_reserve:
  "aligned (machine_limit free)" "machine_limit free \<le> free - max (free div 32) (32 * 2 ^ 20)"
  "machine_limit free = 0 \<longleftrightarrow> free < 32 * 2 ^ 20 + PAGE_SIZE"
proof -
  let ?keep = "max (free div 32) (32 * 2 ^ 20)"
  have eq: "machine_limit free = page_floor (free - ?keep)"
    by (simp add: machine_limit_def Let_def max_def)
  show "aligned (machine_limit free)" "machine_limit free \<le> free - ?keep"
    by (simp_all only: eq aligned_page_floor page_floor_le)
  have "page_floor x = 0 \<longleftrightarrow> x < PAGE_SIZE" for x
    by (auto simp: page_floor_div div_eq_0_iff PAGE_SIZE_def)
  moreover have "free - ?keep < PAGE_SIZE \<longleftrightarrow> free < 32 * 2 ^ 20 + PAGE_SIZE"
  proof (cases "free div 32 \<le> 32 * 2 ^ 20")
    case False
    moreover have "32 * (free div 32) \<le> free" by simp
    ultimately have "32 * 2 ^ 20 + PAGE_SIZE \<le> free" "PAGE_SIZE \<le> free - free div 32"
      by (simp_all add: PAGE_SIZE_def)
    then show ?thesis using False by (simp add: max_def)
  qed (auto simp: max_def PAGE_SIZE_def)
  ultimately show "machine_limit free = 0 \<longleftrightarrow> free < 32 * 2 ^ 20 + PAGE_SIZE" by (simp only: eq)
qed

lemma table_steps_cover:
  "slots \<le> table_steps slots * charge_HANDLE_SLOTS"
  "table_steps slots * charge_HANDLE_SLOTS < slots + charge_HANDLE_SLOTS"
  by (auto simp: table_steps_def charge_HANDLE_SLOTS_def div_ceil_def) presburger+

end
