(* ===== verification/Account.thy ===== *)
theory Account
  imports Quota
begin

text \<open>
  Memory accounts (\<open>kernel/core/src/account.rs\<close>). The state has every account that exists and every
  charge that is held, by identity (the address of the \<open>Arc\<close>, the place of the \<open>Charge\<close>). A
  charge is a \<open>Charge\<close> value or an address space's running total (\<open>Inner::charged\<close> of
  \<open>vm.rs\<close>), which also shrinks. The flag \<open>broken\<close> is set where the code says on the console that
  its accounting is broken.
\<close>

type_synonym aid = nat
type_synonym cid = nat

record Account =
  acc_name :: "byte list"
  ledger :: Ledger
  parent :: "aid option"
  acc_limit :: u64
  acc_record :: "cid option"

record Charge =
  charge_account :: aid
  charge_bytes :: u64

record acct_state =
  accounts :: "aid \<Rightarrow> Account option"
  charges :: "cid \<Rightarrow> Charge option"
  broken :: bool

abbreviation acct :: "acct_state \<Rightarrow> aid \<Rightarrow> Account" where
  "acct st a \<equiv> the (accounts st a)"

abbreviation ledger_of :: "acct_state \<Rightarrow> aid \<Rightarrow> Ledger" where
  "ledger_of st a \<equiv> ledger (acct st a)"

definition set_ledger :: "acct_state \<Rightarrow> aid \<Rightarrow> Ledger \<Rightarrow> acct_state" where
  "set_ledger st a l = st\<lparr>accounts := (accounts st)(a \<mapsto> (acct st a)\<lparr>ledger := l\<rparr>)\<rparr>"

subsection \<open>Operations\<close>

text \<open>The name of the machine's account is \<open>machine\<close>.\<close>

definition Account_machine :: "aid \<Rightarrow> u64 \<Rightarrow> acct_state" where
  "Account_machine root lim =
     \<lparr>accounts = [root \<mapsto> \<lparr>acc_name = [0x6d, 0x61, 0x63, 0x68, 0x69, 0x6e, 0x65],
                           ledger = Ledger_new lim, parent = None, acc_limit = lim,
                           acc_record = None\<rparr>],
      charges = Map.empty, broken = False\<rparr>"

definition try_charge :: "acct_state \<Rightarrow> aid \<Rightarrow> u64 \<Rightarrow> (Exceeded + unit) \<times> acct_state" where
  "try_charge st a bytes =
     (if bytes = 0 then (Inr (), st)
      else let (r, l) = Ledger_charge (ledger_of st a) bytes in (r, set_ledger st a l))"

definition Account_charge :: "acct_state \<Rightarrow> aid \<Rightarrow> u64 \<Rightarrow> unit res \<times> acct_state" where
  "Account_charge st a bytes =
     (case try_charge st a bytes of
        (Inl _, st') \<Rightarrow> (Inl QuotaExceeded, st')
      | (Inr u, st') \<Rightarrow> (Inr u, st'))"

definition Account_uncharge :: "acct_state \<Rightarrow> aid \<Rightarrow> u64 \<Rightarrow> acct_state" where
  "Account_uncharge st a bytes =
     (if bytes = 0 then st
      else case Ledger_uncharge (ledger_of st a) bytes of
        (Inl _, l) \<Rightarrow> (set_ledger st a l)\<lparr>broken := True\<rparr>
      | (Inr _, l) \<Rightarrow> set_ledger st a l)"

text \<open>\<open>Charge::new\<close>, with \<open>c\<close> the place of the new charge.\<close>

definition Charge_new :: "acct_state \<Rightarrow> aid \<Rightarrow> u64 \<Rightarrow> cid \<Rightarrow> cid res \<times> acct_state" where
  "Charge_new st a bytes c =
     (case Account_charge st a bytes of
        (Inl e, st') \<Rightarrow> (Inl e, st')
      | (Inr _, st') \<Rightarrow>
          (Inr c, st'\<lparr>charges := (charges st')(c \<mapsto> \<lparr>charge_account = a, charge_bytes = bytes\<rparr>)\<rparr>))"

definition Charge_matches :: "Charge \<Rightarrow> aid \<Rightarrow> bool" where
  "Charge_matches ch a \<longleftrightarrow> charge_account ch = a"

definition Charge_grow :: "acct_state \<Rightarrow> cid \<Rightarrow> u64 \<Rightarrow> unit res \<times> acct_state" where
  "Charge_grow st c bytes =
     (let ch = the (charges st c) in
      case Account_charge st (charge_account ch) bytes of
        (Inl e, st') \<Rightarrow> (Inl e, st')
      | (Inr _, st') \<Rightarrow>
          (Inr (), st'\<lparr>charges := (charges st')
             (c \<mapsto> ch\<lparr>charge_bytes := wadd (charge_bytes ch) bytes\<rparr>)\<rparr>))"

text \<open>\<open>Drop for Charge\<close>.\<close>

definition Charge_drop :: "acct_state \<Rightarrow> cid \<Rightarrow> acct_state" where
  "Charge_drop st c =
     (let ch = the (charges st c);
          st' = Account_uncharge st (charge_account ch) (charge_bytes ch)
      in st'\<lparr>charges := (charges st')(c := None)\<rparr>)"

text \<open>What \<open>Space::settle\<close> gives back of a space's running total when it costs \<open>cost\<close> now.\<close>

definition settle_total :: "acct_state \<Rightarrow> cid \<Rightarrow> u64 \<Rightarrow> acct_state" where
  "settle_total st c cost =
     (let ch = the (charges st c) in
      if cost > charge_bytes ch then st\<lparr>broken := True\<rparr>
      else let st' = Account_uncharge st (charge_account ch) (charge_bytes ch - cost)
           in st'\<lparr>charges := (charges st')(c \<mapsto> ch\<lparr>charge_bytes := cost\<rparr>)\<rparr>)"

text \<open>
  \<open>Account::carve\<close>: \<open>a\<close> is the new account and \<open>c\<close> its record's charge. A valid name is ASCII,
  so \<open>from_utf8\<close> always succeeds on it.
\<close>

definition carve ::
  "acct_state \<Rightarrow> aid \<Rightarrow> byte list \<Rightarrow> u64 \<Rightarrow> aid \<Rightarrow> aid \<Rightarrow> cid \<Rightarrow> aid res \<times> acct_state"
where
  "carve st self name lim payer a c =
     (if \<not> valid_name name \<or> lim = 0 \<or> \<not> aligned lim then (Inl InvalidArgs, st)
      else case Ledger_reserve (ledger_of st self) lim of
        (Inl _, l) \<Rightarrow> (Inl QuotaExceeded, set_ledger st self l)
      | (Inr _, l) \<Rightarrow>
          let st1 = set_ledger st self l in
          (case Charge_new st1 payer charge_OBJECT c of
             (Inl e, st2) \<Rightarrow>
               (case Ledger_unreserve (ledger_of st2 self) lim of
                  (Inl _, l2) \<Rightarrow> (Inl BadState, (set_ledger st2 self l2)\<lparr>broken := True\<rparr>)
                | (Inr _, l2) \<Rightarrow> (Inl e, set_ledger st2 self l2))
           | (Inr record, st2) \<Rightarrow>
               (Inr a, st2\<lparr>accounts := (accounts st2)
                  (a \<mapsto> \<lparr>acc_name = name, ledger = Ledger_new lim, parent = Some self,
                         acc_limit = lim, acc_record = Some record\<rparr>)\<rparr>)))"

text \<open>
  \<open>Drop for Account\<close>, then its fields: the record's charge goes back to the account that paid it.
\<close>

definition Account_drop :: "acct_state \<Rightarrow> aid \<Rightarrow> acct_state" where
  "Account_drop st a =
     (let A = acct st a;
          st1 = (if used (ledger A) \<noteq> 0 then st\<lparr>broken := True\<rparr> else st);
          st2 = (case parent A of
                   None \<Rightarrow> st1
                 | Some p \<Rightarrow>
                     (case Ledger_unreserve (ledger_of st1 p) (acc_limit A) of
                        (Inl _, l) \<Rightarrow> (set_ledger st1 p l)\<lparr>broken := True\<rparr>
                      | (Inr _, l) \<Rightarrow> set_ledger st1 p l));
          st3 = st2\<lparr>accounts := (accounts st2)(a := None)\<rparr>
      in case acc_record A of None \<Rightarrow> st3 | Some c \<Rightarrow> Charge_drop st3 c)"

text \<open>\<open>Account::info\<close>: the 64 bytes of \<open>account_info\<close>.\<close>

definition Account_info :: "Account \<Rightarrow> byte list" where
  "Account_info A =
     (let u = ledger A;
          out = replicate 64 0;
          out = snd (write_u64 out 0 (limit u));
          out = snd (write_u64 out 8 (used u));
          out = snd (write_u64 out 16 (peak u));
          out = snd (write_u64 out 24 (reserved u));
          n = min (length (acc_name A)) NAME_MAX
      in take 32 out @ take n (acc_name A) @ drop (32 + n) out)"

subsection \<open>The accounts as a state machine\<close>

text \<open>
  A step is a call on accounts or charges that exist. A record's charge goes only with its account;
  an account goes when nothing refers to it any more: no child, no charge. The machine's account is
  held for as long as the kernel runs.
\<close>

definition is_record :: "acct_state \<Rightarrow> cid \<Rightarrow> bool" where
  "is_record st c \<longleftrightarrow> (\<exists>a A. accounts st a = Some A \<and> acc_record A = Some c)"

inductive acct_step :: "acct_state \<Rightarrow> acct_state \<Rightarrow> bool" where
  step_carve: "acct_step st (snd (carve st self name lim payer a c))"
    if "accounts st self \<noteq> None" "accounts st payer \<noteq> None" "accounts st a = None"
      "charges st c = None" "lim < U64"
| step_new: "acct_step st (snd (Charge_new st a bytes c))"
    if "accounts st a \<noteq> None" "charges st c = None" "bytes < U64"
| step_grow: "acct_step st (snd (Charge_grow st c bytes))"
    if "charges st c \<noteq> None" "\<not> is_record st c" "bytes < U64"
| step_settle: "acct_step st (settle_total st c cost)"
    if "charges st c = Some ch" "\<not> is_record st c" "cost \<le> charge_bytes ch"
| step_drop_charge: "acct_step st (Charge_drop st c)"
    if "charges st c \<noteq> None" "\<not> is_record st c"
| step_drop_account: "acct_step st (Account_drop st a)"
    if "accounts st a = Some A" "parent A \<noteq> None"
      "\<forall>b B. accounts st b = Some B \<longrightarrow> parent B \<noteq> Some a"
      "\<forall>c ch. charges st c = Some ch \<longrightarrow> charge_account ch \<noteq> a"

subsection \<open>Invariant\<close>

definition charged_to :: "acct_state \<Rightarrow> aid \<Rightarrow> nat" where
  "charged_to st a = msum (\<lambda>ch. if charge_account ch = a then charge_bytes ch else 0) (charges st)"

definition held_for_children :: "acct_state \<Rightarrow> aid \<Rightarrow> nat" where
  "held_for_children st a = msum (\<lambda>B. if parent B = Some a then acc_limit B else 0) (accounts st)"

text \<open>
  The references between accounts and charges: an account's parent, limit and record, and a charge's
  account. The machine's account is there; every other account's parent is; a charge's account is;
  an account's record is charged elsewhere, and no two accounts share one.
\<close>

definition skel :: "acct_state \<Rightarrow> aid \<Rightarrow> (aid option \<times> u64 \<times> cid option) option" where
  "skel st a = map_option (\<lambda>A. (parent A, acc_limit A, acc_record A)) (accounts st a)"

definition owner :: "acct_state \<Rightarrow> cid \<Rightarrow> aid option" where
  "owner st c = map_option charge_account (charges st c)"

definition refs_ok ::
  "aid \<Rightarrow> u64 \<Rightarrow> (aid \<Rightarrow> (aid option \<times> u64 \<times> cid option) option) \<Rightarrow> (cid \<Rightarrow> aid option) \<Rightarrow> bool"
where
  "refs_ok root lim sk ow \<longleftrightarrow>
     finite (dom sk) \<and> finite (dom ow) \<and> (\<exists>r. sk root = Some (None, lim, r)) \<and>
     (\<forall>a p l r. sk a = Some (p, l, r) \<longrightarrow> a \<noteq> root \<longrightarrow>
        (\<exists>q. p = Some q \<and> q \<noteq> a \<and> q \<in> dom sk)) \<and>
     (\<forall>a p l c. sk a = Some (p, l, Some c) \<longrightarrow> (\<exists>b. ow c = Some b \<and> b \<noteq> a)) \<and>
     ran ow \<subseteq> dom sk \<and>
     (\<forall>a p l b q k c. sk a = Some (p, l, Some c) \<longrightarrow> sk b = Some (q, k, Some c) \<longrightarrow> a = b)"

definition acct_refs :: "aid \<Rightarrow> u64 \<Rightarrow> acct_state \<Rightarrow> bool" where
  "acct_refs root lim st \<longleftrightarrow> refs_ok root lim (skel st) (owner st)"

text \<open>
  The figures of each account: what is used is what the charges hold, what is reserved is the
  children's limits. \<open>pend\<close> is what is reserved for a child that is being made or has just gone.
\<close>

definition acct_figures :: "(aid \<Rightarrow> nat) \<Rightarrow> acct_state \<Rightarrow> bool" where
  "acct_figures pend st \<longleftrightarrow>
     (\<forall>a A. accounts st a = Some A \<longrightarrow>
        Ledger_inv (ledger A) \<and> limit (ledger A) = acc_limit A \<and>
        used (ledger A) = charged_to st a \<and>
        reserved (ledger A) = held_for_children st a + pend a)"

definition acct_inv :: "aid \<Rightarrow> u64 \<Rightarrow> acct_state \<Rightarrow> bool" where
  "acct_inv root lim st \<longleftrightarrow> \<not> broken st \<and> acct_refs root lim st \<and> acct_figures (\<lambda>_. 0) st"

text \<open>The invariant in the middle of an operation.\<close>

definition acct_mid :: "aid \<Rightarrow> u64 \<Rightarrow> (aid \<Rightarrow> nat) \<Rightarrow> acct_state \<Rightarrow> bool" where
  "acct_mid root lim pend st \<longleftrightarrow> \<not> broken st \<and> acct_refs root lim st \<and> acct_figures pend st"

lemma acct_inv_mid: "acct_inv root lim st \<longleftrightarrow> acct_mid root lim (\<lambda>_. 0) st"
  by (simp add: acct_inv_def acct_mid_def)

lemma set_ledger_sel [simp]:
  "accounts (set_ledger st a l) = (accounts st)(a \<mapsto> (acct st a)\<lparr>ledger := l\<rparr>)"
  "charges (set_ledger st a l) = charges st" "broken (set_ledger st a l) = broken st"
  by (simp_all add: set_ledger_def)

lemma set_ledger_charges: "(set_ledger st a l)\<lparr>charges := charges st\<rparr> = set_ledger st a l"
  by (simp add: set_ledger_def)

lemma set_ledger_same: "accounts st a = Some A \<Longrightarrow> set_ledger st a (ledger A) = st"
  by (cases st) (simp add: set_ledger_def fun_upd_idem)

lemma set_ledger_twice: "set_ledger (set_ledger st a l) a l' = set_ledger st a l'"
  by (simp add: set_ledger_def)

lemma dom_skel [simp]: "dom (skel st) = dom (accounts st)"
  by (auto simp: skel_def)

lemma dom_owner [simp]: "dom (owner st) = dom (charges st)"
  by (auto simp: owner_def)

lemma skel_set_ledger [simp]: "accounts st a = Some A \<Longrightarrow> skel (set_ledger st a l) = skel st"
  by (auto simp: skel_def)

lemma owner_set_ledger [simp]: "owner (set_ledger st a l) = owner st"
  by (simp add: owner_def fun_eq_iff)

lemma set_ledger_refs:
  "accounts st a = Some A \<Longrightarrow> acct_refs root lim (set_ledger st a l) \<longleftrightarrow> acct_refs root lim st"
  by (simp add: acct_refs_def)

lemma figuresD:
  assumes "acct_figures pend st" "accounts st a = Some A"
  shows "Ledger_inv (ledger A)" "limit (ledger A) = acc_limit A" "used (ledger A) = charged_to st a"
    "reserved (ledger A) = held_for_children st a + pend a"
  using assms by (auto simp: acct_figures_def)

lemma held_set_ledger:
  assumes "finite (dom (accounts st))" "accounts st a = Some A"
  shows "held_for_children (set_ledger st a l) b = held_for_children st b"
  using assms by (simp add: held_for_children_def msum_upd_same)

lemma charge_granted:
  assumes "acct_figures pend st" "accounts st a = Some A" "n \<le> room (ledger A)"
  shows "Account_charge st a n =
    (Inr (), set_ledger st a ((ledger A)\<lparr>used := used (ledger A) + n,
       peak := max (peak (ledger A)) (used (ledger A) + n)\<rparr>))"
proof (cases "n = 0")
  case True
  have "used (ledger A) \<le> peak (ledger A)"
    using figuresD(1) [OF assms(1,2)] by (simp add: Ledger_inv_def)
  then have "(ledger A)\<lparr>used := used (ledger A) + n, peak := max (peak (ledger A)) (used (ledger A) + n)\<rparr> = ledger A"
    using True by (simp add: max_def)
  then show ?thesis
    using True set_ledger_same [OF assms(2)] by (simp add: Account_charge_def try_charge_def)
next
  case False
  then show ?thesis using assms figuresD(1) [OF assms(1,2)]
    by (simp add: Account_charge_def try_charge_def ledger_simps)
qed

lemma charge_refused:
  assumes "acct_figures pend st" "accounts st a = Some A" "room (ledger A) < n"
  shows "Account_charge st a n = (Inl QuotaExceeded, st)"
  using assms figuresD(1) [OF assms(1,2)]
  by (simp add: Account_charge_def try_charge_def ledger_simps set_ledger_same)

lemma uncharge_granted:
  assumes "accounts st a = Some A" "n \<le> used (ledger A)"
  shows "Account_uncharge st a n = set_ledger st a ((ledger A)\<lparr>used := used (ledger A) - n\<rparr>)"
  using assms set_ledger_same [OF assms(1)]
  by (cases "n = 0") (simp_all add: Account_uncharge_def ledger_simps)

subsection \<open>Each operation keeps the invariant\<close>

abbreviation bytes_of :: "aid \<Rightarrow> Charge \<Rightarrow> nat" where
  "bytes_of a \<equiv> \<lambda>ch. if charge_account ch = a then charge_bytes ch else 0"

lemma mid_parts:
  assumes "acct_mid root lim pend st"
  shows "\<not> broken st" "acct_refs root lim st" "acct_figures pend st"
    "finite (dom (accounts st))" "finite (dom (charges st))"
  using assms by (auto simp: acct_mid_def acct_refs_def refs_ok_def)

text \<open>One account's ledger and the charges change together.\<close>

lemma mid_change:
  assumes mid: "acct_mid root lim pend st" and a: "accounts st a = Some A"
    and L: "Ledger_inv L" "limit L = limit (ledger A)" "used L = msum (bytes_of a) m"
      "reserved L = held_for_children st a + pend' a"
    and others: "\<And>b. b \<noteq> a \<Longrightarrow> msum (bytes_of b) m = charged_to st b" "\<And>b. b \<noteq> a \<Longrightarrow> pend' b = pend b"
    and refs: "acct_refs root lim ((set_ledger st a L)\<lparr>charges := m\<rparr>)"
  shows "acct_mid root lim pend' ((set_ledger st a L)\<lparr>charges := m\<rparr>)"
proof -
  let ?st = "(set_ledger st a L)\<lparr>charges := m\<rparr>"
  note p = mid_parts [OF mid]
  have h: "held_for_children ?st b = held_for_children st b" for b
    using held_set_ledger [OF p(4) a, of L b] by (simp add: held_for_children_def)
  have "acct_figures pend' ?st"
    unfolding acct_figures_def
  proof (intro allI impI)
    fix b B assume B: "accounts ?st b = Some B"
    show "Ledger_inv (ledger B) \<and> limit (ledger B) = acc_limit B \<and>
        used (ledger B) = charged_to ?st b \<and> reserved (ledger B) = held_for_children ?st b + pend' b"
    proof (cases "b = a")
      case True
      then have "B = A\<lparr>ledger := L\<rparr>" using B a by simp
      then show ?thesis using True L figuresD(2) [OF p(3) a] h by (simp add: charged_to_def)
    next
      case False
      then have "accounts st b = Some B" using B by simp
      then show ?thesis
        using figuresD [OF p(3)] False others h by (simp add: charged_to_def)
    qed
  qed
  then show ?thesis using refs p(1) by (simp add: acct_mid_def)
qed

text \<open>The references when a charge is made, changes its amount, or goes.\<close>

lemma skel_charges [simp]: "skel (st\<lparr>charges := m\<rparr>) = skel st"
  by (simp add: skel_def fun_eq_iff)

lemma refs_new_charge:
  assumes "acct_refs root lim st" "accounts st (charge_account ch) \<noteq> None" "charges st c = None"
  shows "acct_refs root lim (st\<lparr>charges := (charges st)(c \<mapsto> ch)\<rparr>)"
proof -
  have o: "owner (st\<lparr>charges := (charges st)(c \<mapsto> ch)\<rparr>) = (owner st)(c \<mapsto> charge_account ch)"
    by (auto simp: owner_def)
  have c: "owner st c = None" using assms(3) by (simp add: owner_def)
  have r: "refs_ok root lim (skel st) (owner st)" using assms(1) by (simp add: acct_refs_def)
  have "refs_ok root lim (skel st) ((owner st)(c \<mapsto> charge_account ch))"
    unfolding refs_ok_def
  proof (intro conjI)
    show "\<forall>a p l d. skel st a = Some (p, l, Some d) \<longrightarrow>
        (\<exists>b. ((owner st)(c \<mapsto> charge_account ch)) d = Some b \<and> b \<noteq> a)"
      using r c unfolding refs_ok_def by (metis fun_upd_other option.distinct(1))
    show "ran ((owner st)(c \<mapsto> charge_account ch)) \<subseteq> dom (skel st)"
      using r c assms(2) unfolding refs_ok_def by auto
  qed (use r in \<open>simp_all add: refs_ok_def\<close>)
  then show ?thesis by (simp only: acct_refs_def skel_charges o)
qed

lemma refs_change_charge:
  assumes "acct_refs root lim st" "charges st c = Some ch" "charge_account ch' = charge_account ch"
  shows "acct_refs root lim (st\<lparr>charges := (charges st)(c \<mapsto> ch')\<rparr>)"
proof -
  have "owner (st\<lparr>charges := (charges st)(c \<mapsto> ch')\<rparr>) = owner st"
    using assms(2,3) by (auto simp: owner_def)
  then show ?thesis using assms(1) by (simp only: acct_refs_def skel_charges)
qed

lemma refs_drop_charge:
  assumes "acct_refs root lim st" "\<not> is_record st c"
  shows "acct_refs root lim (st\<lparr>charges := (charges st)(c := None)\<rparr>)"
proof -
  have o: "owner (st\<lparr>charges := (charges st)(c := None)\<rparr>) = (owner st)(c := None)"
    by (auto simp: owner_def)
  have n: "skel st a \<noteq> Some (p, l, Some c)" for a p l
    using assms(2) by (auto simp: is_record_def skel_def)
  have r: "refs_ok root lim (skel st) (owner st)" using assms(1) by (simp add: acct_refs_def)
  have "refs_ok root lim (skel st) ((owner st)(c := None))"
    unfolding refs_ok_def
  proof (intro conjI)
    show "\<forall>a p l d. skel st a = Some (p, l, Some d) \<longrightarrow>
        (\<exists>b. ((owner st)(c := None)) d = Some b \<and> b \<noteq> a)"
      using r n unfolding refs_ok_def by (metis fun_upd_other)
    show "ran ((owner st)(c := None)) \<subseteq> dom (skel st)"
      using r unfolding refs_ok_def by (auto simp: ran_def)
  qed (use r in \<open>simp_all add: refs_ok_def\<close>)
  then show ?thesis by (simp only: acct_refs_def skel_charges o)
qed

abbreviation with_used :: "Ledger \<Rightarrow> nat \<Rightarrow> Ledger" where
  "with_used l n \<equiv> l\<lparr>used := used l + n, peak := max (peak l) (used l + n)\<rparr>"

lemma Charge_new_granted:
  assumes "acct_figures pend st" "accounts st a = Some A" "n \<le> room (ledger A)"
  shows "Charge_new st a n c = (Inr c, (set_ledger st a (with_used (ledger A) n))
    \<lparr>charges := (charges st)(c \<mapsto> \<lparr>charge_account = a, charge_bytes = n\<rparr>)\<rparr>)"
  by (simp add: Charge_new_def charge_granted [OF assms])

lemma Charge_new_refused:
  assumes "acct_figures pend st" "accounts st a = Some A" "room (ledger A) < n"
  shows "Charge_new st a n c = (Inl QuotaExceeded, st)"
  by (simp add: Charge_new_def charge_refused [OF assms])

lemma with_used_inv: "Ledger_inv l \<Longrightarrow> n \<le> room l \<Longrightarrow> Ledger_inv (with_used l n)"
  using ldg.chg_granted [of l n] by (simp add: ledger_simps)

lemma less_used_inv: "Ledger_inv l \<Longrightarrow> Ledger_inv (l\<lparr>used := used l - n\<rparr>)"
  by (auto simp: Ledger_inv_def)

lemma Charge_new_mid:
  assumes mid: "acct_mid root lim pend st" and a: "accounts st a = Some A" and c: "charges st c = None"
  shows "acct_mid root lim pend (snd (Charge_new st a n c))"
proof (cases "n \<le> room (ledger A)")
  case True
  note p = mid_parts [OF mid] and f = figuresD [OF mid_parts(3) [OF mid] a]
  let ?ch = "\<lparr>charge_account = a, charge_bytes = n\<rparr>"
  have "acct_refs root lim ((set_ledger st a (with_used (ledger A) n))\<lparr>charges := (charges st)(c \<mapsto> ?ch)\<rparr>)"
    using refs_new_charge [of root lim "set_ledger st a (with_used (ledger A) n)" ?ch c] p(2) c
    by (simp add: set_ledger_refs [OF a])
  then have "acct_mid root lim pend
      ((set_ledger st a (with_used (ledger A) n))\<lparr>charges := (charges st)(c \<mapsto> ?ch)\<rparr>)"
    by (intro mid_change [OF mid a with_used_inv [OF f(1) True]])
      (use f c p(5) in \<open>simp_all add: msum_new charged_to_def\<close>)
  then show ?thesis by (simp add: Charge_new_granted [OF p(3) a True])
next
  case False
  then show ?thesis using mid Charge_new_refused [OF mid_parts(3) [OF mid] a] by simp
qed

lemma charge_in_used:
  assumes "acct_mid root lim pend st" "charges st c = Some ch" "accounts st (charge_account ch) = Some A"
  shows "charge_bytes ch \<le> used (ledger A)"
  using msum_ge [OF mid_parts(5) [OF assms(1)] assms(2), of "bytes_of (charge_account ch)"]
    figuresD(3) [OF mid_parts(3) [OF assms(1)] assms(3)]
  by (simp add: charged_to_def)

lemma charge_account_there:
  assumes "acct_mid root lim pend st" "charges st c = Some ch"
  obtains A where "accounts st (charge_account ch) = Some A"
proof -
  have "charge_account ch \<in> ran (owner st)" using assms(2) by (auto simp: owner_def ran_def)
  then show ?thesis
    using mid_parts(2) [OF assms(1)] that by (auto simp: acct_refs_def refs_ok_def)
qed

text \<open>A held charge that comes to \<open>n\<close> bytes, the account's ledger moving with it.\<close>

lemma change_charge_mid:
  assumes mid: "acct_mid root lim pend st" and ch: "charges st c = Some ch"
    and a: "accounts st (charge_account ch) = Some A"
    and L: "Ledger_inv L" "limit L = limit (ledger A)" "reserved L = reserved (ledger A)"
      "used L + charge_bytes ch = used (ledger A) + n"
  shows "acct_mid root lim pend
    ((set_ledger st (charge_account ch) L)\<lparr>charges := (charges st)(c \<mapsto> ch\<lparr>charge_bytes := n\<rparr>)\<rparr>)"
proof -
  note p = mid_parts [OF mid] and f = figuresD [OF mid_parts(3) [OF mid] a]
  have "acct_refs root lim
      ((set_ledger st (charge_account ch) L)\<lparr>charges := (charges st)(c \<mapsto> ch\<lparr>charge_bytes := n\<rparr>)\<rparr>)"
    using refs_change_charge [of root lim "set_ledger st (charge_account ch) L" c ch] p(2) ch
    by (simp add: set_ledger_refs [OF a])
  moreover have "msum (bytes_of b) ((charges st)(c \<mapsto> ch\<lparr>charge_bytes := n\<rparr>)) = charged_to st b"
    if "b \<noteq> charge_account ch" for b
    using msum_upd_same [OF p(5) ch, of "bytes_of b"] that by (simp add: charged_to_def)
  moreover have "used L = msum (bytes_of (charge_account ch)) ((charges st)(c \<mapsto> ch\<lparr>charge_bytes := n\<rparr>))"
    using msum_upd [OF p(5) ch, of "bytes_of (charge_account ch)" "ch\<lparr>charge_bytes := n\<rparr>"] f(3) L(4)
    by (simp add: charged_to_def)
  ultimately show ?thesis
    by (intro mid_change [OF mid a L(1,2)]) (use f L(3) in simp_all)
qed

lemma Charge_grow_mid:
  assumes mid: "acct_mid root lim pend st" and ch: "charges st c = Some ch"
  shows "acct_mid root lim pend (snd (Charge_grow st c n))"
proof -
  obtain A where a: "accounts st (charge_account ch) = Some A" using mid ch by (rule charge_account_there)
  note p = mid_parts [OF mid] and f = figuresD [OF mid_parts(3) [OF mid] a]
  show ?thesis
  proof (cases "n \<le> room (ledger A)")
    case True
    have "charge_bytes ch + n < U64"
      using charge_in_used [OF mid ch a] Ledger_no_wrap [OF f(1) True] by linarith
    then have "snd (Charge_grow st c n) = (set_ledger st (charge_account ch) (with_used (ledger A) n))
        \<lparr>charges := (charges st)(c \<mapsto> ch\<lparr>charge_bytes := charge_bytes ch + n\<rparr>)\<rparr>"
      using ch by (simp add: Charge_grow_def charge_granted [OF p(3) a True])
    moreover have "acct_mid root lim pend ((set_ledger st (charge_account ch) (with_used (ledger A) n))
        \<lparr>charges := (charges st)(c \<mapsto> ch\<lparr>charge_bytes := charge_bytes ch + n\<rparr>)\<rparr>)"
      by (rule change_charge_mid [OF mid ch a with_used_inv [OF f(1) True]]) simp_all
    ultimately show ?thesis by simp
  next
    case False
    then show ?thesis using mid ch charge_refused [OF p(3) a] by (simp add: Charge_grow_def)
  qed
qed

lemma settle_total_mid:
  assumes mid: "acct_mid root lim pend st" and ch: "charges st c = Some ch" "cost \<le> charge_bytes ch"
  shows "acct_mid root lim pend (settle_total st c cost)"
proof -
  obtain A where a: "accounts st (charge_account ch) = Some A" using mid ch(1) by (rule charge_account_there)
  let ?L = "(ledger A)\<lparr>used := used (ledger A) - (charge_bytes ch - cost)\<rparr>"
  have le: "charge_bytes ch \<le> used (ledger A)" by (rule charge_in_used [OF mid ch(1) a])
  then have "settle_total st c cost = (set_ledger st (charge_account ch) ?L)
      \<lparr>charges := (charges st)(c \<mapsto> ch\<lparr>charge_bytes := cost\<rparr>)\<rparr>"
    using ch uncharge_granted [OF a, of "charge_bytes ch - cost"] by (simp add: settle_total_def Let_def)
  moreover have "acct_mid root lim pend ((set_ledger st (charge_account ch) ?L)
      \<lparr>charges := (charges st)(c \<mapsto> ch\<lparr>charge_bytes := cost\<rparr>)\<rparr>)"
    by (rule change_charge_mid [OF mid ch(1) a less_used_inv])
      (use figuresD(1) [OF mid_parts(3) [OF mid] a] ch(2) le in simp_all)
  ultimately show ?thesis by simp
qed

lemma Charge_drop_mid:
  assumes mid: "acct_mid root lim pend st" and ch: "charges st c = Some ch" "\<not> is_record st c"
  shows "acct_mid root lim pend (Charge_drop st c)"
proof -
  obtain A where a: "accounts st (charge_account ch) = Some A" using mid ch(1) by (rule charge_account_there)
  note p = mid_parts [OF mid] and f = figuresD [OF mid_parts(3) [OF mid] a]
  let ?L = "(ledger A)\<lparr>used := used (ledger A) - charge_bytes ch\<rparr>"
  have le: "charge_bytes ch \<le> used (ledger A)" by (rule charge_in_used [OF mid ch(1) a])
  have eq: "Charge_drop st c = (set_ledger st (charge_account ch) ?L)\<lparr>charges := (charges st)(c := None)\<rparr>"
    using ch(1) uncharge_granted [OF a le] by (simp add: Charge_drop_def Let_def)
  have del: "msum (bytes_of b) (charges st) = msum (bytes_of b) ((charges st)(c := None)) + bytes_of b ch" for b
    by (rule msum_del [OF p(5) ch(1)])
  have "\<not> is_record (set_ledger st (charge_account ch) ?L) c"
    using ch(2) a by (auto simp: is_record_def split: if_splits)
  then have "acct_refs root lim ((set_ledger st (charge_account ch) ?L)\<lparr>charges := (charges st)(c := None)\<rparr>)"
    using refs_drop_charge [of root lim "set_ledger st (charge_account ch) ?L" c] p(2)
    by (simp add: set_ledger_refs [OF a])
  then show ?thesis
    unfolding eq
    by (intro mid_change [OF mid a less_used_inv [OF f(1)]])
      (use f del [of "charge_account ch"] del in \<open>simp_all add: charged_to_def\<close>)
qed

text \<open>A limit held for a child that is not there yet, and given back.\<close>

lemma reserve_mid:
  assumes mid: "acct_mid root lim pend st" and a: "accounts st a = Some A" and n: "n \<le> room (ledger A)"
  shows "acct_mid root lim (pend(a := pend a + n))
    (set_ledger st a ((ledger A)\<lparr>reserved := reserved (ledger A) + n\<rparr>))"
proof -
  note p = mid_parts [OF mid] and f = figuresD [OF mid_parts(3) [OF mid] a]
  let ?L = "(ledger A)\<lparr>reserved := reserved (ledger A) + n\<rparr>"
  have "Ledger_inv ?L" using rsv.chg_granted [OF f(1) n] f(1) n by (simp add: ledger_simps)
  moreover have "acct_refs root lim ((set_ledger st a ?L)\<lparr>charges := charges st\<rparr>)"
    using p(2) set_ledger_refs [OF a, of root lim ?L] by (simp only: set_ledger_charges)
  ultimately have "acct_mid root lim (pend(a := pend a + n)) ((set_ledger st a ?L)\<lparr>charges := charges st\<rparr>)"
    by (intro mid_change [OF mid a]) (use f in \<open>simp_all add: charged_to_def\<close>)
  then show ?thesis by (simp only: set_ledger_charges)
qed

lemma unreserve_mid:
  assumes mid: "acct_mid root lim pend st" and a: "accounts st a = Some A" and n: "n \<le> pend a"
  shows "Ledger_unreserve (ledger A) n = (Inr (), (ledger A)\<lparr>reserved := reserved (ledger A) - n\<rparr>)"
    "acct_mid root lim (pend(a := pend a - n))
      (set_ledger st a ((ledger A)\<lparr>reserved := reserved (ledger A) - n\<rparr>))"
proof -
  note p = mid_parts [OF mid] and f = figuresD [OF mid_parts(3) [OF mid] a]
  let ?L = "(ledger A)\<lparr>reserved := reserved (ledger A) - n\<rparr>"
  have le: "n \<le> reserved (ledger A)" using f(4) n by simp
  then show "Ledger_unreserve (ledger A) n = (Inr (), ?L)" by (simp add: ledger_simps)
  have "Ledger_inv ?L" using rsv.unchg_granted [OF f(1) le] le by (simp add: ledger_simps)
  moreover have "acct_refs root lim ((set_ledger st a ?L)\<lparr>charges := charges st\<rparr>)"
    using p(2) set_ledger_refs [OF a, of root lim ?L] by (simp only: set_ledger_charges)
  ultimately have "acct_mid root lim (pend(a := pend a - n)) ((set_ledger st a ?L)\<lparr>charges := charges st\<rparr>)"
    by (intro mid_change [OF mid a]) (use f n in \<open>simp_all add: charged_to_def\<close>)
  then show "acct_mid root lim (pend(a := pend a - n)) (set_ledger st a ?L)" by (simp only: set_ledger_charges)
qed

lemma skel_new_account:
  "skel (st\<lparr>accounts := (accounts st)(a \<mapsto> A)\<rparr>) = (skel st)(a \<mapsto> (parent A, acc_limit A, acc_record A))"
  by (auto simp: skel_def)

lemma owner_accounts [simp]: "owner (st\<lparr>accounts := m\<rparr>) = owner st"
  by (simp add: owner_def fun_eq_iff)

text \<open>The child takes the limit that was held for it.\<close>

lemma new_account_mid:
  assumes mid: "acct_mid root lim pend st" and new: "accounts st a = None"
    and par: "accounts st par \<noteq> None" and held: "pend par = n" "\<forall>b. b \<noteq> par \<longrightarrow> pend b = 0"
    and rec: "charges st c = Some ch" "\<not> is_record st c"
    and n: "n < U64"
  shows "acct_inv root lim (st\<lparr>accounts := (accounts st)
    (a \<mapsto> \<lparr>acc_name = name, ledger = Ledger_new n, parent = Some par, acc_limit = n, acc_record = Some c\<rparr>)\<rparr>)"
    (is "acct_inv root lim ?st")
proof -
  note p = mid_parts [OF mid]
  let ?A = "\<lparr>acc_name = name, ledger = Ledger_new n, parent = Some par, acc_limit = n, acc_record = Some c\<rparr>"
  have r: "refs_ok root lim (skel st) (owner st)" using p(2) by (simp add: acct_refs_def)
  have sk: "skel ?st = (skel st)(a \<mapsto> (Some par, n, Some c))" by (simp add: skel_new_account)
  have a: "skel st a = None" using new by (simp add: skel_def)
  have pa: "par \<noteq> a" "par \<in> dom (skel st)" using par new by auto
  have nc: "skel st b \<noteq> Some (q, l, Some c)" for b q l using rec(2) by (auto simp: is_record_def skel_def)
  have own: "owner st c = Some (charge_account ch)" "charge_account ch \<noteq> a"
    using rec(1) new charge_account_there [OF mid rec(1)] by (force simp: owner_def)+
  have "refs_ok root lim ((skel st)(a \<mapsto> (Some par, n, Some c))) (owner st)"
    unfolding refs_ok_def
  proof (intro conjI)
    show "\<exists>r. ((skel st)(a \<mapsto> (Some par, n, Some c))) root = Some (None, lim, r)"
      using r a unfolding refs_ok_def by auto
    show "\<forall>b q l r. ((skel st)(a \<mapsto> (Some par, n, Some c))) b = Some (q, l, r) \<longrightarrow> b \<noteq> root \<longrightarrow>
        (\<exists>k. q = Some k \<and> k \<noteq> b \<and> k \<in> dom ((skel st)(a \<mapsto> (Some par, n, Some c))))"
    proof (intro allI impI)
      fix b q l r' assume b: "((skel st)(a \<mapsto> (Some par, n, Some c))) b = Some (q, l, r')" "b \<noteq> root"
      show "\<exists>k. q = Some k \<and> k \<noteq> b \<and> k \<in> dom ((skel st)(a \<mapsto> (Some par, n, Some c)))"
      proof (cases "b = a")
        case False
        then have "\<exists>k. q = Some k \<and> k \<noteq> b \<and> k \<in> dom (skel st)"
          using r b unfolding refs_ok_def by (metis fun_upd_other)
        then show ?thesis by auto
      qed (use b pa in auto)
    qed
    show "\<forall>b q l d. ((skel st)(a \<mapsto> (Some par, n, Some c))) b = Some (q, l, Some d) \<longrightarrow>
        (\<exists>k. owner st d = Some k \<and> k \<noteq> b)"
      using r own unfolding refs_ok_def by auto
    show "\<forall>b q l b' q' l' d. ((skel st)(a \<mapsto> (Some par, n, Some c))) b = Some (q, l, Some d) \<longrightarrow>
        ((skel st)(a \<mapsto> (Some par, n, Some c))) b' = Some (q', l', Some d) \<longrightarrow> b = b'"
      using r nc unfolding refs_ok_def by (auto split: if_splits)
  qed (use r in \<open>auto simp: refs_ok_def\<close>)
  then have "acct_refs root lim ?st" by (simp only: acct_refs_def sk owner_accounts)
  moreover have "acct_figures (\<lambda>_. 0) ?st"
  proof -
    have h: "held_for_children ?st b = held_for_children st b + pend b" for b
      using msum_new [OF p(4) new] held by (auto simp: held_for_children_def)
    have ch: "charged_to ?st b = charged_to st b" for b by (simp add: charged_to_def)
    have "charge_account ch' \<noteq> a" if "charges st c' = Some ch'" for c' ch'
      using charge_account_there [OF mid that] new by force
    then have "charged_to st a = 0" by (auto simp: charged_to_def msum_def dom_def)
    moreover have "held_for_children st a = 0" "pend a = 0"
    proof -
      have "parent B \<noteq> Some a" if "accounts st b = Some B" for b B
      proof (cases "b = root")
        case True then show ?thesis using r that unfolding refs_ok_def by (auto simp: skel_def)
      next
        case False
        then have "\<exists>q. parent B = Some q \<and> q \<in> dom (skel st)"
          using r that unfolding refs_ok_def by (fastforce simp: skel_def)
        then show ?thesis using new by auto
      qed
      then show "held_for_children st a = 0" by (auto simp: held_for_children_def msum_def dom_def)
      show "pend a = 0" using held(2) pa(1) by simp
    qed
    ultimately have "Ledger_inv (ledger B) \<and> limit (ledger B) = acc_limit B \<and>
        used (ledger B) = charged_to ?st b \<and> reserved (ledger B) = held_for_children ?st b + 0"
      if "accounts ?st b = Some B" for b B
    proof (cases "b = a")
      case True
      then have "B = ?A" using that by simp
      then show ?thesis
        using True h [of a] ch [of a] \<open>charged_to st a = 0\<close> \<open>held_for_children st a = 0\<close> \<open>pend a = 0\<close>
          Ledger_new_inv [OF n] by (simp add: Ledger_new_def)
    next
      case False
      then have "accounts st b = Some B" using that by simp
      then show ?thesis using figuresD [OF p(3), of b B] h [of b] ch [of b] by simp
    qed
    then show ?thesis unfolding acct_figures_def by blast
  qed
  ultimately show ?thesis using p(1) by (simp add: acct_inv_def)
qed

lemma Charge_new_cases:
  assumes "acct_mid root lim pend st" "accounts st a = Some A"
  obtains (granted) "fst (Charge_new st a n c) = Inr c" "accounts (snd (Charge_new st a n c)) =
      (accounts st)(a \<mapsto> A\<lparr>ledger := with_used (ledger A) n\<rparr>)"
    "charges (snd (Charge_new st a n c)) = (charges st)(c \<mapsto> \<lparr>charge_account = a, charge_bytes = n\<rparr>)"
  | (refused) "Charge_new st a n c = (Inl QuotaExceeded, st)"
  using Charge_new_granted [OF mid_parts(3) [OF assms(1)] assms(2), of n c]
    Charge_new_refused [OF mid_parts(3) [OF assms(1)] assms(2), of n c] assms(2)
  by (cases "n \<le> room (ledger A)") auto

lemma no_record:
  assumes "acct_refs root lim st" "charges st c = None"
  shows "\<not> is_record st c"
  using assms unfolding acct_refs_def refs_ok_def is_record_def
  by (auto simp: skel_def owner_def) (metis option.distinct(1) option.simps(8))

text \<open>A carve that is refused leaves every account and every charge as it was.\<close>

lemma carve_inv:
  assumes inv: "acct_inv root lim st" and self: "accounts st self \<noteq> None" "accounts st payer \<noteq> None"
    and new: "accounts st a = None" "charges st c = None" "n < U64"
  shows "acct_inv root lim (snd (carve st self name n payer a c)) \<and>
    (\<forall>e. fst (carve st self name n payer a c) = Inl e \<longrightarrow> snd (carve st self name n payer a c) = st)"
proof (cases "valid_name name \<and> n \<noteq> 0 \<and> aligned n")
  case False
  then show ?thesis using inv by (auto simp: carve_def)
next
  case valid: True
  have mid: "acct_mid root lim (\<lambda>_. 0) st" using inv by (simp add: acct_inv_mid)
  note p = mid_parts [OF mid]
  obtain S where S: "accounts st self = Some S" using self(1) by auto
  note f = figuresD [OF p(3) S]
  show ?thesis
  proof (cases "n \<le> room (ledger S)")
    case False
    then have "Ledger_reserve (ledger S) n = (Inl \<lparr>asked = n, usage = ledger S\<rparr>, ledger S)"
      using f(1) by (simp add: ledger_simps)
    then show ?thesis using valid S inv by (simp add: carve_def set_ledger_same)
  next
    case True
    let ?L = "(ledger S)\<lparr>reserved := reserved (ledger S) + n\<rparr>"
    let ?st1 = "set_ledger st self ?L" and ?pend = "(\<lambda>_. 0)(self := n)"
    have res: "Ledger_reserve (ledger S) n = (Inr (), ?L)" using f(1) True by (simp add: ledger_simps)
    have mid1: "acct_mid root lim ?pend ?st1" using reserve_mid [OF mid S True] by simp
    obtain P where P: "accounts ?st1 payer = Some P" using self(2) by (cases "payer = self") auto
    show ?thesis
    proof (rule Charge_new_cases [OF mid1 P, of charge_OBJECT c])
      let ?st2 = "snd (Charge_new ?st1 payer charge_OBJECT c)"
      assume g: "fst (Charge_new ?st1 payer charge_OBJECT c) = Inr c"
        "accounts ?st2 = (accounts ?st1)(payer \<mapsto> P\<lparr>ledger := with_used (ledger P) charge_OBJECT\<rparr>)"
        "charges ?st2 = (charges ?st1)(c \<mapsto> \<lparr>charge_account = payer, charge_bytes = charge_OBJECT\<rparr>)"
      have mid2: "acct_mid root lim ?pend ?st2" using Charge_new_mid [OF mid1 P] new(2) by simp
      have "\<not> is_record st c" by (rule no_record [OF p(2) new(2)])
      then have "\<not> is_record ?st2 c"
        using S P unfolding is_record_def g(2) by (auto split: if_splits)
      moreover have "a \<noteq> self" "a \<noteq> payer" using new(1) self by auto
      ultimately have "acct_inv root lim (?st2\<lparr>accounts := (accounts ?st2)
          (a \<mapsto> \<lparr>acc_name = name, ledger = Ledger_new n, parent = Some self, acc_limit = n,
                 acc_record = Some c\<rparr>)\<rparr>)"
        by (intro new_account_mid [OF mid2]) (use new self S in \<open>simp_all add: g\<close>)
      moreover have "carve st self name n payer a c = (Inr a, ?st2\<lparr>accounts := (accounts ?st2)
          (a \<mapsto> \<lparr>acc_name = name, ledger = Ledger_new n, parent = Some self, acc_limit = n,
                 acc_record = Some c\<rparr>)\<rparr>)"
        using valid S res g(1) by (cases "Charge_new ?st1 payer charge_OBJECT c") (simp add: carve_def)
      ultimately show ?thesis by simp
    next
      assume r: "Charge_new ?st1 payer charge_OBJECT c = (Inl QuotaExceeded, ?st1)"
      have "Ledger_unreserve ?L n = (Inr (), ledger S)" by (simp add: ledger_simps)
      then have "carve st self name n payer a c = (Inl QuotaExceeded, st)"
        using valid S res r by (simp add: carve_def set_ledger_twice set_ledger_same)
      then show ?thesis using inv by simp
    qed
  qed
qed

text \<open>
  An account nothing refers to goes: nothing is charged to it, its parent holds its limit, and the
  charge of its record is elsewhere.
\<close>

lemma del_account_mid:
  assumes inv: "acct_inv root lim st" and A: "accounts st a = Some A" "parent A = Some par"
    and kids: "\<forall>b B. accounts st b = Some B \<longrightarrow> parent B \<noteq> Some a"
    and none: "\<forall>c ch. charges st c = Some ch \<longrightarrow> charge_account ch \<noteq> a"
  shows "acct_mid root lim ((\<lambda>_. 0)(par := acc_limit A)) (st\<lparr>accounts := (accounts st)(a := None)\<rparr>)"
    (is "acct_mid root lim ?pend ?st")
proof -
  have mid: "acct_mid root lim (\<lambda>_. 0) st" using inv by (simp add: acct_inv_mid)
  note p = mid_parts [OF mid]
  have r: "refs_ok root lim (skel st) (owner st)" using p(2) by (simp add: acct_refs_def)
  have sk: "skel ?st = (skel st)(a := None)" by (auto simp: skel_def)
  have kid: "skel st b \<noteq> Some (Some a, l, c)" for b l c using kids by (auto simp: skel_def)
  have own: "owner st c \<noteq> Some a" for c using none by (auto simp: owner_def)
  have ar: "a \<noteq> root" using r A unfolding refs_ok_def by (auto simp: skel_def)
  have "refs_ok root lim ((skel st)(a := None)) (owner st)"
    unfolding refs_ok_def
  proof (intro conjI)
    show "\<exists>r. ((skel st)(a := None)) root = Some (None, lim, r)"
      using r ar unfolding refs_ok_def by auto
    show "\<forall>b q l d. ((skel st)(a := None)) b = Some (q, l, d) \<longrightarrow> b \<noteq> root \<longrightarrow>
        (\<exists>k. q = Some k \<and> k \<noteq> b \<and> k \<in> dom ((skel st)(a := None)))"
    proof (intro allI impI)
      fix b q l d assume b: "((skel st)(a := None)) b = Some (q, l, d)" "b \<noteq> root"
      then have sb: "skel st b = Some (q, l, d)" by (auto split: if_splits)
      then obtain k where k: "q = Some k" "k \<noteq> b" "k \<in> dom (skel st)"
        using r b(2) unfolding refs_ok_def by metis
      moreover have "k \<noteq> a" using kid sb k(1) by auto
      ultimately show "\<exists>k. q = Some k \<and> k \<noteq> b \<and> k \<in> dom ((skel st)(a := None))" by auto
    qed
    show "\<forall>b q l d. ((skel st)(a := None)) b = Some (q, l, Some d) \<longrightarrow> (\<exists>k. owner st d = Some k \<and> k \<noteq> b)"
      using r unfolding refs_ok_def by (auto split: if_splits)
    show "ran (owner st) \<subseteq> dom ((skel st)(a := None))"
      using r own unfolding refs_ok_def by (auto simp: ran_def)
    show "\<forall>b q l b' q' l' d. ((skel st)(a := None)) b = Some (q, l, Some d) \<longrightarrow>
        ((skel st)(a := None)) b' = Some (q', l', Some d) \<longrightarrow> b = b'"
      using r unfolding refs_ok_def by (auto split: if_splits)
  qed (use r in \<open>simp_all add: refs_ok_def\<close>)
  then have "acct_refs root lim ?st" by (simp only: acct_refs_def sk owner_accounts)
  moreover have "acct_figures ?pend ?st"
    unfolding acct_figures_def
  proof (intro allI impI)
    fix b B assume "accounts ?st b = Some B"
    then have b: "accounts st b = Some B" by (auto split: if_splits)
    have "held_for_children st b = held_for_children ?st b + ?pend b"
      using msum_del [OF p(4) A(1)] A(2) by (simp add: held_for_children_def)
    moreover have "charged_to ?st b = charged_to st b" by (simp add: charged_to_def)
    ultimately show "Ledger_inv (ledger B) \<and> limit (ledger B) = acc_limit B \<and>
        used (ledger B) = charged_to ?st b \<and> reserved (ledger B) = held_for_children ?st b + ?pend b"
      using figuresD [OF p(3) b] by simp
  qed
  ultimately show ?thesis using p(1) by (simp add: acct_mid_def)
qed

lemma Account_drop_inv:
  assumes inv: "acct_inv root lim st" and A: "accounts st a = Some A" "parent A \<noteq> None"
    and kids: "\<forall>b B. accounts st b = Some B \<longrightarrow> parent B \<noteq> Some a"
    and none: "\<forall>c ch. charges st c = Some ch \<longrightarrow> charge_account ch \<noteq> a"
  shows "acct_inv root lim (Account_drop st a)"
proof -
  obtain par where par: "parent A = Some par" using A(2) by auto
  have mid: "acct_mid root lim (\<lambda>_. 0) st" using inv by (simp add: acct_inv_mid)
  note p = mid_parts [OF mid]
  have r: "refs_ok root lim (skel st) (owner st)" using p(2) by (simp add: acct_refs_def)
  have "used (ledger A) = 0"
    using figuresD(3) [OF p(3) A(1)] none by (auto simp: charged_to_def msum_def dom_def)
  have "a \<noteq> root" using r A par unfolding refs_ok_def by (auto simp: skel_def)
  then obtain P where P: "accounts st par = Some P" "par \<noteq> a"
    using r A par unfolding refs_ok_def by (fastforce simp: skel_def)
  let ?d = "st\<lparr>accounts := (accounts st)(a := None)\<rparr>"
  have midd: "acct_mid root lim ((\<lambda>_. 0)(par := acc_limit A)) ?d"
    by (rule del_account_mid [OF inv A(1) par kids none])
  have Pd: "accounts ?d par = Some P" using P by simp
  let ?L = "(ledger P)\<lparr>reserved := reserved (ledger P) - acc_limit A\<rparr>"
  have un: "Ledger_unreserve (ledger P) (acc_limit A) = (Inr (), ?L)"
      "acct_mid root lim (\<lambda>_. 0) (set_ledger ?d par ?L)"
    using unreserve_mid [OF midd Pd, of "acc_limit A"] by (simp_all add: fun_upd_idem)
  have swap: "(set_ledger st par ?L)\<lparr>accounts := (accounts (set_ledger st par ?L))(a := None)\<rparr>
      = set_ledger ?d par ?L"
    using P by (simp add: set_ledger_def fun_upd_twist)
  show ?thesis
  proof (cases "acc_record A")
    case None
    then show ?thesis
      using A(1) \<open>used (ledger A) = 0\<close> par P un swap by (simp add: Account_drop_def acct_inv_mid)
  next
    case (Some c)
    then have eq: "Account_drop st a = Charge_drop (set_ledger ?d par ?L) c"
      using A(1) \<open>used (ledger A) = 0\<close> par P un(1) swap by (simp add: Account_drop_def)
    have sa: "skel st a = Some (Some par, acc_limit A, Some c)" using A(1) par Some by (simp add: skel_def)
    then have "owner st c \<noteq> None" using r unfolding refs_ok_def by blast
    then have ch: "\<exists>ch. charges st c = Some ch" by (simp add: owner_def)
    have "\<not> is_record ?d c"
      using r sa unfolding refs_ok_def is_record_def by (auto simp: skel_def split: if_splits)
    then have "\<not> is_record (set_ledger ?d par ?L) c"
      using P by (auto simp: is_record_def split: if_splits)
    then show ?thesis
      using Charge_drop_mid [OF un(2)] ch eq by (auto simp: acct_inv_mid)
  qed
qed

subsection \<open>The accounts never pass the machine's limit\<close>

lemma acct_step_inv:
  assumes "acct_inv root lim st" "acct_step st st'"
  shows "acct_inv root lim st'"
  using assms(2,1)
proof (cases rule: acct_step.cases)
  case (step_carve self payer a c n name)
  then show ?thesis using carve_inv [OF assms(1)] by simp
next
  case (step_new a c bytes)
  then show ?thesis using Charge_new_mid [of root lim "\<lambda>_. 0" st] assms(1) by (auto simp: acct_inv_mid)
next
  case (step_grow c bytes)
  then show ?thesis using Charge_grow_mid [of root lim "\<lambda>_. 0" st] assms(1) by (auto simp: acct_inv_mid)
next
  case (step_settle c ch cost)
  then show ?thesis using settle_total_mid [of root lim "\<lambda>_. 0" st] assms(1) by (auto simp: acct_inv_mid)
next
  case (step_drop_charge c)
  then show ?thesis using Charge_drop_mid [of root lim "\<lambda>_. 0" st] assms(1) by (auto simp: acct_inv_mid)
next
  case (step_drop_account a A)
  then show ?thesis using Account_drop_inv [OF assms(1)] by simp
qed

lemma machine_inv:
  assumes "lim < U64"
  shows "acct_inv root lim (Account_machine root lim)"
proof -
  let ?st = "Account_machine root lim"
  have "skel ?st = [root \<mapsto> (None, lim, None)]" "owner ?st = Map.empty"
    by (auto simp: skel_def owner_def Account_machine_def)
  then have "acct_refs root lim ?st" by (simp add: acct_refs_def refs_ok_def)
  moreover have "acct_figures (\<lambda>_. 0) ?st"
    using Ledger_new_inv [OF assms]
    by (auto simp: acct_figures_def charged_to_def held_for_children_def Account_machine_def msum_def
        Ledger_new_def)
  ultimately show ?thesis by (simp add: acct_inv_def Account_machine_def)
qed

interpretation acs: transition_system "\<lambda>st. st = Account_machine root lim \<and> lim < U64" acct_step
    "acct_inv root lim" for root lim
  by unfold_locales (auto intro: machine_inv acct_step_inv)

text \<open>What every charge holds together: at most the machine's limit.\<close>

lemma total_charged:
  assumes "acct_inv root lim st"
  shows "msum charge_bytes (charges st) + msum (\<lambda>A. if parent A = None then 0 else acc_limit A) (accounts st)
    \<le> msum acc_limit (accounts st)"
proof -
  have mid: "acct_mid root lim (\<lambda>_. 0) st" using assms by (simp add: acct_inv_mid)
  note p = mid_parts [OF mid]
  let ?D = "dom (accounts st)"
  have "charge_account ch \<in> ?D" if "charges st c = Some ch" for c ch
    using charge_account_there [OF mid that] by blast
  then have c: "(\<Sum>a \<in> ?D. charged_to st a) = msum charge_bytes (charges st)"
    unfolding charged_to_def by (rule msum_group [OF p(4)])
  have par: "parent A = None \<or> (\<exists>q. parent A = Some q \<and> q \<in> ?D)" if "accounts st a = Some A" for a A
  proof -
    have r: "refs_ok root lim (skel st) (owner st)" using p(2) by (simp add: acct_refs_def)
    have sa: "skel st a = Some (parent A, acc_limit A, acc_record A)" using that by (simp add: skel_def)
    show ?thesis
    proof (cases "a = root")
      case True
      have "\<exists>x. skel st root = Some (None, lim, x)" using r by (simp add: refs_ok_def)
      then show ?thesis using True sa by auto
    next
      case False
      then show ?thesis using r sa unfolding refs_ok_def dom_skel by blast
    qed
  qed
  have "(\<Sum>a \<in> ?D. held_for_children st a) =
      (\<Sum>a \<in> ?D. msum (\<lambda>A. if parent A = Some a then (if parent A = None then 0 else acc_limit A) else 0)
        (accounts st))"
    unfolding held_for_children_def msum_def by (intro sum.cong refl) auto
  also have "\<dots> = (\<Sum>x \<in> Some ` ?D \<union> {None}.
      msum (\<lambda>A. if parent A = x then (if parent A = None then 0 else acc_limit A) else 0) (accounts st))"
    using p(4) by (simp add: sum.reindex) (auto simp: msum_def intro!: sum.neutral)
  also have "\<dots> = msum (\<lambda>A. if parent A = None then 0 else acc_limit A) (accounts st)"
    by (rule msum_group) (use p(4) par in auto)
  finally have h: "(\<Sum>a \<in> ?D. held_for_children st a) =
      msum (\<lambda>A. if parent A = None then 0 else acc_limit A) (accounts st)" .
  have "charged_to st a + held_for_children st a \<le> acc_limit (acct st a)" if "a \<in> ?D" for a
    using that figuresD [OF p(3)] by (fastforce simp: Ledger_inv_def)
  then have "(\<Sum>a \<in> ?D. charged_to st a + held_for_children st a) \<le> (\<Sum>a \<in> ?D. acc_limit (acct st a))"
    by (rule sum_mono)
  then show ?thesis using c h by (simp add: sum.distrib msum_def)
qed

lemma charged_below_limit:
  assumes inv: "acct_inv root lim st"
  shows "msum charge_bytes (charges st) \<le> lim"
proof -
  have mid: "acct_mid root lim (\<lambda>_. 0) st" using inv by (simp add: acct_inv_mid)
  note p = mid_parts [OF mid]
  have r: "refs_ok root lim (skel st) (owner st)" using p(2) by (simp add: acct_refs_def)
  then obtain R where R: "accounts st root = Some R" "parent R = None" "acc_limit R = lim"
    by (auto simp: refs_ok_def skel_def)
  let ?m = "(accounts st)(root := None)"
  have "parent A \<noteq> None" if "accounts st a = Some A" "a \<noteq> root" for a A
  proof -
    have "skel st a = Some (parent A, acc_limit A, acc_record A)" using that by (simp add: skel_def)
    then show ?thesis using r that(2) unfolding refs_ok_def by blast
  qed
  then have "msum (\<lambda>A. if parent A = None then 0 else acc_limit A) ?m = msum acc_limit ?m"
    unfolding msum_def by (intro sum.cong refl) (fastforce split: if_splits)
  then show ?thesis
    using total_charged [OF inv] msum_del [OF p(4) R(1), of acc_limit]
      msum_del [OF p(4) R(1), of "\<lambda>A. if parent A = None then 0 else acc_limit A"] R(2,3) by simp
qed

text \<open>
  C5. The machine is never overcommitted. In every state that carving accounts, making, growing,
  settling and dropping charges, and dropping accounts reach from the machine's account alone: all
  charges held together are at most the machine's limit; for each account, what is charged to it
  is exactly the charges that name it, what it holds is exactly its children's limits, and the
  two together are at most its limit; and the kernel never finds its accounting broken.
\<close>

theorem accounts_never_overcommit:
  assumes "lim < U64" "rtranclp acct_step (Account_machine root lim) st"
  shows "msum charge_bytes (charges st) \<le> lim \<and> \<not> broken st \<and>
    (accounts st a = Some A \<longrightarrow>
      used (ledger A) = msum (\<lambda>ch. if charge_account ch = a then charge_bytes ch else 0) (charges st) \<and>
      reserved (ledger A) = msum (\<lambda>B. if parent B = Some a then acc_limit B else 0) (accounts st) \<and>
      used (ledger A) + reserved (ledger A) \<le> acc_limit A)"
proof -
  have inv: "acct_inv root lim st" using acs.reachable_good assms by blast
  then have "acct_figures (\<lambda>_. 0) st" "\<not> broken st" by (simp_all add: acct_inv_def)
  then show ?thesis
    using charged_below_limit [OF inv] figuresD [of "\<lambda>_. 0" st a A]
    by (auto simp: charged_to_def held_for_children_def Ledger_inv_def)
qed

theorem accounts_never_overcommit_witness:
  "let st = snd (Charge_new (snd (carve (Account_machine 0 0x100000) 0 [0x61] 0x10000 0 1 0)) 1 0x2000 1) in
    rtranclp acct_step (Account_machine 0 0x100000) st \<and>
    msum charge_bytes (charges st) \<le> 0x100000 \<and> \<not> broken st"
proof -
  let ?s0 = "Account_machine 0 0x100000"
  let ?s1 = "snd (carve ?s0 0 [0x61] 0x10000 0 1 0)"
  let ?s2 = "snd (Charge_new ?s1 1 0x2000 1)"
  have a: "accounts ?s1 1 \<noteq> None" "charges ?s1 1 = None"
    by (simp_all add: carve_def Charge_new_def Account_charge_def try_charge_def Account_machine_def
        Ledger_reserve_def Ledger_charge_def Ledger_fits_def Ledger_new_def checked_add_def wadd_def
        set_ledger_def valid_name_def name_byte_def NAME_MAX_def aligned_def PAGE_SIZE_def U64_def
        charge_OBJECT_def)
  have "acct_step ?s0 ?s1"
    by (rule acct_step.step_carve) (simp_all add: Account_machine_def U64_def)
  moreover have "acct_step ?s1 ?s2" by (rule acct_step.step_new) (use a in \<open>simp_all add: U64_def\<close>)
  ultimately have r: "rtranclp acct_step ?s0 ?s2" by simp
  show ?thesis using accounts_never_overcommit [OF _ r, of 0] r by (simp add: U64_def Let_def)
qed

lemma carve_result:
  assumes inv: "acct_inv root lim st"
    and S: "accounts st self = Some S" and P: "accounts st payer = Some P" and n: "n \<le> room (ledger S)"
    and valid: "valid_name name" "n \<noteq> 0" "aligned n"
  defines "L \<equiv> (ledger S)\<lparr>reserved := reserved (ledger S) + n\<rparr>"
  defines "P1 \<equiv> (if self = payer then S\<lparr>ledger := L\<rparr> else P)"
  shows "carve st self name n payer a c =
    (if charge_OBJECT \<le> room (ledger P1)
     then (Inr a, ((set_ledger (set_ledger st self L) payer (with_used (ledger P1) charge_OBJECT))
       \<lparr>charges := (charges st)(c \<mapsto> \<lparr>charge_account = payer, charge_bytes = charge_OBJECT\<rparr>)\<rparr>)
       \<lparr>accounts := (accounts (set_ledger (set_ledger st self L) payer (with_used (ledger P1) charge_OBJECT)))
         (a \<mapsto> \<lparr>acc_name = name, ledger = Ledger_new n, parent = Some self, acc_limit = n,
                acc_record = Some c\<rparr>)\<rparr>)
     else (Inl QuotaExceeded, st))"
proof -
  have mid: "acct_mid root lim (\<lambda>_. 0) st" using inv by (simp add: acct_inv_mid)
  note f = figuresD [OF mid_parts(3) [OF mid] S]
  let ?st1 = "set_ledger st self L"
  have res: "Ledger_reserve (ledger S) n = (Inr (), L)" using f(1) n by (simp add: L_def ledger_simps)
  have fig: "acct_figures ((\<lambda>_. 0)(self := n)) ?st1"
    using mid_parts(3) [OF reserve_mid [OF mid S n]] by (simp add: L_def)
  have P1: "accounts ?st1 payer = Some P1" using S P by (auto simp: P1_def)
  show ?thesis
  proof (cases "charge_OBJECT \<le> room (ledger P1)")
    case True
    then show ?thesis using valid S res Charge_new_granted [OF fig P1 True] by (simp add: carve_def)
  next
    case False
    have "Ledger_unreserve L n = (Inr (), ledger S)" by (simp add: L_def ledger_simps)
    then show ?thesis
      using False valid S res Charge_new_refused [OF fig P1]
      by (simp add: carve_def set_ledger_twice set_ledger_same)
  qed
qed

text \<open>
  C18. Carving an account is all or nothing: refused, it leaves every account and every charge as
  they were, whatever the reason and even where parent and payer are one account; granted, the new
  account has the name and limit asked for and nothing charged, its parent holds its whole limit,
  and one object's charge was paid. It is refused only for a bad name or limit (\<open>InvalidArgs\<close>), or
  where the parent's or the payer's room is short (\<open>QuotaExceeded\<close>).
\<close>

theorem carve_all_or_nothing:
  assumes inv: "acct_inv root lim st"
    and there: "accounts st self = Some S" "accounts st payer = Some P"
    and new: "accounts st a = None" "charges st c = None" "n < U64"
    and res: "carve st self name n payer a c = (r, st')"
  shows "(\<forall>e. r = Inl e \<longrightarrow> st' = st \<and>
      e = (if valid_name name \<and> n \<noteq> 0 \<and> aligned n then QuotaExceeded else InvalidArgs)) \<and>
    (\<forall>b. r = Inr b \<longrightarrow> b = a \<and> acct_inv root lim st' \<and>
      (\<exists>A. accounts st' a = Some A \<and> acc_name A = name \<and> acc_limit A = n \<and>
        used (ledger A) = 0 \<and> reserved (ledger A) = 0 \<and> parent A = Some self) \<and>
      reserved (ledger_of st' self) = reserved (ledger S) + n \<and>
      used (ledger_of st' payer) = used (ledger P) + charge_OBJECT) \<and>
    ((\<exists>b. r = Inr b) \<longleftrightarrow> valid_name name \<and> n \<noteq> 0 \<and> aligned n \<and> n \<le> room (ledger S) \<and>
      charge_OBJECT + (if self = payer then n else 0) \<le> room (ledger P))"
proof (cases "valid_name name \<and> n \<noteq> 0 \<and> aligned n \<and> n \<le> room (ledger S)")
  case False
  then have "r = Inl (if valid_name name \<and> n \<noteq> 0 \<and> aligned n then QuotaExceeded else InvalidArgs) \<and> st' = st"
    using res there(1) figuresD(1) [of "\<lambda>_. 0" st self S] inv
    by (auto simp: carve_def acct_inv_def ledger_simps set_ledger_same split: if_splits)
  then show ?thesis using False by auto
next
  case True
  let ?P1 = "if self = payer then S\<lparr>ledger := (ledger S)\<lparr>reserved := reserved (ledger S) + n\<rparr>\<rparr> else P"
  note cr = carve_result [OF inv there, of n name a c]
  have room: "charge_OBJECT \<le> room (ledger ?P1) \<longleftrightarrow>
      charge_OBJECT + (if self = payer then n else 0) \<le> room (ledger P)"
    using there True by (auto simp: room_def charge_OBJECT_def)
  have ne: "a \<noteq> self" "a \<noteq> payer" using new there by auto
  show ?thesis
  proof (cases "charge_OBJECT \<le> room (ledger ?P1)")
    case False
    then have "r = Inl QuotaExceeded" "st' = st" using cr res True by auto
    then show ?thesis using False room True by auto
  next
    case fits: True
    have "acct_inv root lim st'"
      using carve_inv [OF inv, of self payer a c n name] there new res by simp
    moreover have "r = Inr a" using cr res True fits by auto
    moreover have "\<exists>A. accounts st' a = Some A \<and> acc_name A = name \<and> acc_limit A = n \<and>
        used (ledger A) = 0 \<and> reserved (ledger A) = 0 \<and> parent A = Some self"
      using cr res True fits by (auto simp: Ledger_new_def)
    moreover have "reserved (ledger_of st' self) = reserved (ledger S) + n"
      using cr res True fits ne there by (auto split: if_splits)
    moreover have "used (ledger_of st' payer) = used (ledger P) + charge_OBJECT"
      using cr res True fits ne there by (auto split: if_splits)
    ultimately show ?thesis using fits room True by auto
  qed
qed

theorem carve_all_or_nothing_witness:
  "let st = Account_machine 0 0x100000 in
    fst (carve st 0 [0x61] 0x10000 0 1 0) = Inr 1 \<and>
    reserved (ledger_of (snd (carve st 0 [0x61] 0x10000 0 1 0)) 0) = 0x10000 \<and>
    carve st 0 [0x61] 0x100000 0 1 0 = (Inl QuotaExceeded, st)"
proof -
  let ?st = "Account_machine 0 0x100000"
  obtain S where S: "accounts ?st 0 = Some S" "room (ledger S) = 0x100000" "reserved (ledger S) = 0"
    by (simp add: Account_machine_def Ledger_new_def room_def)
  have v: "valid_name [0x61]" "aligned 0x10000" "aligned 0x100000"
    by (simp_all add: valid_name_def name_byte_def NAME_MAX_def aligned_def PAGE_SIZE_def)
  have inv: "acct_inv 0 0x100000 ?st" by (rule machine_inv) (simp add: U64_def)
  have new: "accounts ?st 1 = None" "charges ?st 0 = None" by (simp_all add: Account_machine_def)
  obtain r1 s1 where one: "carve ?st 0 [0x61] 0x10000 0 1 0 = (r1, s1)" by force
  obtain r2 s2 where two: "carve ?st 0 [0x61] 0x100000 0 1 0 = (r2, s2)" by force
  show ?thesis
    using carve_all_or_nothing [OF inv S(1) S(1) new _ one] carve_all_or_nothing [OF inv S(1) S(1) new _ two]
      S v one two
    by (cases r1; cases r2) (auto simp: U64_def charge_OBJECT_def Let_def valid_name_def)
qed

end
