(* ===== verification/OrdMap.thy ===== *)
theory OrdMap
  imports Prelude
begin

text \<open>
  Rust's \<open>BTreeMap\<close> as the kernel uses it: a list of key and value pairs in ascending order of key,
  with the lookups by range that the address space and the clock make. \<open>ordered_map\<close> is the contract
  the components rely on.
\<close>

type_synonym ('k, 'v) bmap = "('k \<times> 'v) list"

definition bt_inv :: "('k::linorder, 'v) bmap \<Rightarrow> bool" where
  "bt_inv m \<longleftrightarrow> sorted_wrt (<) (map fst m)"

definition bt_get :: "('k, 'v) bmap \<Rightarrow> 'k \<Rightarrow> 'v option" where
  "bt_get m k = map_of m k"

fun bt_insert :: "'k::linorder \<Rightarrow> 'v \<Rightarrow> ('k, 'v) bmap \<Rightarrow> ('k, 'v) bmap" where
  "bt_insert k v [] = [(k, v)]"
| "bt_insert k v ((j, w) # m) =
     (if k < j then (k, v) # (j, w) # m
      else if k = j then (k, v) # m
      else (j, w) # bt_insert k v m)"

definition bt_remove :: "'k \<Rightarrow> ('k, 'v) bmap \<Rightarrow> ('k, 'v) bmap" where
  "bt_remove k m = filter (\<lambda>p. fst p \<noteq> k) m"

text \<open>\<open>range(..x)\<close> and its last entry; \<open>range(x..)\<close> and its first; \<open>range(x..y)\<close>.\<close>

definition bt_to :: "'k::linorder \<Rightarrow> ('k, 'v) bmap \<Rightarrow> ('k, 'v) bmap" where
  "bt_to x m = filter (\<lambda>p. fst p < x) m"

definition bt_from :: "'k::linorder \<Rightarrow> ('k, 'v) bmap \<Rightarrow> ('k, 'v) bmap" where
  "bt_from x m = filter (\<lambda>p. x \<le> fst p) m"

definition bt_range :: "'k::linorder \<Rightarrow> 'k \<Rightarrow> ('k, 'v) bmap \<Rightarrow> ('k, 'v) bmap" where
  "bt_range x y m = filter (\<lambda>p. x \<le> fst p \<and> fst p < y) m"

definition last_opt :: "'a list \<Rightarrow> 'a option" where
  "last_opt xs = (if xs = [] then None else Some (last xs))"

definition first_opt :: "'a list \<Rightarrow> 'a option" where
  "first_opt xs = (case xs of [] \<Rightarrow> None | x # _ \<Rightarrow> Some x)"

abbreviation bt_below :: "'k::linorder \<Rightarrow> ('k, 'v) bmap \<Rightarrow> ('k \<times> 'v) option" where
  "bt_below x m \<equiv> last_opt (bt_to x m)"

abbreviation bt_above :: "'k::linorder \<Rightarrow> ('k, 'v) bmap \<Rightarrow> ('k \<times> 'v) option" where
  "bt_above x m \<equiv> first_opt (bt_from x m)"

subsection \<open>Contract\<close>

locale ordered_map =
  fixes inv :: "'m \<Rightarrow> bool"
    and look :: "'m \<Rightarrow> 'k::linorder \<Rightarrow> 'v option"
    and upd :: "'k \<Rightarrow> 'v \<Rightarrow> 'm \<Rightarrow> 'm"
    and del :: "'k \<Rightarrow> 'm \<Rightarrow> 'm"
    and below above :: "'k \<Rightarrow> 'm \<Rightarrow> ('k \<times> 'v) option"
  assumes inv_upd: "inv m \<Longrightarrow> inv (upd k v m)"
    and inv_del: "inv m \<Longrightarrow> inv (del k m)"
    and look_upd: "inv m \<Longrightarrow> look (upd k v m) = (look m)(k \<mapsto> v)"
    and look_del: "inv m \<Longrightarrow> look (del k m) = (look m)(k := None)"
    and below_Some: "inv m \<Longrightarrow> below x m = Some (k, v) \<longleftrightarrow>
      look m k = Some v \<and> k < x \<and> (\<forall>j \<in> dom (look m). j < x \<longrightarrow> j \<le> k)"
    and below_None: "inv m \<Longrightarrow> below x m = None \<longleftrightarrow> (\<forall>j \<in> dom (look m). x \<le> j)"
    and above_Some: "inv m \<Longrightarrow> above x m = Some (k, v) \<longleftrightarrow>
      look m k = Some v \<and> x \<le> k \<and> (\<forall>j \<in> dom (look m). x \<le> j \<longrightarrow> k \<le> j)"
    and above_None: "inv m \<Longrightarrow> above x m = None \<longleftrightarrow> (\<forall>j \<in> dom (look m). j < x)"
begin

text \<open>Every key is at or below the one found below, at or above the one found above, or between.\<close>

lemma around:
  assumes "inv m" "j \<in> dom (look m)"
  shows "(\<exists>k v. below x m = Some (k, v) \<and> j \<le> k) \<or> (\<exists>k v. above y m = Some (k, v) \<and> k \<le> j) \<or>
    (x \<le> j \<and> j < y)"
proof -
  have "\<exists>k v. below x m = Some (k, v) \<and> j \<le> k" if "j < x"
  proof -
    have "below x m \<noteq> None" using below_None [OF assms(1), of x] assms(2) that not_le by blast
    then obtain k v where "below x m = Some (k, v)" by auto
    then show ?thesis using below_Some [OF assms(1), of x k v] assms(2) that by auto
  qed
  moreover have "\<exists>k v. above y m = Some (k, v) \<and> k \<le> j" if "y \<le> j"
  proof -
    have "above y m \<noteq> None" using above_None [OF assms(1), of y] assms(2) that not_le by blast
    then obtain k v where "above y m = Some (k, v)" by auto
    then show ?thesis using above_Some [OF assms(1), of y k v] assms(2) that by auto
  qed
  ultimately show ?thesis by force
qed

lemma below_look: "inv m \<Longrightarrow> below x m = Some (k, v) \<Longrightarrow> look m k = Some v \<and> k < x"
  by (simp add: below_Some)

lemma above_look: "inv m \<Longrightarrow> above x m = Some (k, v) \<Longrightarrow> look m k = Some v \<and> x \<le> k"
  by (simp add: above_Some)

end

subsection \<open>The sorted list meets it\<close>

lemma bt_inv_Nil [simp]: "bt_inv []"
  by (simp add: bt_inv_def)

lemma bt_inv_Cons [simp]: "bt_inv (p # m) \<longleftrightarrow> (\<forall>q \<in> set m. fst p < fst q) \<and> bt_inv m"
  by (auto simp: bt_inv_def)

lemma bt_inv_filter: "bt_inv m \<Longrightarrow> bt_inv (filter P m)"
  by (induction m) auto

lemma bt_get_Nil [simp]: "bt_get [] k = None"
  by (simp add: bt_get_def)

lemma bt_get_Cons [simp]: "bt_get ((j, v) # m) k = (if k = j then Some v else bt_get m k)"
  by (simp add: bt_get_def)

lemma bt_get_iff: "bt_inv m \<Longrightarrow> bt_get m k = Some v \<longleftrightarrow> (k, v) \<in> set m"
  by (induction m) (force split: if_splits)+

lemma dom_bt_get: "dom (bt_get m) = fst ` set m"
proof -
  have "bt_get m = map_of m" by (simp add: bt_get_def fun_eq_iff)
  then show ?thesis by (simp add: dom_map_of_conv_image_fst)
qed

lemma finite_dom_bt_get [simp]: "finite (dom (bt_get m))"
  by (simp add: dom_bt_get)

lemma set_bt_insert: "fst ` set (bt_insert k v m) = insert k (fst ` set m)"
proof -
  have "set (map fst (bt_insert k v m)) = insert k (set (map fst m))"
    by (induction k v m rule: bt_insert.induct) auto
  then show ?thesis by simp
qed

lemma bt_insert_inv: "bt_inv m \<Longrightarrow> bt_inv (bt_insert k v m)"
proof (induction m)
  case (Cons p m)
  obtain j w where p: "p = (j, w)" by force
  have "\<forall>q \<in> set (bt_insert k v m). fst q = k \<or> fst q \<in> fst ` set m"
    using set_bt_insert [of k v m] by (metis imageI insertE)
  then show ?case using Cons p by fastforce
qed simp

lemma bt_get_insert [simp]: "bt_inv m \<Longrightarrow> bt_get (bt_insert k v m) = (bt_get m)(k \<mapsto> v)"
proof (induction m)
  case (Cons p m)
  then show ?case by (cases p) (auto simp: fun_eq_iff)
qed (simp add: fun_eq_iff)

lemma option_eqI_None: "(\<And>w. x \<noteq> Some w) \<Longrightarrow> x = None"
  by (cases x) auto

lemma bt_get_filter: "bt_inv m \<Longrightarrow> bt_get (filter P m) k = (case bt_get m k of
    Some v \<Rightarrow> (if P (k, v) then Some v else None) | None \<Rightarrow> None)"
proof -
  assume inv: "bt_inv m"
  then have *: "bt_get (filter P m) k = Some v \<longleftrightarrow> bt_get m k = Some v \<and> P (k, v)" for v
    by (simp add: bt_get_iff bt_inv_filter)
  show ?thesis
  proof (cases "bt_get m k")
    case None
    then show ?thesis using * by (cases "bt_get (filter P m) k") auto
  next
    case (Some v)
    show ?thesis
    proof (cases "P (k, v)")
      case True
      then show ?thesis using * [of v] Some by simp
    next
      case False
      then have "bt_get (filter P m) k \<noteq> Some w" for w using * [of w] Some by auto
      then have "bt_get (filter P m) k = None" by (rule option_eqI_None)
      then show ?thesis using Some False by simp
    qed
  qed
qed

lemma bt_get_remove [simp]: "bt_inv m \<Longrightarrow> bt_get (bt_remove k m) = (bt_get m)(k := None)"
  by (auto simp: bt_remove_def bt_get_filter fun_eq_iff split: option.splits)

lemma bt_remove_inv: "bt_inv m \<Longrightarrow> bt_inv (bt_remove k m)"
  by (simp add: bt_remove_def bt_inv_filter)

lemma opt_Nil [simp]: "last_opt [] = None" "first_opt [] = None"
  by (simp_all add: last_opt_def first_opt_def)

lemma last_opt_None [simp]: "last_opt xs = None \<longleftrightarrow> xs = []"
  by (simp add: last_opt_def)

lemma first_opt_None [simp]: "first_opt xs = None \<longleftrightarrow> xs = []"
  by (simp add: first_opt_def split: list.splits)

lemma bt_inv_last:
  "bt_inv m \<Longrightarrow> last_opt m = Some (k, v) \<longleftrightarrow> (k, v) \<in> set m \<and> (\<forall>q \<in> set m. fst q \<le> k)"
proof (induction m)
  case (Cons p m)
  show ?case
  proof (cases "m = []")
    case False
    then have "last_opt (p # m) = last_opt m" by (simp add: last_opt_def)
    moreover obtain q where "q \<in> set m" using False by (cases m) auto
    moreover have "\<forall>q \<in> set m. fst p < fst q" "bt_inv m" using Cons.prems by auto
    ultimately show ?thesis using Cons.IH by (cases p) (auto dest: leD less_imp_le)
  qed (auto simp: last_opt_def)
qed (simp add: last_opt_def)

lemma bt_inv_first:
  "bt_inv m \<Longrightarrow> first_opt m = Some (k, v) \<longleftrightarrow> (k, v) \<in> set m \<and> (\<forall>q \<in> set m. k \<le> fst q)"
proof (cases m)
  case (Cons p m')
  assume "bt_inv m"
  then have "\<forall>q \<in> set m'. fst p < fst q" using Cons by simp
  then show ?thesis using Cons by (cases p) (auto simp: first_opt_def dest: leD)
qed (simp add: first_opt_def)

interpretation btm: ordered_map bt_inv bt_get bt_insert bt_remove bt_below bt_above
proof unfold_locales
  fix m :: "('a::linorder, 'b) bmap" and k x :: 'a and v :: 'b
  assume inv: "bt_inv m"
  show "bt_inv (bt_insert k v m)" "bt_inv (bt_remove k m)"
    using inv by (simp_all add: bt_insert_inv bt_remove_inv)
  show "bt_get (bt_insert k v m) = (bt_get m)(k \<mapsto> v)" "bt_get (bt_remove k m) = (bt_get m)(k := None)"
    using inv by simp_all
  show "bt_below x m = Some (k, v) \<longleftrightarrow>
      bt_get m k = Some v \<and> k < x \<and> (\<forall>j \<in> dom (bt_get m). j < x \<longrightarrow> j \<le> k)"
    using inv by (auto simp: bt_inv_last bt_to_def bt_inv_filter bt_get_iff dom_bt_get)
  show "bt_below x m = None \<longleftrightarrow> (\<forall>j \<in> dom (bt_get m). x \<le> j)"
    by (auto simp: bt_to_def filter_empty_conv dom_bt_get not_less)
  show "bt_above x m = Some (k, v) \<longleftrightarrow>
      bt_get m k = Some v \<and> x \<le> k \<and> (\<forall>j \<in> dom (bt_get m). x \<le> j \<longrightarrow> k \<le> j)"
    using inv by (auto simp: bt_inv_first bt_from_def bt_inv_filter bt_get_iff dom_bt_get)
  show "bt_above x m = None \<longleftrightarrow> (\<forall>j \<in> dom (bt_get m). j < x)"
    by (auto simp: bt_from_def filter_empty_conv dom_bt_get not_le)
qed

end
