(* ===== verification/Vm.thy ===== *)
theory Vm
  imports Account OrdMap
begin

unbundle bit_operations_syntax

text \<open>
  A process's address space (\<open>kernel/core/src/vm.rs\<close>): its areas, the zero pages it has touched, its
  program break, and what it is charged. An operation takes the space and gives it back changed, as
  the code does under the space's lock.

  The page table itself belongs to OSTD, which is not part of this code. What the operations ask of
  it is a parameter, a value of \<open>Ostd\<close>: whether a cursor over a range can be had, whether a cursor
  can jump to a page, whether a page has an entry, and the frame a page is given. The ranges whose
  entries an operation takes out are logged in \<open>unmapped\<close>.

  \<open>mx\<close> is OSTD's \<open>MAX_USERSPACE_VADDR\<close>.
\<close>

type_synonym frame = nat

record Ostd =
  cursor_ok :: "u64 \<Rightarrow> u64 \<Rightarrow> bool"
  jump_ok :: "u64 \<Rightarrow> bool"
  present :: "u64 \<Rightarrow> bool"
  zeroed_frame :: "u64 \<Rightarrow> frame option"

text \<open>A memory object; \<open>mem_id\<close> is its identity (\<open>Arc::ptr_eq\<close>), \<open>mem_charge\<close> its charge in the accounts.\<close>

record MemoryObject =
  mem_id :: nat
  frames :: "frame list"
  mem_size :: u64
  mem_dma :: bool
  mem_run :: "frame option"
  mem_charge :: nat

definition MAP_BASE :: u64 where
  "MAP_BASE = IMAGE_END"

definition map_end :: "u64 \<Rightarrow> u64" where
  "map_end mx = page_floor mx"

definition is_user :: "u64 \<Rightarrow> u64 \<Rightarrow> bool" where
  "is_user mx addr \<longleftrightarrow> IMAGE_START \<le> addr \<and> addr \<le> map_end mx"

definition pages :: "u64 \<Rightarrow> u64 res" where
  "pages len =
     (case checked_add len (PAGE_SIZE - 1) of
        None \<Rightarrow> Inl OutOfRange
      | Some v \<Rightarrow> Inr (page_floor v))"

datatype Kind = Image | Stack | StartPage | Mapping | Plane

datatype Backing =
    Object MemoryObject usize bool
  | Zero
  | Device nat u64 bool

fun backing_writable :: "Backing \<Rightarrow> bool" where
  "backing_writable (Object _ _ w) = w"
| "backing_writable (Device _ _ w) = w"
| "backing_writable Zero = True"

fun advanced :: "Backing \<Rightarrow> u64 \<Rightarrow> Backing" where
  "advanced (Object memory first w) skip = Object memory (first + skip) w"
| "advanced Zero skip = Zero"
| "advanced (Device device offset w) skip = Device device (offset + skip * PAGE_SIZE) w"

record Area =
  a_end :: u64
  a_kind :: Kind
  a_prot :: "64 word"
  a_backing :: Backing

datatype Access = Read | Write | Execute

fun allows :: "64 word \<Rightarrow> Access \<Rightarrow> bool" where
  "allows prot Read \<longleftrightarrow> prot AND map_PROTECTION \<noteq> 0"
| "allows prot Write \<longleftrightarrow> prot AND map_WRITE \<noteq> 0"
| "allows prot Execute \<longleftrightarrow> prot AND map_EXECUTE \<noteq> 0"

record Brk =
  brk_start :: u64
  brk_current :: u64

text \<open>\<open>account\<close> is the ledger of the account the space is charged to.\<close>

record Space =
  areas :: "(u64, Area) bmap"
  zero :: "(u64, frame) bmap"
  brk :: "Brk option"
  tables_n :: u64
  charged :: u64
  account :: Ledger
  copied :: u64
  unmapped :: "(u64 \<times> u64) list"
  vm_broken :: bool

definition Inner_cost :: "Space \<Rightarrow> u64" where
  "Inner_cost sp =
     wadd (wadd (wmul (length (areas sp)) charge_AREA) (wmul (length (zero sp)) charge_ZERO_PAGE))
       (wmul (tables_n sp) charge_PAGE)"

definition neighbours :: "Space \<Rightarrow> u64 \<Rightarrow> u64 \<Rightarrow> u64 option \<times> u64 option" where
  "neighbours sp s e =
     (map_option (\<lambda>p. a_end (snd p)) (bt_below s (areas sp)), map_option fst (bt_above e (areas sp)))"

text \<open>\<open>Account::charge\<close> and \<open>Account::uncharge\<close> on the ledger of the space's account.\<close>

definition ledger_charge :: "Ledger \<Rightarrow> u64 \<Rightarrow> unit res \<times> Ledger" where
  "ledger_charge l bytes =
     (if bytes = 0 then (Inr (), l)
      else case Ledger_charge l bytes of
        (Inl _, l') \<Rightarrow> (Inl QuotaExceeded, l')
      | (Inr _, l') \<Rightarrow> (Inr (), l'))"

definition ledger_uncharge :: "Ledger \<Rightarrow> u64 \<Rightarrow> bool \<times> Ledger" where
  "ledger_uncharge l bytes =
     (if bytes = 0 then (False, l)
      else case Ledger_uncharge l bytes of
        (Inl _, l') \<Rightarrow> (True, l')
      | (Inr _, l') \<Rightarrow> (False, l'))"

text \<open>\<open>Space::new\<close>: the fixed charge of a space is made first and held with it.\<close>

definition Space_new :: "Ledger \<Rightarrow> Space res \<times> Ledger" where
  "Space_new l =
     (case ledger_charge l charge_SPACE of
        (Inl e, l') \<Rightarrow> (Inl e, l')
      | (Inr _, l') \<Rightarrow>
          (Inr \<lparr>areas = [], zero = [], brk = None, tables_n = 0, charged = 0, account = l', copied = 0,
                unmapped = [], vm_broken = False\<rparr>, l'))"

definition Space_charge :: "Space \<Rightarrow> u64 \<Rightarrow> unit res \<times> Space" where
  "Space_charge sp bytes =
     (case ledger_charge (account sp) bytes of
        (Inl e, l) \<Rightarrow> (Inl e, sp\<lparr>account := l\<rparr>)
      | (Inr _, l) \<Rightarrow> (Inr (), sp\<lparr>account := l, charged := wadd (charged sp) bytes\<rparr>))"

definition settle :: "Space \<Rightarrow> Space" where
  "settle sp =
     (let cost = Inner_cost sp in
      if cost > charged sp then sp\<lparr>vm_broken := True\<rparr>
      else let (b, l) = ledger_uncharge (account sp) (charged sp - cost)
           in sp\<lparr>account := l, charged := cost, vm_broken := vm_broken sp \<or> b\<rparr>)"

definition unmap_ptes :: "Space \<Rightarrow> u64 \<Rightarrow> u64 \<Rightarrow> Space" where
  "unmap_ptes sp va len =
     (if len = 0 then sp else sp\<lparr>unmapped := unmapped sp @ [(va, wadd va len)]\<rparr>)"

text \<open>\<open>Space::reclaim\<close>, over the levels from the last to the first.\<close>

fun reclaim_levels :: "(u64 \<times> u64) option list \<Rightarrow> (u64 \<times> u64) option \<Rightarrow> Space \<Rightarrow> Space" where
  "reclaim_levels [] dn sp = sp"
| "reclaim_levels (None # rs) dn sp = reclaim_levels rs dn sp"
| "reclaim_levels (Some (lo, hi) # rs) dn sp =
     (case dn of
        Some (dlo, dhi) \<Rightarrow>
          if dlo \<le> lo \<and> hi \<le> dhi then reclaim_levels rs dn sp
          else reclaim_levels rs (Some (lo, hi)) (unmap_ptes sp lo (wsub hi lo))
      | None \<Rightarrow> reclaim_levels rs (Some (lo, hi)) (unmap_ptes sp lo (wsub hi lo)))"

definition reclaim :: "Space \<Rightarrow> (u64 \<times> u64) option list \<Rightarrow> Space" where
  "reclaim sp rs = reclaim_levels (rev rs) None sp"

definition touched_areas :: "Space \<Rightarrow> u64 \<Rightarrow> u64 \<Rightarrow> (u64 \<times> Area) list" where
  "touched_areas sp va e = takeWhile (\<lambda>p. a_end (snd p) > va) (rev (bt_to e (areas sp)))"

definition touches_plane :: "Space \<Rightarrow> u64 \<Rightarrow> u64 \<Rightarrow> bool" where
  "touches_plane sp va e \<longleftrightarrow> list_ex (\<lambda>p. a_kind (snd p) = Plane) (touched_areas sp va e)"

definition area_at :: "Space \<Rightarrow> u64 \<Rightarrow> (u64 \<times> Area) option" where
  "area_at sp addr =
     (case last_opt (filter (\<lambda>p. fst p \<le> addr) (areas sp)) of
        Some (s, a) \<Rightarrow> if a_end a > addr then Some (s, a) else None
      | None \<Rightarrow> None)"

definition split :: "Space \<Rightarrow> u64 \<Rightarrow> Space" where
  "split sp at =
     (case bt_below at (areas sp) of
        Some (s, a) \<Rightarrow>
          if a_end a > at then
            let skip = (at - s) div PAGE_SIZE;
                tail = \<lparr>a_end = a_end a, a_kind = a_kind a, a_prot = a_prot a,
                        a_backing = advanced (a_backing a) skip\<rparr>
            in sp\<lparr>areas := bt_insert at tail (bt_insert s (a\<lparr>a_end := at\<rparr>) (areas sp))\<rparr>
          else sp
      | None \<Rightarrow> sp)"

definition split_bytes :: "Space \<Rightarrow> u64 \<Rightarrow> u64 \<Rightarrow> u64" where
  "split_bytes sp va e =
     wmul (length (filter (\<lambda>at. case area_at sp at of
                                  Some (s, a) \<Rightarrow> split_needed s (a_end a) at
                                | None \<Rightarrow> False) [va, e])) charge_AREA"

definition overlaps :: "Space \<Rightarrow> u64 \<Rightarrow> u64 \<Rightarrow> bool" where
  "overlaps sp va e =
     (case bt_below e (areas sp) of Some (_, a) \<Rightarrow> a_end a > va | None \<Rightarrow> False)"

text \<open>The loop of \<open>find_free\<close> over the areas from \<open>MAP_BASE\<close> up.\<close>

fun find_free_from :: "(u64 \<times> Area) list \<Rightarrow> u64 \<Rightarrow> u64 \<Rightarrow> u64" where
  "find_free_from [] len candidate = candidate"
| "find_free_from ((s, a) # rest) len candidate =
     (let fits = (case checked_add candidate len of
                    None \<Rightarrow> False
                  | Some e \<Rightarrow> (case checked_add e PAGE_SIZE of None \<Rightarrow> False | Some e' \<Rightarrow> e' \<le> s))
      in if fits then candidate
         else find_free_from rest len (max candidate (wadd (a_end a) PAGE_SIZE)))"

definition find_free :: "u64 \<Rightarrow> Space \<Rightarrow> u64 \<Rightarrow> u64 res" where
  "find_free mx sp len =
     (let candidate = find_free_from (bt_from MAP_BASE (areas sp)) len (MAP_BASE + PAGE_SIZE) in
      case checked_add candidate len of
        None \<Rightarrow> Inl Limit
      | Some e \<Rightarrow> if e > map_end mx then Inl Limit else Inr candidate)"

definition check_range :: "u64 \<Rightarrow> u64 \<Rightarrow> u64 \<Rightarrow> u64 res" where
  "check_range mx va len =
     (if len = 0 \<or> \<not> aligned va \<or> \<not> aligned len then Inl InvalidArgs
      else case checked_add va len of
        None \<Rightarrow> Inl OutOfRange
      | Some e \<Rightarrow> if va < IMAGE_START \<or> e > map_end mx then Inl OutOfRange else Inr e)"

definition check_prot :: "64 word \<Rightarrow> Backing \<Rightarrow> unit res" where
  "check_prot prot backing =
     (if prot AND NOT map_PROTECTION \<noteq> 0 then Inl InvalidArgs
      else if prot AND map_WRITE \<noteq> 0 \<and> prot AND map_EXECUTE \<noteq> 0 then Inl InvalidArgs
      else if prot AND map_WRITE \<noteq> 0 \<and> \<not> backing_writable backing then Inl AccessDenied
      else Inr ())"

text \<open>
  \<open>fill_ptes\<close>: the entries it makes are OSTD's; its result depends on the cursor, on the object
  having the pages, and on the jumps to the zero pages.
\<close>

definition fill_ptes :: "Ostd \<Rightarrow> Space \<Rightarrow> u64 \<Rightarrow> Area \<Rightarrow> u64 \<Rightarrow> u64 \<Rightarrow> unit res" where
  "fill_ptes os sp s a va e =
     (if a_prot a AND map_PROTECTION = 0 \<or> va \<ge> e then Inr ()
      else if \<not> cursor_ok os va e then Inl InvalidArgs
      else case a_backing a of
        Object memory first _ \<Rightarrow>
          let skip = (va - s) div PAGE_SIZE; n = (e - va) div PAGE_SIZE in
          (case slice (frames memory) (first + skip) (first + skip + n) of
             None \<Rightarrow> Inl OutOfRange
           | Some _ \<Rightarrow> Inr ())
      | Zero \<Rightarrow> if list_all (\<lambda>p. jump_ok os (fst p)) (bt_range va e (zero sp)) then Inr ()
               else Inl InvalidArgs
      | Device _ _ _ \<Rightarrow> Inr ())"

subsection \<open>Unmapping\<close>

text \<open>Lowering the break where the range takes out part of the heap.\<close>

definition unmap_brk :: "Brk option \<Rightarrow> u64 \<Rightarrow> u64 \<Rightarrow> Brk option" where
  "unmap_brk b va e =
     (case b of
        Some k \<Rightarrow>
          if brk_current k > va \<and> brk_start k < e
          then Some (k\<lparr>brk_current := max (min (brk_current k) va) (brk_start k)\<rparr>)
          else Some k
      | None \<Rightarrow> None)"

text \<open>
  The part of \<open>unmap\<close> after its checks and its charge: split at both ends, take out the areas and the
  zero pages of the range, give back what they cost, and unmap the range and the empty regions.
\<close>

definition unmap_body :: "u64 \<Rightarrow> Space \<Rightarrow> u64 \<Rightarrow> u64 \<Rightarrow> Space" where
  "unmap_body mx sp va e =
     (let sp1 = split (split sp va) e;
          gone = bt_range va e (areas sp1);
          sp2 = sp1\<lparr>areas := fold (\<lambda>p m. bt_remove (fst p) m) gone (areas sp1),
                    zero := fold (\<lambda>p m. bt_remove (fst p) m) (bt_range va e (zero sp1)) (zero sp1),
                    brk := unmap_brk (brk sp1) va e\<rparr>;
          pieces = map (\<lambda>p. (fst p, a_end (snd p))) gone;
          (before, after) = neighbours sp2 va e;
          freed = tables pieces before after (map_end mx);
          sp3 = settle (sp2\<lparr>tables_n := wsub (tables_n sp2) (t_pages freed)\<rparr>)
      in reclaim (unmap_ptes sp3 va (e - va)) (t_reclaim freed))"

definition unmap :: "u64 \<Rightarrow> Space \<Rightarrow> u64 \<Rightarrow> u64 \<Rightarrow> Kind option \<Rightarrow> unit res \<times> Space" where
  "unmap mx sp va len only =
     (case check_range mx va len of
        Inl er \<Rightarrow> (Inl er, sp)
      | Inr e \<Rightarrow>
          if (case only of
                Some kind \<Rightarrow> list_ex (\<lambda>p. a_kind (snd p) \<noteq> kind) (touched_areas sp va e)
              | None \<Rightarrow> False) then (Inl InvalidArgs, sp)
          else if touches_plane sp va e then (Inl InvalidArgs, sp)
          else case Space_charge sp (split_bytes sp va e) of
            (Inl er, sp1) \<Rightarrow> (Inl er, sp1)
          | (Inr _, sp1) \<Rightarrow> (Inr (), unmap_body mx sp1 va e))"

definition unmap_plane :: "u64 \<Rightarrow> Space \<Rightarrow> u64 \<Rightarrow> u64 \<Rightarrow> MemoryObject \<Rightarrow> unit res \<times> Space" where
  "unmap_plane mx sp va len memory =
     (case check_range mx va len of
        Inl er \<Rightarrow> (Inl er, sp)
      | Inr e \<Rightarrow>
          if (case bt_get (areas sp) va of
                Some a \<Rightarrow> a_kind a = Plane \<and> a_end a = e \<and>
                  (case a_backing a of Object m _ _ \<Rightarrow> mem_id m = mem_id memory | _ \<Rightarrow> False)
              | None \<Rightarrow> False)
          then
            let sp2 = sp\<lparr>areas := bt_remove va (areas sp)\<rparr>;
                (before, after) = neighbours sp2 va e;
                freed = tables [(va, e)] before after (map_end mx);
                sp3 = settle (sp2\<lparr>tables_n := wsub (tables_n sp2) (t_pages freed)\<rparr>)
            in (Inr (), reclaim (unmap_ptes sp3 va (e - va)) (t_reclaim freed))
          else (Inl BadState, sp))"

subsection \<open>Mapping\<close>

text \<open>The part of \<open>map\<close> once the place is known.\<close>

definition map_at :: "u64 \<Rightarrow> Ostd \<Rightarrow> Space \<Rightarrow> u64 \<Rightarrow> u64 \<Rightarrow> Area \<Rightarrow> u64 res \<times> Space" where
  "map_at mx os sp va len a =
     (let (before, after) = neighbours sp va (wadd va len);
          added = tables [(va, wadd va len)] before after (map_end mx)
      in case Space_charge sp (wadd charge_AREA (Tables_bytes added)) of
           (Inl er, sp1) \<Rightarrow> (Inl er, sp1)
         | (Inr _, sp1) \<Rightarrow>
             let sp2 = sp1\<lparr>tables_n := wadd (tables_n sp1) (t_pages added)\<rparr> in
             (case fill_ptes os sp2 va a va (wadd va len) of
                Inl er \<Rightarrow> (Inl er, settle (sp2\<lparr>tables_n := wsub (tables_n sp2) (t_pages added)\<rparr>))
              | Inr _ \<Rightarrow> (Inr va, sp2\<lparr>areas := bt_insert va a (areas sp2)\<rparr>)))"

text \<open>The place: as asked, with what is there unmapped first when \<open>fixed\<close>, or a free one.\<close>

definition map_place :: "u64 \<Rightarrow> Space \<Rightarrow> u64 option \<Rightarrow> u64 \<Rightarrow> bool \<Rightarrow> u64 res \<times> Space" where
  "map_place mx sp at len fixed =
     (case at of
        Some va \<Rightarrow>
          (case check_range mx va len of
             Inl er \<Rightarrow> (Inl er, sp)
           | Inr e \<Rightarrow>
               if overlaps sp va e then
                 if \<not> fixed then (Inl BadState, sp)
                 else case unmap mx sp va len None of
                   (Inl er, sp1) \<Rightarrow> (Inl er, sp1)
                 | (Inr _, sp1) \<Rightarrow> if overlaps sp1 va e then (Inl BadState, sp1) else (Inr va, sp1)
               else (Inr va, sp))
      | None \<Rightarrow> (find_free mx sp len, sp))"

definition map_area ::
  "u64 \<Rightarrow> Ostd \<Rightarrow> Space \<Rightarrow> u64 option \<Rightarrow> u64 \<Rightarrow> Kind \<Rightarrow> 64 word \<Rightarrow> Backing \<Rightarrow> bool \<Rightarrow> u64 res \<times> Space"
where
  "map_area mx os sp at len0 kind prot backing fixed =
     (case check_prot prot backing of
        Inl er \<Rightarrow> (Inl er, sp)
      | Inr _ \<Rightarrow>
          (case pages len0 of
             Inl er \<Rightarrow> (Inl er, sp)
           | Inr len \<Rightarrow>
               if len = 0 then (Inl InvalidArgs, sp)
               else case map_place mx sp at len fixed of
                 (Inl er, sp1) \<Rightarrow> (Inl er, sp1)
               | (Inr va, sp1) \<Rightarrow>
                   map_at mx os sp1 va len
                     \<lparr>a_end = wadd va len, a_kind = kind, a_prot = prot, a_backing = backing\<rparr>))"

definition map_plane :: "u64 \<Rightarrow> Ostd \<Rightarrow> Space \<Rightarrow> MemoryObject \<Rightarrow> usize \<Rightarrow> u64 \<Rightarrow> bool \<Rightarrow> u64 res \<times> Space" where
  "map_plane mx os sp memory first len write =
     map_area mx os sp None len Plane (if write then map_READ OR map_WRITE else map_READ)
       (Object memory first write) False"

subsection \<open>Protection\<close>

text \<open>The checks of \<open>protect\<close> over the areas that start below the end of the range.\<close>

fun protect_check :: "(u64 \<times> Area) list \<Rightarrow> u64 \<Rightarrow> 64 word \<Rightarrow> Kind option \<Rightarrow> u64 \<Rightarrow> u64 res" where
  "protect_check [] va prot only cursor = Inr cursor"
| "protect_check ((s, a) # rest) va prot only cursor =
     (if a_end a \<le> va then protect_check rest va prot only cursor
      else if s > cursor then Inl OutOfRange
      else if (case only of Some k \<Rightarrow> k \<noteq> a_kind a | None \<Rightarrow> False) \<or> a_kind a = Plane then Inl InvalidArgs
      else case check_prot prot (a_backing a) of
        Inl er \<Rightarrow> Inl er
      | Inr _ \<Rightarrow> protect_check rest va prot only (a_end a))"

text \<open>Filling the entries of each area of the range, up to the first failure.\<close>

fun fill_all :: "Ostd \<Rightarrow> Space \<Rightarrow> u64 list \<Rightarrow> unit res" where
  "fill_all os sp [] = Inr ()"
| "fill_all os sp (s # ss) =
     (case bt_get (areas sp) s of
        None \<Rightarrow> fill_all os sp ss
      | Some a \<Rightarrow>
          (case fill_ptes os sp s a s (a_end a) of
             Inl er \<Rightarrow> Inl er
           | Inr _ \<Rightarrow> fill_all os sp ss))"

definition set_prot :: "64 word \<Rightarrow> u64 \<Rightarrow> (u64, Area) bmap \<Rightarrow> (u64, Area) bmap" where
  "set_prot prot s m =
     (case bt_get m s of Some a \<Rightarrow> bt_insert s (a\<lparr>a_prot := prot\<rparr>) m | None \<Rightarrow> m)"

definition protect ::
  "u64 \<Rightarrow> Ostd \<Rightarrow> Space \<Rightarrow> u64 \<Rightarrow> u64 \<Rightarrow> 64 word \<Rightarrow> Kind option \<Rightarrow> unit res \<times> Space"
where
  "protect mx os sp va len prot only =
     (case check_range mx va len of
        Inl er \<Rightarrow> (Inl er, sp)
      | Inr e \<Rightarrow>
          (case protect_check (bt_to e (areas sp)) va prot only va of
             Inl er \<Rightarrow> (Inl er, sp)
           | Inr cursor \<Rightarrow>
               if cursor < e then (Inl OutOfRange, sp)
               else case Space_charge sp (split_bytes sp va e) of
                 (Inl er, sp1) \<Rightarrow> (Inl er, sp1)
               | (Inr _, sp1) \<Rightarrow>
                   let sp2 = settle (split (split sp1 va) e);
                       starts = map fst (bt_range va e (areas sp2));
                       sp3 = unmap_ptes (sp2\<lparr>areas := fold (set_prot prot) starts (areas sp2)\<rparr>) va (e - va)
                   in (fill_all os sp3 starts, sp3)))"

subsection \<open>Touching pages\<close>

definition frame_of :: "Ostd \<Rightarrow> Space \<Rightarrow> u64 \<Rightarrow> Area \<Rightarrow> u64 \<Rightarrow> frame res \<times> Space" where
  "frame_of os sp s a page =
     (case a_backing a of
        Object memory first _ \<Rightarrow>
          let index = first + (page - s) div PAGE_SIZE in
          (if index < length (frames memory) then (Inr (frames memory ! index), sp) else (Inl OutOfRange, sp))
      | Zero \<Rightarrow>
          (case bt_get (zero sp) page of
             Some f \<Rightarrow> (Inr f, sp)
           | None \<Rightarrow>
               (case Space_charge sp charge_ZERO_PAGE of
                  (Inl er, sp1) \<Rightarrow> (Inl er, sp1)
                | (Inr _, sp1) \<Rightarrow>
                    (case zeroed_frame os page of
                       None \<Rightarrow> (Inl NoMemory, settle sp1)
                     | Some f \<Rightarrow> (Inr f, sp1\<lparr>zero := bt_insert page f (zero sp1)\<rparr>))))
      | Device _ _ _ \<Rightarrow> (Inl Fault, sp))"

definition touch :: "Ostd \<Rightarrow> Space \<Rightarrow> u64 \<Rightarrow> Area \<Rightarrow> u64 \<Rightarrow> unit res \<times> Space" where
  "touch os sp s a page =
     (if \<not> cursor_ok os page (wadd page PAGE_SIZE) then (Inl InvalidArgs, sp)
      else if present os page then (Inr (), sp)
      else case frame_of os sp s a page of
        (Inl er, sp1) \<Rightarrow> (Inl er, sp1)
      | (Inr _, sp1) \<Rightarrow> if jump_ok os page then (Inr (), sp1) else (Inl InvalidArgs, sp1))"

definition fault :: "Ostd \<Rightarrow> Space \<Rightarrow> u64 \<Rightarrow> Access \<Rightarrow> bool res \<times> Space" where
  "fault os sp addr access =
     (let page = page_floor addr in
      case area_at sp page of
        None \<Rightarrow> (Inr False, sp)
      | Some (s, a) \<Rightarrow>
          if \<not> allows (a_prot a) access then (Inr False, sp)
          else case touch os sp s a page of
            (Inl er, sp1) \<Rightarrow> (Inl er, sp1)
          | (Inr _, sp1) \<Rightarrow> (Inr True, sp1))"

text \<open>The loop of \<open>populate\<close>.\<close>

function populate_from :: "Ostd \<Rightarrow> Space \<Rightarrow> u64 \<Rightarrow> u64 \<Rightarrow> bool \<Rightarrow> unit res \<times> Space" where
  "populate_from os sp page e write =
     (if page < e then
        case area_at sp page of
          None \<Rightarrow> (Inl Fault, sp)
        | Some (s, a) \<Rightarrow>
            if \<not> allows (a_prot a) (if write then Write else Read) then (Inl Fault, sp)
            else case touch os sp s a page of
              (Inl er, sp1) \<Rightarrow> (Inl er, sp1)
            | (Inr _, sp1) \<Rightarrow> populate_from os sp1 (page + PAGE_SIZE) e write
      else (Inr (), sp))"
  by pat_completeness auto
termination
  by (relation "measure (\<lambda>(os, sp, page, e, write). e - page)") (auto simp: PAGE_SIZE_def)

definition populate :: "Ostd \<Rightarrow> Space \<Rightarrow> u64 \<Rightarrow> u64 \<Rightarrow> bool \<Rightarrow> unit res \<times> Space" where
  "populate os sp va len write =
     (if len = 0 then (Inr (), sp)
      else case checked_add va len of
        None \<Rightarrow> (Inl Fault, sp)
      | Some e \<Rightarrow> populate_from os sp (page_floor va) e write)"

text \<open>
  \<open>each_page\<close>, for \<open>copy_in\<close> and \<open>copy_out\<close>: the copy of \<open>n\<close> bytes between offset \<open>within\<close> of a
  frame and offset \<open>at\<close> of the buffer is OSTD's, and \<open>copy\<close> says whether it succeeds.
\<close>

lemma each_page_less:
  "dn < len \<Longrightarrow> len - (dn + min (PAGE_SIZE + page_floor v - v) (len - dn)) < len - dn"
proof -
  assume "dn < len"
  moreover from this have "0 < min (PAGE_SIZE + page_floor v - v) (len - dn)"
    using page_floor_gt [of v] by simp
  ultimately show ?thesis by linarith
qed

function each_page ::
  "Ostd \<Rightarrow> (frame \<Rightarrow> usize \<Rightarrow> usize \<Rightarrow> usize \<Rightarrow> bool) \<Rightarrow> Space \<Rightarrow> u64 \<Rightarrow> usize \<Rightarrow> bool \<Rightarrow> usize \<Rightarrow>
   unit res \<times> Space"
where
  "each_page os copy sp va len write dn =
     (if dn < len then
        case checked_add va dn of
          None \<Rightarrow> (Inl Fault, sp)
        | Some at \<Rightarrow>
            let page = page_floor at;
                within = at - page;
                n = min (PAGE_SIZE - within) (len - dn) in
            (case area_at sp page of
               None \<Rightarrow> (Inl Fault, sp)
             | Some (s, a) \<Rightarrow>
                 if \<not> allows (a_prot a) (if write then Write else Read) then (Inl Fault, sp)
                 else case frame_of os sp s a page of
                   (Inl er, sp1) \<Rightarrow> (Inl er, sp1)
                 | (Inr f, sp1) \<Rightarrow>
                     (case (if a_backing a = Zero then touch os sp1 s a page else (Inr (), sp1)) of
                        (Inl er, sp2) \<Rightarrow> (Inl er, sp2)
                      | (Inr _, sp2) \<Rightarrow>
                          if \<not> copy f within dn n then (Inl Fault, sp2)
                          else each_page os copy (sp2\<lparr>copied := wadd (copied sp2) n\<rparr>) va len write (dn + n)))
      else (Inr (), sp))"
  by pat_completeness auto
termination
  by (relation "measure (\<lambda>(os, copy, sp, va, len, write, dn). len - dn)") (auto simp: each_page_less)

subsection \<open>The program break\<close>

definition set_brk :: "Space \<Rightarrow> u64 \<Rightarrow> unit res \<times> Space" where
  "set_brk sp start =
     (case pages start of
        Inl er \<Rightarrow> (Inl er, sp)
      | Inr st \<Rightarrow>
          if brk sp \<noteq> None then (Inl BadState, sp)
          else (Inr (), sp\<lparr>brk := Some \<lparr>brk_start = st, brk_current = st\<rparr>\<rparr>))"

definition reset_brk :: "Space \<Rightarrow> u64 \<Rightarrow> unit res \<times> Space" where
  "reset_brk sp start =
     (let sp1 = sp\<lparr>brk := None\<rparr> in
      if start = 0 then (Inr (), sp1)
      else case pages start of
        Inl er \<Rightarrow> (Inl er, sp1)
      | Inr st \<Rightarrow>
          if area_at sp1 st \<noteq> None then (Inl BadState, sp1)
          else (Inr (), sp1\<lparr>brk := Some \<lparr>brk_start = st, brk_current = st\<rparr>\<rparr>))"

definition Space_brk :: "u64 \<Rightarrow> Ostd \<Rightarrow> Space \<Rightarrow> u64 \<Rightarrow> u64 \<times> Space" where
  "Space_brk mx os sp want =
     (case brk sp of
        None \<Rightarrow> (0, sp)
      | Some b \<Rightarrow>
          if want < brk_start b then (brk_current b, sp)
          else case (pages (brk_current b), pages want) of
            (Inr have, Inr need) \<Rightarrow>
              if need > MAP_BASE then (brk_current b, sp)
              else
                let (moved, sp1) =
                  (if need > have then
                     (case map_area mx os sp (Some have) (need - have) Mapping (map_READ OR map_WRITE) Zero False of
                        (Inl er, sp1) \<Rightarrow> (Inl er, sp1)
                      | (Inr _, sp1) \<Rightarrow> (Inr (), sp1))
                   else if need < have then unmap mx sp need (have - need) None
                   else (Inr (), sp))
                in (case moved of
                      Inl _ \<Rightarrow> (brk_current b, sp1)
                    | Inr _ \<Rightarrow>
                        (want, (case brk sp1 of
                                  Some k \<Rightarrow> sp1\<lparr>brk := Some (k\<lparr>brk_current := want\<rparr>)\<rparr>
                                | None \<Rightarrow> sp1)))
          | _ \<Rightarrow> (brk_current b, sp))"

subsection \<open>Discarding and ending\<close>

fun discard_check :: "(u64 \<times> Area) list \<Rightarrow> u64 \<Rightarrow> u64 \<Rightarrow> u64 res" where
  "discard_check [] va cursor = Inr cursor"
| "discard_check ((s, a) # rest) va cursor =
     (if a_end a \<le> va then discard_check rest va cursor
      else if s > cursor then Inl OutOfRange
      else if a_kind a = Plane then Inl InvalidArgs
      else discard_check rest va (a_end a))"

definition discard :: "u64 \<Rightarrow> Space \<Rightarrow> u64 \<Rightarrow> u64 \<Rightarrow> unit res \<times> Space" where
  "discard mx sp va len =
     (case check_range mx va len of
        Inl er \<Rightarrow> (Inl er, sp)
      | Inr e \<Rightarrow>
          (case discard_check (bt_to e (areas sp)) va va of
             Inl er \<Rightarrow> (Inl er, sp)
           | Inr cursor \<Rightarrow>
               if cursor < e then (Inl OutOfRange, sp)
               else
                 let sp1 = sp\<lparr>zero := fold (\<lambda>p m. bt_remove (fst p) m) (bt_range va e (zero sp)) (zero sp)\<rparr>
                 in (Inr (), unmap_ptes (settle sp1) va (e - va))))"

definition clear :: "u64 \<Rightarrow> Space \<Rightarrow> Space" where
  "clear mx sp =
     unmap_ptes (settle (sp\<lparr>brk := None, tables_n := 0, areas := [], zero := []\<rparr>)) 0 (map_end mx)"

end
