(* ===== verification/VmAreas.thy ===== *)
theory VmAreas
  imports Vm
begin

unbundle bit_operations_syntax

text \<open>
  How the areas of a space are laid out, and what each page of it is: the abstract page map that
  mapping, unmapping and protecting refine. Splitting an area changes neither.
\<close>

named_theorems vm_lists \<open>the ranges of a laid-out list of areas\<close>

subsection \<open>Layout\<close>

definition area_ok :: "u64 \<Rightarrow> u64 \<times> Area \<Rightarrow> bool" where
  "area_ok mx p \<longleftrightarrow>
     aligned (fst p) \<and> aligned (a_end (snd p)) \<and> IMAGE_START \<le> fst p \<and> fst p < a_end (snd p) \<and>
     a_end (snd p) \<le> map_end mx \<and> check_prot (a_prot (snd p)) (a_backing (snd p)) = Inr ()"

definition laid_out :: "u64 \<Rightarrow> (u64, Area) bmap \<Rightarrow> bool" where
  "laid_out mx m \<longleftrightarrow>
     sorted_wrt (\<lambda>p q. a_end (snd p) \<le> fst q) m \<and> (\<forall>p \<in> set m. area_ok mx p)"

definition spans :: "(u64, Area) bmap \<Rightarrow> (u64 \<times> u64) set" where
  "spans m = (\<lambda>p. (fst p, a_end (snd p))) ` set m"

lemma laid_out_Nil [simp]: "laid_out mx []"
  by (simp add: laid_out_def)

lemma laid_out_Cons:
  "laid_out mx (p # m) \<longleftrightarrow> area_ok mx p \<and> (\<forall>q \<in> set m. a_end (snd p) \<le> fst q) \<and> laid_out mx m"
  by (auto simp: laid_out_def)

lemma laid_out_append:
  "laid_out mx (l @ r) \<longleftrightarrow> laid_out mx l \<and> laid_out mx r \<and>
     (\<forall>p \<in> set l. \<forall>q \<in> set r. a_end (snd p) \<le> fst q)"
  by (auto simp: laid_out_def sorted_wrt_append)

lemma area_ok_less: "area_ok mx p \<Longrightarrow> fst p < a_end (snd p)"
  by (simp add: area_ok_def)

lemma laid_out_bt_inv: "laid_out mx m \<Longrightarrow> bt_inv m"
proof (induction m)
  case (Cons p m)
  then have "a_end (snd p) \<le> fst q" "fst p < a_end (snd p)" if "q \<in> set m" for q
    using that by (auto simp: laid_out_Cons area_ok_def)
  then show ?case using Cons by (fastforce simp: laid_out_Cons)
qed simp

lemma laid_out_filter: "laid_out mx m \<Longrightarrow> laid_out mx (filter P m)"
  by (auto simp: laid_out_def sorted_wrt_filter)

text \<open>A sorted list is the part below an address and the part from it up.\<close>

lemma to_from: "bt_inv m \<Longrightarrow> m = bt_to x m @ bt_from x m"
proof (induction m)
  case (Cons p m)
  show ?case
  proof (cases "fst p < x")
    case True
    then show ?thesis using Cons by (simp add: bt_to_def bt_from_def)
  next
    case False
    then have "\<forall>q \<in> set m. \<not> fst q < x" using Cons.prems by fastforce
    then show ?thesis using False by (simp add: bt_to_def bt_from_def not_less)
  qed
qed (simp add: bt_to_def bt_from_def)

lemma bt_insert_replace:
  "bt_inv (l @ (k, w) # r) \<Longrightarrow> bt_insert k v (l @ (k, w) # r) = l @ (k, v) # r"
  by (induction l) auto

lemma bt_insert_middle:
  "bt_inv (l @ r) \<Longrightarrow> \<forall>q \<in> set l. fst q < k \<Longrightarrow> \<forall>q \<in> set r. k < fst q \<Longrightarrow>
    bt_insert k v (l @ r) = l @ (k, v) # r"
proof (induction l)
  case Nil
  then show ?case by (cases r) auto
qed auto

lemma bt_remove_list:
  "fold (\<lambda>p m. bt_remove (fst p) m) ps m = filter (\<lambda>q. fst q \<notin> fst ` set ps) m"
  by (induction ps arbitrary: m) (auto simp: bt_remove_def intro!: filter_cong)

lemma remove_range:
  "fold (\<lambda>p m. bt_remove (fst p) m) (bt_range x y m) m = filter (\<lambda>q. \<not> (x \<le> fst q \<and> fst q < y)) m"
  unfolding bt_remove_list by (rule filter_cong) (auto simp: bt_range_def)

subsection \<open>What a page is\<close>

type_synonym page_view = "(Kind \<times> 64 word \<times> Backing) option"

definition holds :: "u64 \<Rightarrow> u64 \<times> Area \<Rightarrow> bool" where
  "holds x p \<longleftrightarrow> fst p \<le> x \<and> x < a_end (snd p)"

definition page_of :: "u64 \<Rightarrow> u64 \<times> Area \<Rightarrow> Kind \<times> 64 word \<times> Backing" where
  "page_of x p =
     (a_kind (snd p), a_prot (snd p), advanced (a_backing (snd p)) ((x - fst p) div PAGE_SIZE))"

definition view :: "(u64, Area) bmap \<Rightarrow> u64 \<Rightarrow> page_view" where
  "view m x = map_option (page_of x) (List.find (holds x) m)"

lemma view_Nil [simp]: "view [] x = None"
  by (simp add: view_def)

lemma view_Cons: "view (p # m) x = (if holds x p then Some (page_of x p) else view m x)"
  by (simp add: view_def)

lemma view_append: "view (l @ r) x = (case view l x of Some v \<Rightarrow> Some v | None \<Rightarrow> view r x)"
  by (induction l) (auto simp: view_Cons)

lemma view_None: "view m x = None \<longleftrightarrow> (\<forall>p \<in> set m. \<not> holds x p)"
  by (auto simp: view_def find_None_iff)

lemma view_filter_None: "(\<And>p. p \<in> set m \<Longrightarrow> holds x p \<Longrightarrow> \<not> P p) \<Longrightarrow> view (filter P m) x = None"
  by (auto simp: view_None)

lemma view_filter_same: "(\<And>p. p \<in> set m \<Longrightarrow> holds x p \<Longrightarrow> P p) \<Longrightarrow> view (filter P m) x = view m x"
  by (induction m) (auto simp: view_Cons)

lemma view_unique:
  assumes "laid_out mx m" "p \<in> set m" "holds x p"
  shows "view m x = Some (page_of x p)"
  using assms
proof (induction m)
  case (Cons q m)
  show ?case
  proof (cases "p \<in> set m")
    case True
    then have "a_end (snd q) \<le> fst p" using Cons.prems(1) by (simp add: laid_out_Cons)
    then have "\<not> holds x q" using Cons.prems(3) by (auto simp: holds_def)
    then show ?thesis using Cons True by (simp add: view_Cons laid_out_Cons)
  next
    case False
    then show ?thesis using Cons.prems by (simp add: view_Cons)
  qed
qed simp

lemma advanced_advanced: "advanced (advanced b i) j = advanced b (i + j)"
  by (cases b) (simp_all add: algebra_simps)

lemma advanced_0 [simp]: "advanced b 0 = b"
  by (cases b) simp_all

lemma advanced_writable [simp]: "backing_writable (advanced b n) = backing_writable b"
  by (cases b) simp_all

lemma advanced_Zero [simp]: "advanced b n = Zero \<longleftrightarrow> b = Zero"
  by (cases b) simp_all

lemma check_prot_advanced [simp]: "check_prot prot (advanced b n) = check_prot prot b"
  by (simp add: check_prot_def)

lemma aligned_div_add:
  assumes "aligned s" "aligned at'" "s \<le> at'" "at' \<le> x"
  shows "(x - s) div PAGE_SIZE = (at' - s) div PAGE_SIZE + (x - at') div PAGE_SIZE"
proof -
  have "PAGE_SIZE dvd at' - s" using assms by (auto simp: aligned_def intro!: dvd_diff_nat)
  moreover have "x - s = (at' - s) + (x - at')" using assms by simp
  ultimately show ?thesis by (metis div_plus_div_distrib_dvd_left)
qed

subsection \<open>Splitting\<close>

lemma below_split:
  assumes "laid_out mx m" "bt_below x m = Some (s, a)"
  obtains l where "m = l @ (s, a) # bt_from x m" "bt_to x m = l @ [(s, a)]"
    "\<forall>q \<in> set l. a_end (snd q) \<le> s" "s < x"
proof -
  have inv: "bt_inv m" by (rule laid_out_bt_inv [OF assms(1)])
  obtain l where l: "bt_to x m = l @ [(s, a)]"
    using assms(2) by (auto simp: last_opt_def split: if_splits) (metis append_butlast_last_id)
  then have m: "m = l @ (s, a) # bt_from x m" using to_from [OF inv, of x] by simp
  have "laid_out mx (l @ (s, a) # bt_from x m)" using assms(1) m by metis
  then have "\<forall>q \<in> set l. a_end (snd q) \<le> s" by (auto simp: laid_out_append)
  moreover have "(s, a) \<in> set (bt_to x m)" using l by simp
  then have "s < x" by (simp add: bt_to_def)
  ultimately show ?thesis using that m l by blast
qed

text \<open>The area holding an address strictly inside it, and the two pieces of it.\<close>

definition tail_of :: "u64 \<Rightarrow> u64 \<Rightarrow> Area \<Rightarrow> Area" where
  "tail_of s x a = \<lparr>a_end = a_end a, a_kind = a_kind a, a_prot = a_prot a,
     a_backing = advanced (a_backing a) ((x - s) div PAGE_SIZE)\<rparr>"

lemma split_cases:
  assumes lo: "laid_out mx (areas sp)"
  obtains (none) "split sp x = sp" "\<forall>p \<in> set (areas sp). \<not> (fst p < x \<and> x < a_end (snd p))"
  | (cut) l s a r where "areas sp = l @ (s, a) # r" "s < x" "x < a_end a"
      "split sp x = sp\<lparr>areas := l @ (s, a\<lparr>a_end := x\<rparr>) # (x, tail_of s x a) # r\<rparr>"
proof (cases "bt_below x (areas sp)")
  case None
  then have "\<forall>p \<in> set (areas sp). \<not> fst p < x" by (auto simp: bt_to_def filter_empty_conv)
  then show ?thesis using none None by (simp add: split_def)
next
  case (Some q)
  obtain s a where q: "q = (s, a)" by force
  obtain l where l: "areas sp = l @ (s, a) # bt_from x (areas sp)" "bt_to x (areas sp) = l @ [(s, a)]"
      "\<forall>q \<in> set l. a_end (snd q) \<le> s" "s < x"
    using below_split [OF lo] Some q by metis
  let ?r = "bt_from x (areas sp)"
  have lr: "laid_out mx (l @ (s, a) # ?r)" using lo l(1) by metis
  show ?thesis
  proof (cases "a_end a > x")
    case False
    have "\<not> (fst p < x \<and> x < a_end (snd p))" if "p \<in> set (areas sp)" for p
    proof -
      from that consider "p \<in> set l" | "p = (s, a)" | "p \<in> set ?r" using l(1) by (metis Un_iff set_ConsD set_append)
      then show ?thesis
      proof cases
        case 1 then show ?thesis using l(3,4) by fastforce
      next
        case 2 then show ?thesis using False by simp
      next
        case 3 then show ?thesis by (auto simp: bt_from_def)
      qed
    qed
    moreover have "split sp x = sp" using Some q False by (simp add: split_def)
    ultimately show ?thesis using none by blast
  next
    case True
    have r: "\<forall>q \<in> set ?r. a_end a \<le> fst q" using lr by (auto simp: laid_out_append laid_out_Cons)
    have inv: "bt_inv (l @ (s, a) # ?r)" by (rule laid_out_bt_inv [OF lr])
    have h: "bt_insert s (a\<lparr>a_end := x\<rparr>) (areas sp) = (l @ [(s, a\<lparr>a_end := x\<rparr>)]) @ ?r"
      using bt_insert_replace [OF inv, of "a\<lparr>a_end := x\<rparr>"] l(1) by simp
    have inv2: "bt_inv ((l @ [(s, a\<lparr>a_end := x\<rparr>)]) @ ?r)"
      using bt_insert_inv [OF laid_out_bt_inv [OF lo], of s "a\<lparr>a_end := x\<rparr>"] h by simp
    have "\<forall>q \<in> set l. fst q < x"
    proof
      fix q assume "q \<in> set l"
      then have "q \<in> set (bt_to x (areas sp))" using l(2) by simp
      then show "fst q < x" by (simp add: bt_to_def)
    qed
    then have "bt_insert x (tail_of s x a) ((l @ [(s, a\<lparr>a_end := x\<rparr>)]) @ ?r) =
        (l @ [(s, a\<lparr>a_end := x\<rparr>)]) @ (x, tail_of s x a) # ?r"
      using r True l(4) by (intro bt_insert_middle [OF inv2]) fastforce+
    then have "split sp x = sp\<lparr>areas := l @ (s, a\<lparr>a_end := x\<rparr>) # (x, tail_of s x a) # ?r\<rparr>"
      using Some q True h by (simp add: split_def tail_of_def Let_def)
    then show ?thesis using cut l(1,4) True by blast
  qed
qed

lemma page_of_head: "x < y \<Longrightarrow> holds x (s, a\<lparr>a_end := y\<rparr>) \<longleftrightarrow> s \<le> x"
    "page_of x (s, a\<lparr>a_end := y\<rparr>) = page_of x (s, a)"
  by (auto simp: holds_def page_of_def)

lemma page_of_tail:
  "aligned s \<Longrightarrow> aligned y \<Longrightarrow> s \<le> y \<Longrightarrow> y \<le> x \<Longrightarrow> page_of x (y, tail_of s y a) = page_of x (s, a)"
  using aligned_div_add [of s y x] by (simp add: page_of_def tail_of_def advanced_advanced)

lemma div_le_Suc_pred: "(y :: nat) div sz \<le> Suc ((y - 1) div sz)"
  by (cases y) (auto simp: div_Suc)

lemma region_split:
  assumes "(s :: nat) < y" "y < e"
  shows "{s div sz..(y - 1) div sz} \<union> {y div sz..(e - 1) div sz} = {s div sz..(e - 1) div sz}"
proof -
  have "s div sz \<le> (y - 1) div sz" "(y - 1) div sz \<le> y div sz" "y div sz \<le> (e - 1) div sz"
    using assms by (auto intro: div_le_mono)
  then show ?thesis using div_le_Suc_pred [of y sz] by auto
qed

lemma spans_append: "spans (l @ r) = spans l \<union> spans r"
  by (auto simp: spans_def)

lemma spans_Cons: "spans (p # m) = insert (fst p, a_end (snd p)) (spans m)"
  by (simp add: spans_def)

lemma touched_insert: "touched sz (insert (s, e) A) = {s div sz..(e - 1) div sz} \<union> touched sz A"
  by (auto simp: touched_def)

text \<open>The two pieces in place of the area.\<close>

lemma cut_laid_out:
  assumes "laid_out mx (l @ (s, a) # r)" "s < y" "y < a_end a" "aligned y"
  shows "laid_out mx (l @ (s, a\<lparr>a_end := y\<rparr>) # (y, tail_of s y a) # r)"
proof -
  have ok: "area_ok mx (s, a)" and l: "laid_out mx l" "\<forall>p \<in> set l. a_end (snd p) \<le> s"
      "\<forall>p \<in> set l. \<forall>q \<in> set r. a_end (snd p) \<le> fst q"
    and r: "laid_out mx r" "\<forall>q \<in> set r. a_end a \<le> fst q"
    using assms(1) by (auto simp: laid_out_append laid_out_Cons)
  have "area_ok mx (s, a\<lparr>a_end := y\<rparr>)" "area_ok mx (y, tail_of s y a)"
    using ok assms(2-4) by (auto simp: area_ok_def tail_of_def)
  moreover have "\<forall>q \<in> set r. y \<le> fst q" using r(2) assms(3) by fastforce
  moreover have "\<forall>p \<in> set l. a_end (snd p) \<le> y" using l(2) assms(2) by fastforce
  moreover have "a_end (tail_of s y a) = a_end a" by (simp add: tail_of_def)
  ultimately show ?thesis using l r by (simp add: laid_out_append laid_out_Cons)
qed

lemma cut_view:
  assumes "aligned s" "aligned y" "s < y" "y < a_end a"
  shows "view (l @ (s, a\<lparr>a_end := y\<rparr>) # (y, tail_of s y a) # r) = view (l @ (s, a) # r)"
proof
  fix x
  have "holds x (y, tail_of s y a) \<longleftrightarrow> y \<le> x \<and> x < a_end a" by (simp add: holds_def tail_of_def)
  moreover have "holds x (s, a\<lparr>a_end := y\<rparr>) \<longleftrightarrow> s \<le> x \<and> x < y" by (simp add: holds_def)
  moreover have "holds x (s, a) \<longleftrightarrow> s \<le> x \<and> x < a_end a" by (simp add: holds_def)
  ultimately have "view ((s, a\<lparr>a_end := y\<rparr>) # (y, tail_of s y a) # r) x = view ((s, a) # r) x"
    using assms(3,4) page_of_tail [OF assms(1,2), of x a] by (auto simp: view_Cons page_of_head(2))
  then show "view (l @ (s, a\<lparr>a_end := y\<rparr>) # (y, tail_of s y a) # r) x = view (l @ (s, a) # r) x"
    by (simp only: view_append)
qed

lemma cut_touched:
  assumes "s < y" "y < a_end a"
  shows "touched sz (spans (l @ (s, a\<lparr>a_end := y\<rparr>) # (y, tail_of s y a) # r)) =
    touched sz (spans (l @ (s, a) # r))"
  using region_split [OF assms, of sz]
  by (simp add: spans_append spans_Cons touched_Un touched_insert tail_of_def flip: Un_assoc)

lemma split_keeps:
  assumes lo: "laid_out mx (areas sp)" and y: "aligned y"
  shows "laid_out mx (areas (split sp y))" "view (areas (split sp y)) = view (areas sp)"
    "table_count tp (spans (areas (split sp y))) = table_count tp (spans (areas sp))"
    "\<forall>p \<in> set (areas (split sp y)). \<not> (fst p < y \<and> y < a_end (snd p))"
proof -
  have "laid_out mx (areas (split sp y)) \<and> view (areas (split sp y)) = view (areas sp) \<and>
      table_count tp (spans (areas (split sp y))) = table_count tp (spans (areas sp)) \<and>
      (\<forall>p \<in> set (areas (split sp y)). \<not> (fst p < y \<and> y < a_end (snd p)))"
  proof (rule split_cases [OF lo, of y])
    fix l s a r
    assume eq: "areas sp = l @ (s, a) # r" and sy: "s < y" "y < a_end a"
      and sp: "split sp y = sp\<lparr>areas := l @ (s, a\<lparr>a_end := y\<rparr>) # (y, tail_of s y a) # r\<rparr>"
    have lo': "laid_out mx (l @ (s, a) # r)" using lo eq by simp
    then have "aligned s" and far: "\<forall>p \<in> set l. a_end (snd p) \<le> s" "\<forall>q \<in> set r. a_end a \<le> fst q"
      by (auto simp: laid_out_append laid_out_Cons area_ok_def)
    moreover have "table_count tp (spans (areas (split sp y))) = table_count tp (spans (areas sp))"
      by (simp add: table_count_def sp eq cut_touched [OF sy])
    moreover have "\<forall>p \<in> set (l @ (s, a\<lparr>a_end := y\<rparr>) # (y, tail_of s y a) # r).
        \<not> (fst p < y \<and> y < a_end (snd p))"
      using far sy by fastforce
    ultimately show ?thesis
      using cut_laid_out [OF lo' sy y] cut_view [OF _ y sy, of l r] by (simp add: sp eq)
  next
    assume "split sp y = sp" "\<forall>p \<in> set (areas sp). \<not> (fst p < y \<and> y < a_end (snd p))"
    then show ?thesis using lo by simp
  qed
  then show "laid_out mx (areas (split sp y))" "view (areas (split sp y)) = view (areas sp)"
    "table_count tp (spans (areas (split sp y))) = table_count tp (spans (areas sp))"
    "\<forall>p \<in> set (areas (split sp y)). \<not> (fst p < y \<and> y < a_end (snd p))"
    by simp_all
qed

subsection \<open>The areas of a range\<close>

definition no_cut :: "u64 \<Rightarrow> (u64, Area) bmap \<Rightarrow> bool" where
  "no_cut y m \<longleftrightarrow> (\<forall>p \<in> set m. \<not> (fst p < y \<and> y < a_end (snd p)))"

lemma split_no_cut:
  assumes "laid_out mx (areas sp)" "no_cut z (areas sp)"
  shows "no_cut z (areas (split sp y))"
  using assms(1)
proof (rule split_cases [of mx sp y])
  fix l s a r
  assume "areas sp = l @ (s, a) # r" "s < y" "y < a_end a"
    and "split sp y = sp\<lparr>areas := l @ (s, a\<lparr>a_end := y\<rparr>) # (y, tail_of s y a) # r\<rparr>"
  then show ?thesis using assms(2) by (auto simp: no_cut_def tail_of_def)
qed (use assms(2) in auto)

lemma split_other [simp]:
  "zero (split sp y) = zero sp" "brk (split sp y) = brk sp" "tables_n (split sp y) = tables_n sp"
  "charged (split sp y) = charged sp" "account (split sp y) = account sp"
  "unmapped (split sp y) = unmapped sp" "vm_broken (split sp y) = vm_broken sp"
  "copied (split sp y) = copied sp"
  by (auto simp: split_def Let_def split: option.splits)

text \<open>A range whose ends cut no area: an area lies in it, or before it, or after it.\<close>

lemma range_cases:
  assumes "no_cut va m" "no_cut e m" "p \<in> set m"
  shows "va \<le> fst p \<Longrightarrow> fst p < e \<Longrightarrow> a_end (snd p) \<le> e" "fst p < va \<Longrightarrow> a_end (snd p) \<le> va"
  using assms by (auto simp: no_cut_def not_less)

definition outside :: "u64 \<Rightarrow> u64 \<Rightarrow> (u64, Area) bmap \<Rightarrow> (u64, Area) bmap" where
  "outside va e m = filter (\<lambda>q. \<not> (va \<le> fst q \<and> fst q < e)) m"

lemma view_outside:
  assumes "no_cut va m" "no_cut e m"
  shows "view (outside va e m) x = (if va \<le> x \<and> x < e then None else view m x)"
proof (cases "va \<le> x \<and> x < e")
  case True
  then show ?thesis
    using range_cases [OF assms] unfolding outside_def
    by (auto simp: view_None holds_def) (meson leD le_less_trans less_le_trans not_le)+
next
  case False
  have "view (outside va e m) x = view m x"
    unfolding outside_def
  proof (rule view_filter_same)
    fix p assume p: "p \<in> set m" "holds x p"
    show "\<not> (va \<le> fst p \<and> fst p < e)"
      using range_cases(1) [OF assms p(1)] p(2) False by (force simp: holds_def)
  qed
  then show ?thesis using False by auto
qed

lemma laid_out_unique:
  "laid_out mx m \<Longrightarrow> p \<in> set m \<Longrightarrow> q \<in> set m \<Longrightarrow> fst p < fst q \<Longrightarrow> a_end (snd p) \<le> fst q"
proof (induction m)
  case (Cons r m)
  then show ?case by (auto simp: laid_out_Cons area_ok_def)
qed simp

lemma overlaps_iff:
  assumes "laid_out mx (areas sp)"
  shows "overlaps sp va e \<longleftrightarrow> (\<exists>p \<in> set (areas sp). fst p < e \<and> va < a_end (snd p))"
proof (cases "bt_below e (areas sp)")
  case None
  then have "\<forall>p \<in> set (areas sp). \<not> fst p < e" by (simp add: bt_to_def filter_empty_conv)
  then show ?thesis using None by (auto simp: overlaps_def last_opt_def)
next
  case (Some q)
  obtain s a where q: "q = (s, a)" by force
  have inv: "bt_inv (areas sp)" by (rule laid_out_bt_inv [OF assms])
  have b: "(s, a) \<in> set (areas sp)" "s < e" "\<forall>j \<in> dom (bt_get (areas sp)). j < e \<longrightarrow> j \<le> s"
    using btm.below_Some [OF inv, of e s a] Some q by (auto simp: bt_get_iff [OF inv])
  have "a_end (snd p) \<le> a_end a" if "p \<in> set (areas sp)" "fst p < e" for p
  proof (cases "fst p < s")
    case True
    then have "a_end (snd p) \<le> s" using laid_out_unique [OF assms that(1) b(1)] by simp
    moreover have "area_ok mx (s, a)" using assms b(1) by (auto simp: laid_out_def)
    ultimately show ?thesis by (simp add: area_ok_def)
  next
    case False
    then have "fst p = s" using b(3) that by (force simp: dom_bt_get)
    then have "bt_get (areas sp) s = Some (snd p)" "bt_get (areas sp) s = Some a"
      using that(1) b(1) by (cases p; simp add: bt_get_iff [OF inv])+
    then show ?thesis by simp
  qed
  then show ?thesis using Some q b by (auto simp: overlaps_def) (metis le_trans less_le_trans snd_conv fst_conv)+
qed

lemma takeWhile_rev_filter:
  "sorted_wrt (\<lambda>x y. P x \<longrightarrow> P y) xs \<Longrightarrow> takeWhile P (rev xs) = rev (filter P xs)"
proof (induction xs)
  case (Cons x xs)
  show ?case
  proof (cases "P x")
    case True
    then have "\<forall>y \<in> set xs. P y" using Cons.prems by auto
    then show ?thesis using True by (simp add: takeWhile_append2)
  next
    case False
    then show ?thesis using Cons by (simp add: takeWhile_append)
  qed
qed simp

lemma touched_areas_set:
  assumes "laid_out mx (areas sp)"
  shows "set (touched_areas sp va e) = {p \<in> set (areas sp). fst p < e \<and> va < a_end (snd p)}"
proof -
  have lo: "laid_out mx (bt_to e (areas sp))" unfolding bt_to_def by (rule laid_out_filter [OF assms])
  have "sorted_wrt (\<lambda>p q. a_end (snd p) > va \<longrightarrow> a_end (snd q) > va) (bt_to e (areas sp))"
  proof (rule sorted_wrt_mono_rel)
    show "sorted_wrt (\<lambda>p q. a_end (snd p) \<le> fst q) (bt_to e (areas sp))" using lo by (simp add: laid_out_def)
    fix p q assume "q \<in> set (bt_to e (areas sp))" "a_end (snd p) \<le> fst q"
    then show "a_end (snd p) > va \<longrightarrow> a_end (snd q) > va"
      using lo by (fastforce simp: laid_out_def area_ok_def)
  qed
  then show ?thesis by (auto simp: touched_areas_def takeWhile_rev_filter bt_to_def)
qed

text \<open>What the checks of \<open>protect\<close> establish: the range is covered, and each area in it qualifies.\<close>

lemma protect_check_covers:
  assumes "laid_out mx m" "protect_check m va prot only cursor = Inr c" "va \<le> cursor"
    "\<forall>p \<in> set m. va < a_end (snd p) \<longrightarrow> cursor \<le> a_end (snd p)"
  shows "cursor \<le> c \<and> (\<forall>x. cursor \<le> x \<and> x < c \<longrightarrow> (\<exists>p \<in> set m. holds x p)) \<and>
    (\<forall>p \<in> set m. va < a_end (snd p) \<longrightarrow> a_kind (snd p) \<noteq> Plane \<and> (\<forall>k. only = Some k \<longrightarrow> a_kind (snd p) = k) \<and>
      check_prot prot (a_backing (snd p)) = Inr ())"
  using assms
proof (induction m arbitrary: cursor)
  case (Cons p m)
  obtain s a where p: "p = (s, a)" by force
  show ?case
  proof (cases "a_end a \<le> va")
    case True
    then have "protect_check m va prot only cursor = Inr c" using Cons.prems p by simp
    then have "cursor \<le> c \<and> (\<forall>x. cursor \<le> x \<and> x < c \<longrightarrow> (\<exists>p \<in> set m. holds x p)) \<and>
        (\<forall>p \<in> set m. va < a_end (snd p) \<longrightarrow> a_kind (snd p) \<noteq> Plane \<and> (\<forall>k. only = Some k \<longrightarrow> a_kind (snd p) = k) \<and>
          check_prot prot (a_backing (snd p)) = Inr ())"
      using Cons.prems by (intro Cons.IH) (auto simp: laid_out_Cons)
    then show ?thesis using True p by auto
  next
    case False
    then have chk: "s \<le> cursor" "a_kind a \<noteq> Plane" "\<forall>k. only = Some k \<longrightarrow> a_kind a = k"
        "check_prot prot (a_backing a) = Inr ()" "protect_check m va prot only (a_end a) = Inr c"
      using Cons.prems(2) p by (auto split: if_splits sum.splits option.splits)
    have up: "\<forall>q \<in> set m. a_end a \<le> fst q \<and> fst q < a_end (snd q)"
      using Cons.prems(1) p by (auto simp: laid_out_Cons laid_out_def area_ok_def)
    have ih: "a_end a \<le> c \<and> (\<forall>x. a_end a \<le> x \<and> x < c \<longrightarrow> (\<exists>p \<in> set m. holds x p)) \<and>
        (\<forall>p \<in> set m. va < a_end (snd p) \<longrightarrow> a_kind (snd p) \<noteq> Plane \<and> (\<forall>k. only = Some k \<longrightarrow> a_kind (snd p) = k) \<and>
          check_prot prot (a_backing (snd p)) = Inr ())"
      using Cons.prems(1) p False up chk(5) by (intro Cons.IH) (fastforce simp: laid_out_Cons)+
    have "cursor \<le> a_end a" using Cons.prems(4) p False by simp
    moreover have "\<exists>p \<in> set ((s, a) # m). holds x p" if "cursor \<le> x" "x < c" for x
      using that ih chk(1) by (cases "x < a_end a") (auto simp: holds_def)
    ultimately show ?thesis using ih chk p by auto
  qed
qed simp

text \<open>The checks of \<open>discard\<close> are those of \<open>protect\<close> with no protection asked for.\<close>

lemma discard_check_protect: "discard_check m va cursor = protect_check m va 0 None cursor"
  by (induction m va cursor rule: discard_check.induct) (auto simp: check_prot_def)

subsection \<open>Neighbours and page tables\<close>

lemma neighbours_around:
  assumes lo: "laid_out mx (areas sp)" and ve: "va \<le> e"
    and free: "\<forall>p \<in> set (areas sp). a_end (snd p) \<le> va \<or> e \<le> fst p"
    and pieces: "\<forall>(s, t) \<in> set pieces. va \<le> s \<and> t \<le> e"
    and nb: "neighbours sp va e = (before, after)"
  shows "neighboured (spans (areas sp)) before after pieces"
proof -
  have inv: "bt_inv (areas sp)" by (rule laid_out_bt_inv [OF lo])
  have ok: "fst p < a_end (snd p)" if "p \<in> set (areas sp)" for p
    using lo that by (auto simp: laid_out_def area_ok_def)
  have bef: "\<exists>s a. (s, a) \<in> set (areas sp) \<and> a_end a = b \<and> s < va \<and> (\<forall>p \<in> set (areas sp). fst p < va \<longrightarrow> fst p \<le> s)"
    if "before = Some b" for b
    using nb that btm.below_Some [OF inv, of va] by (auto simp: neighbours_def bt_get_iff [OF inv] dom_bt_get)
  have aft: "\<exists>a. (c, a) \<in> set (areas sp) \<and> e \<le> c \<and> (\<forall>p \<in> set (areas sp). e \<le> fst p \<longrightarrow> c \<le> fst p)"
    if "after = Some c" for c
    using nb that btm.above_Some [OF inv, of e] by (auto simp: neighbours_def bt_get_iff [OF inv] dom_bt_get)
  have bef_None: "\<forall>p \<in> set (areas sp). va \<le> fst p" if "before = None"
    using nb that by (auto simp: neighbours_def bt_to_def filter_empty_conv not_less)
  have aft_None: "\<forall>p \<in> set (areas sp). fst p < e" if "after = None"
    using nb that by (auto simp: neighbours_def bt_from_def filter_empty_conv not_le)
  show ?thesis
    unfolding neighboured_def
  proof (intro conjI allI impI)
    show "\<forall>(s, t) \<in> spans (areas sp). s < t \<and>
        ((\<exists>b. before = Some b \<and> t \<le> b) \<or> (\<exists>a. after = Some a \<and> a \<le> s))"
    proof (clarsimp simp: spans_def)
      fix s a assume p: "(s, a) \<in> set (areas sp)"
      have "s < a_end a" using ok [OF p] by simp
      moreover have "(\<exists>b. before = Some b \<and> a_end a \<le> b) \<or> (\<exists>c. after = Some c \<and> c \<le> s)"
      proof (cases "e \<le> s")
        case True
        then have "after \<noteq> None" using aft_None p by fastforce
        then show ?thesis using aft True p by fastforce
      next
        case False
        then have "a_end a \<le> va" using free p by fastforce
        then have sv: "s < va" using \<open>s < a_end a\<close> by simp
        then have "before \<noteq> None" using bef_None p by fastforce
        then obtain b where b: "before = Some b" by auto
        obtain s' a' where n: "(s', a') \<in> set (areas sp)" "a_end a' = b" "\<forall>p \<in> set (areas sp). fst p < va \<longrightarrow> fst p \<le> s'"
          using bef [OF b] by blast
        have "s \<le> s'" using n(3) p sv by fastforce
        then have "a_end a \<le> b"
        proof (cases "s = s'")
          case True
          then have "a = a'" using p n(1) bt_get_iff [OF inv] by (metis option.inject)
          then show ?thesis using n(2) by simp
        next
          case False
          then have "a_end a \<le> s'" using laid_out_unique [OF lo p n(1)] \<open>s \<le> s'\<close> by simp
          then show ?thesis using ok [OF n(1)] n(2) by simp
        qed
        then show ?thesis using b by blast
      qed
      ultimately show "s < a_end a \<and> ((\<exists>b. before = Some b \<and> a_end a \<le> b) \<or> (\<exists>c. after = Some c \<and> c \<le> s))"
        by blast
    qed
    show "\<exists>s. (s, b) \<in> spans (areas sp)" if "before = Some b" for b
      using bef [OF that] by (force simp: spans_def)
    show "\<forall>(s, t) \<in> set pieces. b \<le> s" if bb: "before = Some b" for b
    proof -
      obtain s' a' where n: "(s', a') \<in> set (areas sp)" "a_end a' = b" "s' < va" using bef [OF bb] by blast
      then have "b \<le> va" using free ve by fastforce
      then show ?thesis using pieces by fastforce
    qed
    show "\<exists>t. (c, t) \<in> spans (areas sp)" if "after = Some c" for c
      using aft [OF that] by (force simp: spans_def)
    show "\<forall>(s, t) \<in> set pieces. t \<le> c" if "after = Some c" for c
      using aft [OF that] pieces by fastforce
  qed
qed

lemma finite_spans [simp]: "finite (spans m)"
  by (simp add: spans_def)

text \<open>The change of the count of page tables when pieces come or go between the neighbours.\<close>

lemma tables_between:
  assumes "laid_out mx (areas sp)" "va \<le> e" "\<forall>p \<in> set (areas sp). a_end (snd p) \<le> va \<or> e \<le> fst p"
    and "\<forall>(s, t) \<in> set pieces. va \<le> s \<and> t \<le> e" "in_order pieces"
    and "neighbours sp va e = (before, after)"
  shows "table_count tp (spans (areas sp) \<union> set pieces) =
    table_count tp (spans (areas sp)) + t_pages (tables pieces before after tp)"
  by (rule tables_count [OF neighbours_around [OF assms(1-4,6)] assms(5) finite_spans])

end
