(* ===== verification/VmInv.thy ===== *)
theory VmInv
  imports VmAreas
begin

unbundle bit_operations_syntax

text \<open>
  Every operation of an address space keeps its areas apart and within user space, counts its page
  tables exactly, and charges exactly what it holds; and unmapping, mapping and protecting do to
  the page map what their names say.
\<close>

subsection \<open>What a space costs\<close>

definition ncost :: "Space \<Rightarrow> nat" where
  "ncost sp = length (areas sp) * charge_AREA + length (zero sp) * charge_ZERO_PAGE +
     tables_n sp * charge_PAGE"

text \<open>The charge covers the cost, in the middle of an operation and, exactly, between them.\<close>

definition funded :: "Space \<Rightarrow> bool" where
  "funded sp \<longleftrightarrow> Ledger_inv (account sp) \<and> ncost sp \<le> charged sp \<and>
     charged sp \<le> used (account sp) \<and> \<not> vm_broken sp"

definition zero_ok :: "Space \<Rightarrow> bool" where
  "zero_ok sp \<longleftrightarrow> bt_inv (zero sp) \<and>
     (\<forall>k \<in> fst ` set (zero sp). aligned k \<and> (\<exists>kind prot. view (areas sp) k = Some (kind, prot, Zero)))"

definition space_inv :: "u64 \<Rightarrow> Space \<Rightarrow> bool" where
  "space_inv mx sp \<longleftrightarrow>
     laid_out mx (areas sp) \<and> zero_ok sp \<and>
     tables_n sp = table_count (map_end mx) (spans (areas sp)) \<and>
     funded sp \<and> charged sp = ncost sp"

text \<open>User space ends below \<open>2 ^ 47\<close> and holds more than the image range.\<close>

definition user_max :: "u64 \<Rightarrow> bool" where
  "user_max mx \<longleftrightarrow> IMAGE_END + 2 * PAGE_SIZE < map_end mx \<and> mx < 2 ^ 47"

lemma user_max_bounds:
  assumes "user_max mx"
  shows "map_end mx < 2 ^ 47" "map_end mx < U64" "0 < map_end mx"
proof -
  have "map_end mx \<le> mx" by (simp add: map_end_def)
  then show "map_end mx < 2 ^ 47" "map_end mx < U64" "0 < map_end mx"
    using assms by (auto simp: user_max_def U64_def)
qed

lemma Ledger_used_U64: "Ledger_inv l \<Longrightarrow> used l < U64"
  by (auto simp: Ledger_inv_def)

lemma Inner_cost_exact:
  assumes "funded sp"
  shows "Inner_cost sp = ncost sp"
proof -
  have "ncost sp < U64" using assms Ledger_used_U64 [of "account sp"] by (auto simp: funded_def)
  then show ?thesis by (simp add: Inner_cost_def ncost_def)
qed

lemma ledger_charge_granted:
  "Ledger_inv l \<Longrightarrow> n \<le> room l \<Longrightarrow> ledger_charge l n = (Inr (), with_used l n)"
proof (cases "n = 0")
  case True
  assume "Ledger_inv l"
  then have "with_used l 0 = l" by (simp add: Ledger_inv_def max_def)
  then show ?thesis using True by (simp add: ledger_charge_def)
qed (simp add: ledger_charge_def ledger_simps)

lemma ledger_charge_refused:
  "Ledger_inv l \<Longrightarrow> room l < n \<Longrightarrow> ledger_charge l n = (Inl QuotaExceeded, l)"
  by (simp add: ledger_charge_def ledger_simps)

lemma ledger_uncharge_granted:
  "n \<le> used l \<Longrightarrow> ledger_uncharge l n = (False, l\<lparr>used := used l - n\<rparr>)"
  by (cases "n = 0") (simp_all add: ledger_uncharge_def ledger_simps)

text \<open>The ledger of one account is what the accounts' state machine charges.\<close>

lemma Account_charge_ledger:
  "accounts st a = Some A \<Longrightarrow>
    Account_charge st a n =
      (let (r, l) = ledger_charge (ledger A) n in (r, set_ledger st a l))"
  by (auto simp: Account_charge_def try_charge_def ledger_charge_def set_ledger_same
      split: prod.splits sum.splits)

lemma Space_charge_cases:
  assumes "funded sp"
  obtains (granted) "n \<le> room (account sp)"
      "Space_charge sp n = (Inr (), sp\<lparr>account := with_used (account sp) n, charged := charged sp + n\<rparr>)"
      "Ledger_inv (with_used (account sp) n)"
  | (refused) "room (account sp) < n" "Space_charge sp n = (Inl QuotaExceeded, sp)"
proof (cases "n \<le> room (account sp)")
  case True
  have l: "Ledger_inv (account sp)" "charged sp \<le> used (account sp)" using assms by (auto simp: funded_def)
  then have "charged sp + n < U64" using Ledger_no_wrap [OF l(1) True] by simp
  then have "Space_charge sp n = (Inr (), sp\<lparr>account := with_used (account sp) n, charged := charged sp + n\<rparr>)"
    using ledger_charge_granted [OF l(1) True] by (simp add: Space_charge_def)
  then show ?thesis using granted True with_used_inv [OF l(1) True] by simp
next
  case False
  then have "Space_charge sp n = (Inl QuotaExceeded, sp)"
    using ledger_charge_refused [of "account sp" n] assms by (simp add: Space_charge_def funded_def)
  then show ?thesis using refused False by simp
qed

lemma settle_funded:
  assumes "funded sp"
  shows "settle sp = sp\<lparr>account := (account sp)\<lparr>used := used (account sp) - (charged sp - ncost sp)\<rparr>,
    charged := ncost sp\<rparr>"
proof -
  have f: "ncost sp \<le> charged sp" "charged sp \<le> used (account sp)" "vm_broken sp = False"
    using assms by (auto simp: funded_def)
  then have "ledger_uncharge (account sp) (charged sp - ncost sp) =
      (False, (account sp)\<lparr>used := used (account sp) - (charged sp - ncost sp)\<rparr>)"
    by (intro ledger_uncharge_granted) simp
  then have "settle sp = sp\<lparr>account := (account sp)\<lparr>used := used (account sp) - (charged sp - ncost sp)\<rparr>,
      charged := ncost sp, vm_broken := False\<rparr>"
    using f by (simp add: settle_def Let_def Inner_cost_exact [OF assms] del: diff_diff_right)
  then show ?thesis using f(3) by (cases sp) (simp del: diff_diff_right)
qed

lemma ncost_account [simp]: "ncost (sp\<lparr>account := l\<rparr>) = ncost sp" "ncost (sp\<lparr>charged := c\<rparr>) = ncost sp"
    "ncost (sp\<lparr>unmapped := u\<rparr>) = ncost sp" "ncost (sp\<lparr>brk := b\<rparr>) = ncost sp"
    "ncost (sp\<lparr>copied := d\<rparr>) = ncost sp"
  by (simp_all add: ncost_def)

lemma settle_inv:
  assumes "funded sp"
  shows "funded (settle sp)" "charged (settle sp) = ncost (settle sp)" "ncost (settle sp) = ncost sp"
    "areas (settle sp) = areas sp" "zero (settle sp) = zero sp" "tables_n (settle sp) = tables_n sp"
    "brk (settle sp) = brk sp" "unmapped (settle sp) = unmapped sp" "copied (settle sp) = copied sp"
    "used (account (settle sp)) + charged sp = used (account sp) + ncost sp"
    "reserved (account (settle sp)) = reserved (account sp)" "limit (account (settle sp)) = limit (account sp)"
proof -
  have f: "Ledger_inv (account sp)" "ncost sp \<le> charged sp" "charged sp \<le> used (account sp)"
    using assms by (auto simp: funded_def)
  have "Ledger_inv ((account sp)\<lparr>used := used (account sp) - (charged sp - ncost sp)\<rparr>)"
    by (rule less_used_inv [OF f(1)])
  then show "funded (settle sp)"
    using f assms by (simp add: settle_funded [OF assms] funded_def)
  show "charged (settle sp) = ncost (settle sp)" "ncost (settle sp) = ncost sp"
    "areas (settle sp) = areas sp" "zero (settle sp) = zero sp" "tables_n (settle sp) = tables_n sp"
    "brk (settle sp) = brk sp" "unmapped (settle sp) = unmapped sp" "copied (settle sp) = copied sp"
    "reserved (account (settle sp)) = reserved (account sp)" "limit (account (settle sp)) = limit (account sp)"
    by (simp_all add: settle_funded [OF assms])
  show "used (account (settle sp)) + charged sp = used (account sp) + ncost sp"
    using f by (simp add: settle_funded [OF assms])
qed

subsection \<open>Splitting is charged for\<close>

lemma area_at_Some:
  assumes lo: "laid_out mx (areas sp)"
  shows "area_at sp x = Some (s, a) \<longleftrightarrow> (s, a) \<in> set (areas sp) \<and> holds x (s, a)"
proof -
  have inv: "bt_inv (areas sp)" by (rule laid_out_bt_inv [OF lo])
  let ?f = "filter (\<lambda>p. fst p \<le> x) (areas sp)"
  have last: "last_opt ?f = Some (t, b) \<longleftrightarrow>
      (t, b) \<in> set (areas sp) \<and> t \<le> x \<and> (\<forall>q \<in> set (areas sp). fst q \<le> x \<longrightarrow> fst q \<le> t)" for t b
    by (auto simp: bt_inv_last [OF bt_inv_filter [OF inv]])
  show ?thesis
  proof
    assume "area_at sp x = Some (s, a)"
    then have "last_opt ?f = Some (s, a)" "a_end a > x"
      by (auto simp: area_at_def split: option.splits if_splits)
    then show "(s, a) \<in> set (areas sp) \<and> holds x (s, a)" by (simp add: last holds_def)
  next
    assume h: "(s, a) \<in> set (areas sp) \<and> holds x (s, a)"
    have "fst q \<le> s" if "q \<in> set (areas sp)" "fst q \<le> x" for q
    proof (rule ccontr)
      assume "\<not> fst q \<le> s"
      then have "a_end a \<le> fst q" using laid_out_unique [OF lo _ that(1), of "(s, a)"] h by simp
      then show False using h that(2) by (simp add: holds_def)
    qed
    then have "last_opt ?f = Some (s, a)" using h by (simp add: last holds_def)
    then show "area_at sp x = Some (s, a)" using h by (simp add: area_at_def holds_def)
  qed
qed

lemma area_at_None:
  assumes "laid_out mx (areas sp)"
  shows "area_at sp x = None \<longleftrightarrow> view (areas sp) x = None"
  using area_at_Some [OF assms, of x] by (cases "area_at sp x") (auto simp: view_None)

lemma area_at_view:
  assumes "laid_out mx (areas sp)" "area_at sp x = Some (s, a)"
  shows "view (areas sp) x = Some (page_of x (s, a))"
  using area_at_Some [OF assms(1), of x s a] assms(2) view_unique [OF assms(1)] by simp

definition cuts :: "u64 \<Rightarrow> (u64, Area) bmap \<Rightarrow> nat" where
  "cuts y m = (if no_cut y m then 0 else 1)"

lemma split_length:
  assumes "laid_out mx (areas sp)"
  shows "length (areas (split sp y)) = length (areas sp) + cuts y (areas sp)"
  using assms
proof (rule split_cases [of mx sp y])
  fix l s a r
  assume "areas sp = l @ (s, a) # r" "s < y" "y < a_end a"
    "split sp y = sp\<lparr>areas := l @ (s, a\<lparr>a_end := y\<rparr>) # (y, tail_of s y a) # r\<rparr>"
  then show ?thesis by (auto simp: cuts_def no_cut_def)
qed (simp add: cuts_def no_cut_def)

lemma split_cuts_other:
  assumes lo: "laid_out mx (areas sp)" and "y \<noteq> z"
  shows "cuts z (areas (split sp y)) = cuts z (areas sp)"
  using lo
proof (rule split_cases [of mx sp y])
  fix l s a r
  assume eq: "areas sp = l @ (s, a) # r" "s < y" "y < a_end a"
    "split sp y = sp\<lparr>areas := l @ (s, a\<lparr>a_end := y\<rparr>) # (y, tail_of s y a) # r\<rparr>"
  have "no_cut z (areas (split sp y)) \<longleftrightarrow> no_cut z (areas sp)"
    using eq assms(2) by (auto simp: no_cut_def tail_of_def)
  then show ?thesis by (simp add: cuts_def)
qed simp

lemma split_bytes_cuts:
  assumes lo: "laid_out mx (areas sp)"
  shows "split_bytes sp va e = (cuts va (areas sp) + cuts e (areas sp)) * charge_AREA"
proof -
  have "(case area_at sp y of Some (s, a) \<Rightarrow> split_needed s (a_end a) y | None \<Rightarrow> False) \<longleftrightarrow>
      \<not> no_cut y (areas sp)" for y
  proof (cases "area_at sp y")
    case None
    then have "\<forall>p \<in> set (areas sp). \<not> holds y p" by (simp add: area_at_None [OF lo] view_None)
    then show ?thesis using None by (force simp: no_cut_def holds_def)
  next
    case (Some q)
    obtain s a where q: "q = (s, a)" by force
    have h: "(s, a) \<in> set (areas sp)" "holds y (s, a)" using area_at_Some [OF lo] Some q by auto
    have same: "p = (s, a)" if "p \<in> set (areas sp)" "holds y p" for p
      using area_at_Some [OF lo, of y "fst p" "snd p"] that Some q by simp
    have "\<not> no_cut y (areas sp) \<longleftrightarrow> s < y"
    proof
      assume "\<not> no_cut y (areas sp)"
      then obtain p where "p \<in> set (areas sp)" "fst p < y" "y < a_end (snd p)" by (auto simp: no_cut_def)
      then show "s < y" using same [of p] by (simp add: holds_def)
    next
      assume "s < y"
      then show "\<not> no_cut y (areas sp)" using h by (force simp: no_cut_def holds_def)
    qed
    then show ?thesis using Some q h(2) by (simp add: holds_def split_needed_def)
  qed
  then show ?thesis by (simp add: split_bytes_def cuts_def charge_AREA_def wmul_def U64_def)
qed

lemma split_both:
  assumes lo: "laid_out mx (areas sp)" and al: "aligned va" "aligned e" "va < e"
  defines "sp1 \<equiv> split (split sp va) e"
  shows "laid_out mx (areas sp1)" "view (areas sp1) = view (areas sp)"
    "table_count tp (spans (areas sp1)) = table_count tp (spans (areas sp))"
    "no_cut va (areas sp1)" "no_cut e (areas sp1)"
    "length (areas sp1) * charge_AREA = length (areas sp) * charge_AREA + split_bytes sp va e"
proof -
  note a = split_keeps [OF lo al(1)]
  note b = split_keeps [OF a(1) al(2)]
  show "laid_out mx (areas sp1)" "view (areas sp1) = view (areas sp)"
    "table_count tp (spans (areas sp1)) = table_count tp (spans (areas sp))"
    using a b by (simp_all add: sp1_def)
  show "no_cut e (areas sp1)" using b(4) by (simp add: sp1_def no_cut_def)
  show "no_cut va (areas sp1)" unfolding sp1_def
    by (rule split_no_cut [OF a(1)]) (use a(4) in \<open>simp add: no_cut_def\<close>)
  show "length (areas sp1) * charge_AREA = length (areas sp) * charge_AREA + split_bytes sp va e"
    using al(3) split_cuts_other [OF lo, of va e]
    by (simp add: sp1_def split_length [OF a(1)] split_length [OF lo] split_bytes_cuts [OF lo] algebra_simps)
qed

subsection \<open>Taking areas out\<close>

lemma range_in_order:
  assumes "laid_out mx m"
  shows "in_order (map (\<lambda>p. (fst p, a_end (snd p))) (bt_range va e m))"
proof -
  have "laid_out mx (bt_range va e m)" unfolding bt_range_def by (rule laid_out_filter [OF assms])
  then show ?thesis by (auto simp: in_order_def laid_out_def sorted_wrt_map area_ok_def)
qed

lemma outside_free:
  assumes "no_cut va m"
  shows "\<forall>p \<in> set (outside va e m). a_end (snd p) \<le> va \<or> e \<le> fst p"
  using assms by (fastforce simp: outside_def no_cut_def)

lemma spans_outside:
  "spans m = spans (outside va e m) \<union> set (map (\<lambda>p. (fst p, a_end (snd p))) (bt_range va e m))"
  by (auto simp: spans_def outside_def bt_range_def)

lemma laid_out_outside: "laid_out mx m \<Longrightarrow> laid_out mx (outside va e m)"
  unfolding outside_def by (rule laid_out_filter)

text \<open>
  The tables freed when the areas of a range go, and the empty regions they leave: no area that
  stays reaches into one.
\<close>

lemma freed_tables:
  assumes lo: "laid_out mx m" and cut: "no_cut va m" "no_cut e m" and ve: "va < e"
    and mx: "user_max mx" and sp2: "areas sp2 = outside va e m"
    and nb: "neighbours sp2 va e = (before, after)"
  defines "pieces \<equiv> map (\<lambda>p. (fst p, a_end (snd p))) (bt_range va e m)"
  defines "freed \<equiv> tables pieces before after (map_end mx)"
  shows "table_count (map_end mx) (spans m) =
      table_count (map_end mx) (spans (areas sp2)) + t_pages freed"
    "\<And>x y. Some (x, y) \<in> set (t_reclaim freed) \<Longrightarrow>
      x < y \<and> y < U64 \<and> (\<forall>p \<in> set (areas sp2). a_end (snd p) \<le> x \<or> y \<le> fst p)"
proof -
  have lo2: "laid_out mx (areas sp2)" by (simp add: sp2 laid_out_outside [OF lo])
  have fr: "\<forall>p \<in> set (areas sp2). a_end (snd p) \<le> va \<or> e \<le> fst p"
    using outside_free [OF cut(1)] by (simp add: sp2)
  have in_r: "\<forall>(s, t) \<in> set pieces. va \<le> s \<and> t \<le> e"
    using range_cases(1) [OF cut] by (auto simp: pieces_def bt_range_def)
  have ord: "in_order pieces" unfolding pieces_def by (rule range_in_order [OF lo])
  have "spans m = spans (areas sp2) \<union> set pieces" unfolding sp2 pieces_def by (rule spans_outside)
  then show "table_count (map_end mx) (spans m) =
      table_count (map_end mx) (spans (areas sp2)) + t_pages freed"
    using tables_between [OF lo2 less_imp_le [OF ve] fr in_r ord nb, of "map_end mx"] by (simp add: freed_def)
  have nbd: "neighboured (spans (areas sp2)) before after pieces"
    by (rule neighbours_around [OF lo2 less_imp_le [OF ve] fr in_r nb])
  have top: "\<forall>(s, t) \<in> set pieces. t \<le> map_end mx"
    using lo by (auto simp: pieces_def bt_range_def laid_out_def area_ok_def)
  fix x y assume r: "Some (x, y) \<in> set (t_reclaim freed)"
  have "x < y \<and> y \<le> map_end mx - 1 \<and> (\<forall>(s, t) \<in> spans (areas sp2). t \<le> x \<or> y \<le> s)"
    using tables_reclaim_clear [OF nbd ord top user_max_bounds(2) [OF mx]] r by (simp add: freed_def)
  then show "x < y \<and> y < U64 \<and> (\<forall>p \<in> set (areas sp2). a_end (snd p) \<le> x \<or> y \<le> fst p)"
    using user_max_bounds [OF mx] by (auto simp: spans_def)
qed

text \<open>What \<open>reclaim\<close> unmaps: ranges it was given, and nothing else changes.\<close>

lemma reclaim_levels_log:
  assumes "\<And>x y. Some (x, y) \<in> set rs \<Longrightarrow> x < y \<and> y < U64"
  shows "\<exists>us. reclaim_levels rs dn sp = sp\<lparr>unmapped := unmapped sp @ us\<rparr> \<and>
    (\<forall>u \<in> set us. Some u \<in> set rs)"
  using assms
proof (induction rs arbitrary: dn sp)
  case Nil
  then show ?case by (intro exI [of _ "[]"]) simp
next
  case (Cons r rs)
  note IH = Cons.IH [OF Cons.prems [OF list.set_intros(2)]]
  show ?case
  proof (cases r)
    case None
    then show ?thesis using IH [of dn sp] by auto
  next
    case (Some xy)
    obtain x y where xy: "xy = (x, y)" by force
    then have b: "x < y" "y < U64" using Cons.prems [of x y] Some by auto
    then have u: "unmap_ptes sp x (wsub y x) = sp\<lparr>unmapped := unmapped sp @ [(x, y)]\<rparr>"
      by (simp add: unmap_ptes_def)
    show ?thesis
    proof (cases "\<exists>lo hi. dn = Some (lo, hi) \<and> lo \<le> x \<and> y \<le> hi")
      case True
      then show ?thesis using IH [of dn sp] Some xy by auto
    next
      case False
      then have "reclaim_levels (r # rs) dn sp =
          reclaim_levels rs (Some (x, y)) (sp\<lparr>unmapped := unmapped sp @ [(x, y)]\<rparr>)"
        using Some xy u by (auto split: option.splits)
      moreover obtain us where us: "reclaim_levels rs (Some (x, y)) (sp\<lparr>unmapped := unmapped sp @ [(x, y)]\<rparr>) =
          sp\<lparr>unmapped := (unmapped sp @ [(x, y)]) @ us\<rparr>" "\<forall>u \<in> set us. Some u \<in> set rs"
        using IH [of "Some (x, y)" "sp\<lparr>unmapped := unmapped sp @ [(x, y)]\<rparr>"] by auto
      ultimately show ?thesis using Some xy by (intro exI [of _ "(x, y) # us"]) auto
    qed
  qed
qed

lemma reclaim_log:
  assumes "\<And>x y. Some (x, y) \<in> set rs \<Longrightarrow> x < y \<and> y < U64"
  obtains us where "reclaim sp rs = sp\<lparr>unmapped := unmapped sp @ us\<rparr>" "\<forall>u \<in> set us. Some u \<in> set rs"
  using reclaim_levels_log [of "rev rs" None sp] assms by (auto simp: reclaim_def)

definition clear_of :: "(u64, Area) bmap \<Rightarrow> u64 \<times> u64 \<Rightarrow> bool" where
  "clear_of m u \<longleftrightarrow> (\<forall>p \<in> set m. a_end (snd p) \<le> fst u \<or> snd u \<le> fst p)"

text \<open>The rest of an operation once the areas of a range are out of the list.\<close>

lemma give_back:
  assumes f: "Ledger_inv (account sp)" "charged sp \<le> used (account sp)" "\<not> vm_broken sp"
    and c: "ncost (sp\<lparr>tables_n := tables_n sp - n\<rparr>) \<le> charged sp" "n \<le> tables_n sp"
    and ve: "va < e" "e < U64"
    and r: "\<And>x y. Some (x, y) \<in> set rs \<Longrightarrow> x < y \<and> y < U64"
    and tn: "tables_n sp < U64"
  defines "sp2 \<equiv> sp\<lparr>tables_n := tables_n sp - n\<rparr>"
  shows "\<exists>us. reclaim (unmap_ptes (settle (sp\<lparr>tables_n := wsub (tables_n sp) n\<rparr>)) va (e - va)) rs =
      (settle sp2)\<lparr>unmapped := unmapped sp @ (va, e) # us\<rparr> \<and>
      (\<forall>u \<in> set us. Some u \<in> set rs) \<and> funded (settle sp2) \<and>
      charged (settle sp2) = ncost (settle sp2) \<and> ncost (settle sp2) = ncost sp2 \<and>
      used (account (settle sp2)) + charged sp = used (account sp) + ncost sp2"
proof -
  have w: "sp\<lparr>tables_n := wsub (tables_n sp) n\<rparr> = sp2" using c(2) tn by (simp add: sp2_def)
  have fund: "funded sp2" using f c by (simp add: funded_def sp2_def)
  note st = settle_inv [OF fund]
  have "unmap_ptes (settle sp2) va (e - va) = (settle sp2)\<lparr>unmapped := unmapped sp @ [(va, e)]\<rparr>"
    using ve st(8) by (simp add: unmap_ptes_def sp2_def)
  moreover obtain us where "reclaim ((settle sp2)\<lparr>unmapped := unmapped sp @ [(va, e)]\<rparr>) rs =
      (settle sp2)\<lparr>unmapped := (unmapped sp @ [(va, e)]) @ us\<rparr>" "\<forall>u \<in> set us. Some u \<in> set rs"
    using reclaim_log [OF r, of rs "(settle sp2)\<lparr>unmapped := unmapped sp @ [(va, e)]\<rparr>"] by auto
  ultimately show ?thesis using st w by (intro exI [of _ us]) (simp add: sp2_def)
qed

lemma zero_kept:
  assumes "bt_inv z" "\<forall>k \<in> fst ` set z. aligned k \<and> (\<exists>kind prot. v k = Some (kind, prot, Zero))"
    and "\<And>x. v' x = (if va \<le> x \<and> x < e then None else v x)"
  shows "bt_inv (filter (\<lambda>q. \<not> (va \<le> fst q \<and> fst q < e)) z) \<and>
    (\<forall>k \<in> fst ` set (filter (\<lambda>q. \<not> (va \<le> fst q \<and> fst q < e)) z).
      aligned k \<and> (\<exists>kind prot. v' k = Some (kind, prot, Zero)))"
  using assms by (auto simp: bt_inv_filter)

lemma table_count_U64:
  "tables_n sp * charge_PAGE \<le> ncost sp"
  by (simp add: ncost_def)

text \<open>The areas of a range whose ends cut none are taken out, and what they cost is given back.\<close>

lemma take_out:
  assumes lo: "laid_out mx (areas sp)" and t: "tables_n sp = table_count (map_end mx) (spans (areas sp))"
    and f: "funded sp" and mx: "user_max mx" and cut: "no_cut va (areas sp)" "no_cut e (areas sp)"
    and ve: "va < e" "e \<le> map_end mx"
    and nb: "neighbours (sp\<lparr>areas := outside va e (areas sp)\<rparr>) va e = (before, after)"
    and z: "zero_ok sp" "\<forall>k \<in> fst ` set (zero sp). \<not> (va \<le> k \<and> k < e)"
  defines "freed \<equiv> tables (map (\<lambda>p. (fst p, a_end (snd p))) (bt_range va e (areas sp))) before after (map_end mx)"
  defines "sp2 \<equiv> sp\<lparr>areas := outside va e (areas sp)\<rparr>"
  defines "sp' \<equiv> reclaim (unmap_ptes (settle (sp2\<lparr>tables_n := wsub (tables_n sp2) (t_pages freed)\<rparr>)) va (e - va))
    (t_reclaim freed)"
  shows "space_inv mx sp'" "view (areas sp') = (\<lambda>x. if va \<le> x \<and> x < e then None else view (areas sp) x)"
    "zero sp' = zero sp" "brk sp' = brk sp" "copied sp' = copied sp" "areas sp' = outside va e (areas sp)"
    "used (account sp') + charged sp = used (account sp) + charged sp'"
    "\<exists>us. unmapped sp' = unmapped sp @ (va, e) # us \<and> (\<forall>u \<in> set ((va, e) # us). clear_of (areas sp') u)"
proof -
  have p: "Ledger_inv (account sp)" "ncost sp \<le> charged sp" "charged sp \<le> used (account sp)" "\<not> vm_broken sp"
    using f by (auto simp: funded_def)
  have a2: "areas sp2 = outside va e (areas sp)" by (simp add: sp2_def)
  note ft = freed_tables [OF lo cut ve(1) mx a2 nb [folded sp2_def], folded freed_def]
  have same: "tables_n sp2 = tables_n sp" "charged sp2 = charged sp" "account sp2 = account sp"
      "unmapped sp2 = unmapped sp" "vm_broken sp2 = vm_broken sp" "zero sp2 = zero sp" "brk sp2 = brk sp" "copied sp2 = copied sp"
    by (simp_all add: sp2_def)
  have tn: "t_pages freed \<le> tables_n sp2"
      "tables_n sp2 - t_pages freed = table_count (map_end mx) (spans (areas sp2))"
    using ft(1) t same by simp_all
  have cost: "ncost (sp2\<lparr>tables_n := tables_n sp2 - t_pages freed\<rparr>) \<le> charged sp2"
  proof -
    have "length (areas sp2) * charge_AREA \<le> length (areas sp) * charge_AREA"
      unfolding a2 outside_def by (intro mult_le_mono1 length_filter_le)
    moreover have "(tables_n sp - t_pages freed) * charge_PAGE \<le> tables_n sp * charge_PAGE"
      by (intro mult_le_mono1) simp
    ultimately have "length (areas sp2) * charge_AREA + length (zero sp) * charge_ZERO_PAGE +
        (tables_n sp - t_pages freed) * charge_PAGE \<le> charged sp"
      using p(2) unfolding ncost_def by linarith
    then show ?thesis by (simp add: ncost_def same)
  qed
  have u64: "tables_n sp2 < U64"
  proof -
    have "tables_n sp * 1 \<le> tables_n sp * charge_PAGE" by (intro mult_le_mono2) (simp add: charge_PAGE_def)
    also have "\<dots> \<le> charged sp" using p(2) by (simp add: ncost_def)
    finally show ?thesis using p(3) Ledger_used_U64 [OF p(1)] same(1) by simp
  qed
  define sp3 where "sp3 = sp2\<lparr>tables_n := tables_n sp2 - t_pages freed\<rparr>"
  have f2: "Ledger_inv (account sp2)" "charged sp2 \<le> used (account sp2)" "\<not> vm_broken sp2"
    using p same by simp_all
  have e64: "e < U64" using ve(2) user_max_bounds(2) [OF mx] by simp
  have rc: "x < y \<and> y < U64" if "Some (x, y) \<in> set (t_reclaim freed)" for x y using ft(2) [OF that] by simp
  note gb = give_back [OF f2 cost tn(1) ve(1) e64 rc u64, folded sp3_def]
  obtain us where us: "sp' = (settle sp3)\<lparr>unmapped := unmapped sp2 @ (va, e) # us\<rparr>"
      "\<forall>u \<in> set us. Some u \<in> set (t_reclaim freed)" "funded (settle sp3)"
      "charged (settle sp3) = ncost (settle sp3)" "ncost (settle sp3) = ncost sp3"
      "used (account (settle sp3)) + charged sp2 = used (account sp2) + ncost sp3"
    unfolding sp'_def using gb [of "t_reclaim freed"] by blast
  have fund3: "funded sp3" using p same cost by (simp add: funded_def sp3_def)
  note st = settle_inv [OF fund3]
  have ar: "areas sp' = areas sp2" "zero sp' = zero sp" "tables_n sp' = table_count (map_end mx) (spans (areas sp2))"
      "brk sp' = brk sp" "copied sp' = copied sp"
    using st tn same by (simp_all add: us(1) sp3_def)
  show v: "view (areas sp') = (\<lambda>x. if va \<le> x \<and> x < e then None else view (areas sp) x)"
    using view_outside [OF cut] by (simp add: ar a2 fun_eq_iff)
  show "zero sp' = zero sp" "brk sp' = brk sp" "copied sp' = copied sp" by (fact ar)+
  show "areas sp' = outside va e (areas sp)" using ar a2 by simp
  show "used (account sp') + charged sp = used (account sp) + charged sp'"
    using us(4,5,6) same by (simp add: us(1))
  have "zero_ok sp'" using z by (simp add: zero_ok_def v ar(2))
  then show "space_inv mx sp'"
    using laid_out_outside [OF lo] us(3,4) by (simp add: space_inv_def ar a2) (simp add: us(1) funded_def)
  have "clear_of (areas sp') u" if "u \<in> set us" for u
    using ft(2) [of "fst u" "snd u"] us(2) that by (auto simp: clear_of_def ar)
  moreover have "clear_of (areas sp') (va, e)"
    using outside_free [OF cut(1), of e] by (simp add: clear_of_def ar a2)
  ultimately show "\<exists>us. unmapped sp' = unmapped sp @ (va, e) # us \<and> (\<forall>u \<in> set ((va, e) # us). clear_of (areas sp') u)"
    using us(1) same by (intro exI [of _ us]) simp
qed

lemma unmap_body_correct:
  assumes lo: "laid_out mx (areas sp)" and z: "zero_ok sp"
    and t: "tables_n sp = table_count (map_end mx) (spans (areas sp))"
    and f: "Ledger_inv (account sp)" "charged sp \<le> used (account sp)" "\<not> vm_broken sp"
    and c: "charged sp = ncost sp + split_bytes sp va e"
    and ve: "aligned va" "aligned e" "va < e" "e \<le> map_end mx" and mx: "user_max mx"
  defines "sp' \<equiv> unmap_body mx sp va e"
  shows "space_inv mx sp'" "view (areas sp') x = (if va \<le> x \<and> x < e then None else view (areas sp) x)"
    "zero sp' = filter (\<lambda>q. \<not> (va \<le> fst q \<and> fst q < e)) (zero sp)" "brk sp' = unmap_brk (brk sp) va e"
    "used (account sp') + charged sp = used (account sp) + charged sp'" "copied sp' = copied sp"
    "\<exists>us. unmapped sp' = unmapped sp @ (va, e) # us \<and> (\<forall>u \<in> set ((va, e) # us). clear_of (areas sp') u)"
    "no_cut y (areas sp) \<Longrightarrow> no_cut y (areas sp')"
proof -
  define sp1 where "sp1 = split (split sp va) e"
  note s1 = split_both [OF lo ve(1-3), folded sp1_def]
  let ?z = "filter (\<lambda>q. \<not> (va \<le> fst q \<and> fst q < e)) (zero sp)"
  define sp2 where "sp2 = sp1\<lparr>zero := ?z, brk := unmap_brk (brk sp) va e\<rparr>"
  have same: "areas sp2 = areas sp1" "zero sp2 = ?z" "brk sp2 = unmap_brk (brk sp) va e" "tables_n sp2 = tables_n sp"
      "charged sp2 = charged sp" "account sp2 = account sp" "vm_broken sp2 = vm_broken sp"
      "unmapped sp2 = unmapped sp" "copied sp2 = copied sp"
    by (simp_all add: sp2_def sp1_def)
  have "length ?z * charge_ZERO_PAGE \<le> length (zero sp) * charge_ZERO_PAGE"
    by (intro mult_le_mono1 length_filter_le)
  then have "ncost sp2 \<le> charged sp2"
    unfolding same ncost_def c s1(6) by linarith
  then have f2: "funded sp2" using f same by (simp add: funded_def)
  have z2: "zero_ok sp2" "\<forall>k \<in> fst ` set (zero sp2). \<not> (va \<le> k \<and> k < e)"
    using z s1(2) same by (auto simp: zero_ok_def bt_inv_filter)
  obtain before after where nb: "neighbours (sp2\<lparr>areas := outside va e (areas sp2)\<rparr>) va e = (before, after)" by force
  have a2: "laid_out mx (areas sp2)" "tables_n sp2 = table_count (map_end mx) (spans (areas sp2))"
      "no_cut va (areas sp2)" "no_cut e (areas sp2)"
    using s1 t same by simp_all
  have reorder: "r\<lparr>zero := z, brk := b, areas := m\<rparr> = r\<lparr>areas := m, zero := z, brk := b\<rparr>" for r :: Space and z b m
    by simp
  note to = take_out [OF a2(1,2) f2 mx a2(3,4) ve(3,4) nb z2]
  have "sp' = reclaim (unmap_ptes (settle ((sp2\<lparr>areas := outside va e (areas sp2)\<rparr>)\<lparr>tables_n := wsub
      (tables_n (sp2\<lparr>areas := outside va e (areas sp2)\<rparr>)) (t_pages (tables (map (\<lambda>p. (fst p, a_end (snd p)))
        (bt_range va e (areas sp2))) before after (map_end mx)))\<rparr>)) va (e - va))
      (t_reclaim (tables (map (\<lambda>p. (fst p, a_end (snd p))) (bt_range va e (areas sp2))) before after (map_end mx)))"
    using nb by (simp add: sp'_def unmap_body_def Let_def remove_range sp2_def sp1_def outside_def neighbours_def reorder)
  note to = to [folded this]
  show "space_inv mx sp'" "zero sp' = ?z" "brk sp' = unmap_brk (brk sp) va e"
    "used (account sp') + charged sp = used (account sp) + charged sp'" "copied sp' = copied sp"
    "\<exists>us. unmapped sp' = unmapped sp @ (va, e) # us \<and> (\<forall>u \<in> set ((va, e) # us). clear_of (areas sp') u)"
    using to(1,3-5,7-) same by simp_all
  show "no_cut y (areas sp')" if "no_cut y (areas sp)"
    using split_no_cut [OF split_keeps(1) [OF lo ve(1)] split_no_cut [OF lo that], of e]
    unfolding to(6) same sp1_def outside_def no_cut_def by simp
  show "view (areas sp') x = (if va \<le> x \<and> x < e then None else view (areas sp) x)"
    using to(2) s1(2) same by simp
qed

end
