(* ===== verification/VmOps.thy ===== *)
theory VmOps
  imports VmInv
begin

unbundle bit_operations_syntax

text \<open>
  The operations of an address space, each on every branch: what it does to the page map, to the
  zero pages, to the break and to the charge, and that it keeps the invariant of the space.
\<close>

text \<open>A space that differs at most in the high-water mark of its account.\<close>

definition same_space :: "Space \<Rightarrow> Space \<Rightarrow> bool" where
  "same_space sp sp' \<longleftrightarrow> (\<exists>pk. sp' = sp\<lparr>account := (account sp)\<lparr>peak := pk\<rparr>\<rparr>)"

lemma same_space_refl [simp]: "same_space sp sp"
  unfolding same_space_def by (rule exI [of _ "peak (account sp)"]) simp

lemma check_range_Inr:
  "check_range mx va len = Inr e \<longleftrightarrow>
     0 < len \<and> aligned va \<and> aligned len \<and> e = va + len \<and> e < U64 \<and> IMAGE_START \<le> va \<and> e \<le> map_end mx"
  by (auto simp: check_range_def split: option.splits)

lemma pages_Inr: "pages n = Inr l \<longleftrightarrow> n + (PAGE_SIZE - 1) < U64 \<and> l = page_floor (n + (PAGE_SIZE - 1))"
  by (auto simp: pages_def split: option.splits)

lemma pages_fits:
  assumes "pages n = Inr l"
  shows "aligned l" "n \<le> l" "l < n + PAGE_SIZE" "l < U64" "l = 0 \<longleftrightarrow> n = 0"
proof -
  have l: "l = page_floor (n + (PAGE_SIZE - 1))" "n + (PAGE_SIZE - 1) < U64" using assms by (simp_all add: pages_Inr)
  have "l \<le> n + (PAGE_SIZE - 1)" "n + (PAGE_SIZE - 1) < l + PAGE_SIZE"
    using page_floor_gt [of "n + (PAGE_SIZE - 1)"] l by simp_all
  then show a: "n \<le> l" "l < n + PAGE_SIZE" "l < U64" using l(2) by (simp_all add: PAGE_SIZE_def)
  show al: "aligned l" using l by simp
  have "l = 0" if "n = 0"
  proof -
    have "l < PAGE_SIZE" using a(2) that by simp
    then show ?thesis using al by (simp add: aligned_def)
  qed
  then show "l = 0 \<longleftrightarrow> n = 0" using a(1) by auto
qed

text \<open>
  The specification: a space is a map from addresses to pages, and an operation changes it on a range.
\<close>

type_synonym page_map = "u64 \<Rightarrow> page_view"

definition spec_unmap :: "u64 \<Rightarrow> u64 \<Rightarrow> page_map \<Rightarrow> page_map" where
  "spec_unmap va e f = (\<lambda>x. if va \<le> x \<and> x < e then None else f x)"

definition spec_map :: "u64 \<Rightarrow> u64 \<Rightarrow> Kind \<Rightarrow> 64 word \<Rightarrow> Backing \<Rightarrow> page_map \<Rightarrow> page_map" where
  "spec_map va e kind prot backing f =
     (\<lambda>x. if va \<le> x \<and> x < e then Some (kind, prot, advanced backing ((x - va) div PAGE_SIZE)) else f x)"

definition spec_protect :: "u64 \<Rightarrow> u64 \<Rightarrow> 64 word \<Rightarrow> page_map \<Rightarrow> page_map" where
  "spec_protect va e prot f =
     (\<lambda>x. if va \<le> x \<and> x < e then map_option (\<lambda>(k, _, b). (k, prot, b)) (f x) else f x)"

subsection \<open>Unmapping\<close>

lemma space_inv_parts:
  assumes "space_inv mx sp"
  shows "laid_out mx (areas sp)" "zero_ok sp" "tables_n sp = table_count (map_end mx) (spans (areas sp))"
    "funded sp" "charged sp = ncost sp" "Ledger_inv (account sp)" "charged sp \<le> used (account sp)" "\<not> vm_broken sp"
  using assms by (auto simp: space_inv_def funded_def)

lemma charge_same [simp]:
  "areas (sp\<lparr>account := l, charged := c\<rparr>) = areas sp" "split_bytes (sp\<lparr>account := l, charged := c\<rparr>) = split_bytes sp"
  "zero_ok (sp\<lparr>account := l, charged := c\<rparr>) = zero_ok sp" "ncost (sp\<lparr>account := l, charged := c\<rparr>) = ncost sp"
  by (auto simp: split_bytes_def area_at_def zero_ok_def ncost_def fun_eq_iff)

text \<open>What has become of a space whose pages of a range are gone.\<close>

definition unmapped_to :: "u64 \<Rightarrow> u64 \<Rightarrow> Space \<Rightarrow> Space \<Rightarrow> bool" where
  "unmapped_to va e sp sp' \<longleftrightarrow>
     view (areas sp') = spec_unmap va e (view (areas sp)) \<and>
     zero sp' = filter (\<lambda>q. \<not> (va \<le> fst q \<and> fst q < e)) (zero sp) \<and>
     brk sp' = unmap_brk (brk sp) va e \<and>
     used (account sp') + charged sp = used (account sp) + charged sp' \<and>
     (\<exists>us. unmapped sp' = unmapped sp @ (va, e) # us \<and> (\<forall>u \<in> set ((va, e) # us). clear_of (areas sp') u)) \<and>
     (\<forall>y. no_cut y (areas sp) \<longrightarrow> no_cut y (areas sp'))"

lemma unmap_cases:
  assumes inv: "space_inv mx sp" and mx: "user_max mx"
  obtains (refused) er where "unmap mx sp va len only = (Inl er, sp)"
  | (gone) sp' where "unmap mx sp va len only = (Inr (), sp')" "check_range mx va len = Inr (va + len)"
      "\<forall>p \<in> set (areas sp). fst p < va + len \<and> va < a_end (snd p) \<longrightarrow>
        a_kind (snd p) \<noteq> Plane \<and> (\<forall>k. only = Some k \<longrightarrow> a_kind (snd p) = k)"
      "space_inv mx sp'" "unmapped_to va (va + len) sp sp'"
proof (cases "check_range mx va len")
  case (Inl er)
  then show ?thesis using refused [of er] by (simp add: unmap_def)
next
  case (Inr e)
  note p = space_inv_parts [OF inv]
  have r: "aligned va" "aligned e" "va < e" "e \<le> map_end mx" "e = va + len" using Inr by (auto simp: check_range_Inr)
  define bad where "bad \<longleftrightarrow> (case only of Some kind \<Rightarrow> list_ex (\<lambda>p. a_kind (snd p) \<noteq> kind) (touched_areas sp va e)
    | None \<Rightarrow> False)"
  show ?thesis
  proof (cases "bad \<or> touches_plane sp va e")
    case True
    then show ?thesis using refused [of InvalidArgs] Inr by (auto simp: unmap_def bad_def)
  next
    case False
    have kinds: "\<forall>p \<in> set (areas sp). fst p < va + len \<and> va < a_end (snd p) \<longrightarrow>
        a_kind (snd p) \<noteq> Plane \<and> (\<forall>k. only = Some k \<longrightarrow> a_kind (snd p) = k)"
      using False touched_areas_set [OF p(1), of va e] r(5)
      by (auto simp: bad_def touches_plane_def list_ex_iff split: option.splits)
    show ?thesis
    proof (rule Space_charge_cases [OF p(4), of "split_bytes sp va e"])
      assume "Space_charge sp (split_bytes sp va e) = (Inl QuotaExceeded, sp)"
      then show ?thesis using refused [of QuotaExceeded] Inr False by (simp add: unmap_def bad_def)
    next
      let ?n = "split_bytes sp va e"
      let ?sp1 = "sp\<lparr>account := with_used (account sp) ?n, charged := charged sp + ?n\<rparr>"
      assume c: "Space_charge sp ?n = (Inr (), ?sp1)" "Ledger_inv (with_used (account sp) ?n)"
      have res: "unmap mx sp va len only = (Inr (), unmap_body mx ?sp1 va e)"
        using c(1) Inr False by (simp add: unmap_def bad_def)
      have "laid_out mx (areas ?sp1)" "zero_ok ?sp1" "tables_n ?sp1 = table_count (map_end mx) (spans (areas ?sp1))"
          "Ledger_inv (account ?sp1)" "charged ?sp1 \<le> used (account ?sp1)" "\<not> vm_broken ?sp1"
          "charged ?sp1 = ncost ?sp1 + split_bytes ?sp1 va e"
        using p c(2) by simp_all
      note b = unmap_body_correct [OF this r(1-4) mx]
      have "unmapped_to va e sp (unmap_body mx ?sp1 va e)"
        using b(2-5,7,8) by (simp add: unmapped_to_def spec_unmap_def fun_eq_iff)
      then show ?thesis using gone res Inr kinds b(1) r(5) by blast
    qed
  qed
qed

text \<open>Taking out the one area that is a data-plane mapping of a given object.\<close>

lemma exact_area_no_cut:
  assumes lo: "laid_out mx m" and a: "(va, a) \<in> set m" "a_end a = e"
  shows "no_cut va m" "no_cut e m" "bt_range va e m = [(va, a)]" "bt_remove va m = outside va e m"
proof -
  have inv: "bt_inv m" by (rule laid_out_bt_inv [OF lo])
  have ve: "va < e" using lo a by (auto simp: laid_out_def area_ok_def)
  have bef: "a_end (snd p) \<le> va" if "p \<in> set m" "fst p < va" for p
    using laid_out_unique [OF lo that(1) a(1)] that(2) by simp
  have aft: "e \<le> fst p" if "p \<in> set m" "va < fst p" for p
    using laid_out_unique [OF lo a(1) that(1)] that(2) a(2) by simp
  have eq: "p = (va, a)" if "p \<in> set m" "fst p = va" for p
    using bt_get_iff [OF inv, of va a] bt_get_iff [OF inv, of va "snd p"] that a(1) by (cases p) auto
  have range: "va \<le> fst p \<and> fst p < e \<longleftrightarrow> fst p = va" if "p \<in> set m" for p
    using aft [OF that] ve by force
  show "no_cut va m" using bef by (fastforce simp: no_cut_def)
  have "\<not> (fst p < e \<and> e < a_end (snd p))" if "p \<in> set m" for p
    using bef [OF that] aft [OF that] eq [OF that] a(2) ve by (cases "fst p" va rule: linorder_cases) auto
  then show "no_cut e m" by (simp add: no_cut_def)
  have fe: "bt_range va e m = filter (\<lambda>p. fst p = va) m"
    unfolding bt_range_def by (rule filter_cong) (use range in auto)
  show "bt_remove va m = outside va e m"
    unfolding bt_remove_def outside_def by (rule filter_cong) (use range in auto)
  have sorted: "sorted_wrt (\<lambda>p q. fst p < fst q) (filter (\<lambda>p. fst p = va) m)"
    using bt_inv_filter [OF inv, of "\<lambda>p. fst p = va"] unfolding bt_inv_def sorted_wrt_map .
  have single: "set (filter (\<lambda>p. fst p = va) m) = {(va, a)}"
  proof (intro equalityI subsetI)
    fix p assume "p \<in> set (filter (\<lambda>p. fst p = va) m)"
    then have "p \<in> set m" "fst p = va" by simp_all
    from eq [OF this] show "p \<in> {(va, a)}" by simp
  next
    fix p assume "p \<in> {(va, a)}"
    then show "p \<in> set (filter (\<lambda>p. fst p = va) m)" using a(1) by simp
  qed
  have "sorted_wrt (\<lambda>p q. fst p < fst q) ps \<and> set ps = {(va, a)} \<longrightarrow> ps = [(va, a)]" for ps
    by (cases ps rule: remdups_adj.cases) auto
  then show "bt_range va e m = [(va, a)]" unfolding fe using sorted single by simp
qed

lemma unmap_plane_cases:
  assumes inv: "space_inv mx sp" and mx: "user_max mx"
  obtains (refused) er where "unmap_plane mx sp va len memory = (Inl er, sp)"
  | (gone) sp' m where "unmap_plane mx sp va len memory = (Inr (), sp')" "mem_id m = mem_id memory"
      "\<forall>x. va \<le> x \<and> x < va + len \<longrightarrow> (\<exists>prot first w. view (areas sp) x = Some (Plane, prot, Object m first w))"
      "space_inv mx sp'" "view (areas sp') = spec_unmap va (va + len) (view (areas sp))"
      "zero sp' = zero sp" "brk sp' = brk sp" "used (account sp') + charged sp = used (account sp) + charged sp'"
      "\<exists>us. unmapped sp' = unmapped sp @ (va, va + len) # us \<and> (\<forall>u \<in> set ((va, va + len) # us). clear_of (areas sp') u)"
      "\<forall>y. no_cut y (areas sp) \<longrightarrow> no_cut y (areas sp')"
proof (cases "check_range mx va len")
  case (Inl er)
  then show ?thesis using refused [of er] by (simp add: unmap_plane_def)
next
  case (Inr e)
  note p = space_inv_parts [OF inv]
  have r: "va < e" "e \<le> map_end mx" "e = va + len" using Inr by (auto simp: check_range_Inr)
  show ?thesis
  proof (cases "\<exists>a m first w. bt_get (areas sp) va = Some a \<and> a_kind a = Plane \<and> a_end a = e \<and>
      a_backing a = Object m first w \<and> mem_id m = mem_id memory")
    case False
    then have "\<not> (case bt_get (areas sp) va of Some a \<Rightarrow> a_kind a = Plane \<and> a_end a = e \<and>
        (case a_backing a of Object m _ _ \<Rightarrow> mem_id m = mem_id memory | _ \<Rightarrow> False) | None \<Rightarrow> False)"
      by (auto split: option.split Backing.split)
    then show ?thesis using refused [of BadState] Inr by (simp add: unmap_plane_def)
  next
    case True
    then obtain a m first w where a: "bt_get (areas sp) va = Some a" "a_kind a = Plane" "a_end a = e"
      "a_backing a = Object m first w" "mem_id m = mem_id memory" by blast
    have mem: "(va, a) \<in> set (areas sp)" using a(1) bt_get_iff [OF laid_out_bt_inv [OF p(1)]] by simp
    note ex = exact_area_no_cut [OF p(1) mem a(3)]
    have v: "\<exists>prot first w. view (areas sp) x = Some (Plane, prot, Object m first w)" if "va \<le> x" "x < e" for x
      using view_unique [OF p(1) mem, of x] that a by (simp add: holds_def page_of_def)
    then have noz: "\<forall>k \<in> fst ` set (zero sp). \<not> (va \<le> k \<and> k < e)" using p(2) by (fastforce simp: zero_ok_def)
    obtain before after where nb: "neighbours (sp\<lparr>areas := outside va e (areas sp)\<rparr>) va e = (before, after)" by force
    define sp' where "sp' = snd (unmap_plane mx sp va len memory)"
    have eq: "unmap_plane mx sp va len memory = (Inr (), reclaim (unmap_ptes (settle ((sp\<lparr>areas := outside va e (areas sp)\<rparr>)
        \<lparr>tables_n := wsub (tables_n (sp\<lparr>areas := outside va e (areas sp)\<rparr>)) (t_pages (tables (map (\<lambda>p. (fst p, a_end (snd p)))
          (bt_range va e (areas sp))) before after (map_end mx)))\<rparr>)) va (e - va))
        (t_reclaim (tables (map (\<lambda>p. (fst p, a_end (snd p))) (bt_range va e (areas sp))) before after (map_end mx))))"
      using Inr a nb ex(3,4) by (simp add: unmap_plane_def Let_def)
    have res: "unmap_plane mx sp va len memory = (Inr (), sp')" by (simp add: sp'_def eq)
    have sp': "sp' = reclaim (unmap_ptes (settle ((sp\<lparr>areas := outside va e (areas sp)\<rparr>)
        \<lparr>tables_n := wsub (tables_n (sp\<lparr>areas := outside va e (areas sp)\<rparr>)) (t_pages (tables (map (\<lambda>p. (fst p, a_end (snd p)))
          (bt_range va e (areas sp))) before after (map_end mx)))\<rparr>)) va (e - va))
        (t_reclaim (tables (map (\<lambda>p. (fst p, a_end (snd p))) (bt_range va e (areas sp))) before after (map_end mx)))"
      by (simp only: sp'_def eq snd_conv)
    note t = take_out [OF p(1,3,4) mx ex(1,2) r(1,2) nb p(2) noz, folded sp' spec_unmap_def, unfolded r(3)]
    have "\<forall>y. no_cut y (areas sp) \<longrightarrow> no_cut y (areas sp')" by (simp add: t(6) outside_def no_cut_def)
    note t = t(1-4,7,8) this
    show ?thesis by (rule gone [OF res a(5) _ t]) (use v r(3) in simp)
  qed
qed

subsection \<open>Mapping\<close>

lemma table_count_less:
  assumes "\<forall>(s, e) \<in> A. e \<le> tp" "tp < 2 ^ 47"
  shows "table_count tp A < 2 ^ 27"
proof -
  have lvl: "card (touched sz A - {(tp - 1) div sz}) \<le> (tp - 1) div sz" for sz
  proof -
    have "touched sz A - {(tp - 1) div sz} \<subseteq> {..<(tp - 1) div sz}"
    proof
      fix r assume r: "r \<in> touched sz A - {(tp - 1) div sz}"
      then obtain s e where "(s, e) \<in> A" "r \<le> (e - 1) div sz" by (auto simp: touched_def)
      moreover from this have "(e - 1) div sz \<le> (tp - 1) div sz" using assms(1) by (intro div_le_mono) fastforce
      ultimately show "r \<in> {..<(tp - 1) div sz}" using r by simp
    qed
    then show ?thesis using card_mono [of "{..<(tp - 1) div sz}"] by fastforce
  qed
  have "table_count tp A \<le> (\<Sum>sz \<leftarrow> charge_TABLE_REGIONS. (tp - 1) div sz)"
    unfolding table_count_def by (rule sum_list_mono) (rule lvl)
  also have "\<dots> < 2 ^ 27" using assms(2) by (simp add: charge_TABLE_REGIONS_def)
  finally show ?thesis .
qed

lemma spans_top: "laid_out mx m \<Longrightarrow> \<forall>(s, e) \<in> spans m. e \<le> map_end mx"
  by (auto simp: spans_def laid_out_def area_ok_def)

text \<open>An area put where there is none.\<close>

lemma insert_area:
  assumes lo: "laid_out mx m" and ok: "area_ok mx (va, a)"
    and free: "\<forall>p \<in> set m. a_end (snd p) \<le> va \<or> a_end a \<le> fst p"
  shows "laid_out mx (bt_insert va a m)" "spans (bt_insert va a m) = spans m \<union> set [(va, a_end a)]"
    "view (bt_insert va a m) = (\<lambda>x. if va \<le> x \<and> x < a_end a then Some (page_of x (va, a)) else view m x)"
    "length (bt_insert va a m) = Suc (length m)"
proof -
  have inv: "bt_inv m" by (rule laid_out_bt_inv [OF lo])
  have va: "va < a_end a" using ok by (simp add: area_ok_def)
  have l: "a_end (snd p) \<le> va" if "p \<in> set (bt_to va m)" for p
    using free that va by (fastforce simp: bt_to_def)
  have r: "a_end a \<le> fst p" if "p \<in> set (bt_from va m)" for p
  proof -
    have p: "p \<in> set m" "va \<le> fst p" using that by (auto simp: bt_from_def)
    then have "fst p < a_end (snd p)" using lo by (auto simp: laid_out_def area_ok_def)
    then show ?thesis using free p by force
  qed
  have m: "m = bt_to va m @ bt_from va m" by (rule to_from [OF inv])
  have "bt_insert va a (bt_to va m @ bt_from va m) = bt_to va m @ (va, a) # bt_from va m"
  proof (rule bt_insert_middle)
    show "bt_inv (bt_to va m @ bt_from va m)" using inv m by metis
    show "\<forall>q \<in> set (bt_to va m). fst q < va" by (simp add: bt_to_def)
    show "\<forall>q \<in> set (bt_from va m). va < fst q" using r va by force
  qed
  then have eq: "bt_insert va a m = bt_to va m @ (va, a) # bt_from va m" using m by metis
  have lo': "laid_out mx (bt_to va m @ bt_from va m)" using lo m by metis
  then show "laid_out mx (bt_insert va a m)"
    unfolding eq using ok l r by (auto simp: laid_out_append laid_out_Cons)
  have "spans (bt_insert va a m) = spans (bt_to va m @ bt_from va m) \<union> {(va, a_end a)}"
    unfolding eq by (auto simp: spans_append spans_Cons)
  then show "spans (bt_insert va a m) = spans m \<union> set [(va, a_end a)]" using m by simp
  have "length (bt_insert va a m) = Suc (length (bt_to va m @ bt_from va m))" unfolding eq by simp
  then show "length (bt_insert va a m) = Suc (length m)" using m by simp
  have "view (bt_insert va a m) x = (if va \<le> x \<and> x < a_end a then Some (page_of x (va, a))
      else view (bt_to va m @ bt_from va m) x)" for x
  proof -
    have "view (bt_to va m) x = None" if "va \<le> x" using l that by (fastforce simp: view_None holds_def)
    then show ?thesis unfolding eq by (auto simp: view_append view_Cons holds_def split: option.splits)
  qed
  then show "view (bt_insert va a m) = (\<lambda>x. if va \<le> x \<and> x < a_end a then Some (page_of x (va, a)) else view m x)"
    using m by (simp add: fun_eq_iff)
qed

lemma insert_no_cut:
  assumes "no_cut y m" "y \<le> va \<or> a_end a \<le> y"
  shows "no_cut y (bt_insert va a m)"
proof -
  have "set (bt_insert va a m) \<subseteq> insert (va, a) (set m)" by (induction m) (auto split: if_splits)
  then show ?thesis using assms by (fastforce simp: no_cut_def)
qed

lemma fill_ptes_tables [simp]: "fill_ptes os (sp\<lparr>tables_n := n\<rparr>) = fill_ptes os sp"
  by (intro ext) (simp add: fill_ptes_def)

lemma map_at_cases:
  assumes inv: "space_inv mx sp" and mx: "user_max mx" and ok: "area_ok mx (va, a)" and e: "a_end a = va + len"
    and free: "\<forall>p \<in> set (areas sp). a_end (snd p) \<le> va \<or> va + len \<le> fst p"
  obtains (refused) er sp' where "map_at mx os sp va len a = (Inl er, sp')" "same_space sp sp'" "space_inv mx sp'"
  | (mapped) sp' where "map_at mx os sp va len a = (Inr va, sp')" "space_inv mx sp'"
      "areas sp' = bt_insert va a (areas sp)" "zero sp' = zero sp" "brk sp' = brk sp" "unmapped sp' = unmapped sp"
      "used (account sp') + charged sp = used (account sp) + charged sp'"
proof -
  note p = space_inv_parts [OF inv]
  have b: "va < va + len" "va + len \<le> map_end mx" using ok e by (auto simp: area_ok_def)
  then have w: "wadd va len = va + len" using user_max_bounds(2) [OF mx] by simp
  obtain before after where nb: "neighbours sp va (va + len) = (before, after)" by force
  define added where "added = tables [(va, va + len)] before after (map_end mx)"
  have free': "\<forall>p \<in> set (areas sp). a_end (snd p) \<le> va \<or> a_end a \<le> fst p" using free e by simp
  note ia = insert_area [OF p(1) ok free', unfolded e]
  have tc: "table_count (map_end mx) (spans (bt_insert va a (areas sp))) = tables_n sp + t_pages added"
    unfolding ia(2) added_def p(3) using b nb free by (intro tables_between [OF p(1)]) (auto simp: in_order_def)
  have lt: "tables_n sp + t_pages added < 2 ^ 27"
    unfolding tc [symmetric] by (rule table_count_less [OF spans_top [OF ia(1)] user_max_bounds(1) [OF mx]])
  then have tw: "wadd (tables_n sp) (t_pages added) = tables_n sp + t_pages added"
      "wsub (tables_n sp + t_pages added) (t_pages added) = tables_n sp" by (simp_all add: U64_def)
  define n where "n = charge_AREA + t_pages added * charge_PAGE"
  have n: "wadd charge_AREA (Tables_bytes added) = n"
    using lt by (simp add: n_def Tables_bytes_def charge_AREA_def charge_PAGE_def U64_def)
  show ?thesis
  proof (rule Space_charge_cases [OF p(4), of n])
    assume "Space_charge sp n = (Inl QuotaExceeded, sp)"
    then have "map_at mx os sp va len a = (Inl QuotaExceeded, sp)"
      using nb n w by (simp add: map_at_def Let_def flip: added_def)
    then show ?thesis using refused inv by simp
  next
    let ?sp1 = "sp\<lparr>account := with_used (account sp) n, charged := charged sp + n\<rparr>"
    assume c: "Space_charge sp n = (Inr (), ?sp1)" and l: "Ledger_inv (with_used (account sp) n)"
    let ?sp2 = "?sp1\<lparr>tables_n := tables_n sp + t_pages added\<rparr>"
    show ?thesis
    proof (cases "fill_ptes os ?sp2 va a va (va + len)")
      case (Inl er)
      then have res: "map_at mx os sp va len a = (Inl er, settle (?sp2\<lparr>tables_n := tables_n sp\<rparr>))"
        using nb n w c tw by (simp add: map_at_def Let_def flip: added_def)
      have s: "?sp2\<lparr>tables_n := tables_n sp\<rparr> = ?sp1" by simp
      have f1: "funded ?sp1" using p l by (simp add: funded_def)
      have "settle ?sp1 = sp\<lparr>account := (account sp)\<lparr>peak := max (peak (account sp)) (used (account sp) + n)\<rparr>\<rparr>"
        using settle_funded [OF f1] p(5) by simp
      then have "same_space sp (settle ?sp1)" unfolding same_space_def by blast
      moreover have "space_inv mx (settle ?sp1)"
        using settle_inv [OF f1] p by (simp add: space_inv_def zero_ok_def)
      ultimately show ?thesis using refused res s by simp
    next
      case (Inr u)
      then have res: "map_at mx os sp va len a = (Inr va, ?sp2\<lparr>areas := bt_insert va a (areas sp)\<rparr>)"
        using nb n w c tw by (simp add: map_at_def Let_def flip: added_def)
      have "space_inv mx (?sp2\<lparr>areas := bt_insert va a (areas sp)\<rparr>)"
      proof -
        have "view (areas sp) x = None" if "va \<le> x" "x < va + len" for x
          using free that by (fastforce simp: view_None holds_def)
        then have "zero_ok (?sp2\<lparr>areas := bt_insert va a (areas sp)\<rparr>)"
          using p(2) by (fastforce simp: zero_ok_def ia(3))
        moreover have "ncost (?sp2\<lparr>areas := bt_insert va a (areas sp)\<rparr>) = charged sp + n"
          using p(5) by (simp add: ncost_def ia(4) n_def algebra_simps)
        ultimately show ?thesis using ia(1) tc l p by (simp add: space_inv_def funded_def)
      qed
      then show ?thesis using mapped res by simp
    qed
  qed
qed

text \<open>
  First fit above \<open>MAP_BASE\<close>: a page stays free on either side. The search looks only at the areas that
  start at \<open>MAP_BASE\<close> or above it.
\<close>

lemma find_free_from_fits:
  assumes "laid_out mx m" "user_max mx"
  shows "c \<le> find_free_from m len c \<and>
    (\<forall>p \<in> set m. a_end (snd p) + PAGE_SIZE \<le> find_free_from m len c \<or>
      find_free_from m len c + len + PAGE_SIZE \<le> fst p)"
  using assms(1)
proof (induction m arbitrary: c)
  case (Cons p m)
  obtain s a where p: "p = (s, a)" by force
  have lo: "area_ok mx (s, a)" "\<forall>q \<in> set m. a_end a \<le> fst q" "laid_out mx m"
    using Cons.prems(1) p by (simp_all add: laid_out_Cons)
  have w: "wadd (a_end a) PAGE_SIZE = a_end a + PAGE_SIZE"
    using lo(1) user_max_bounds [OF assms(2)] by (simp add: area_ok_def PAGE_SIZE_def U64_def)
  let ?fits = "c + len + PAGE_SIZE < U64 \<and> c + len + PAGE_SIZE \<le> s"
  have step: "find_free_from (p # m) len c =
      (if ?fits then c else find_free_from m len (max c (a_end a + PAGE_SIZE)))"
    by (simp add: p w checked_add_def)
  show ?case
  proof (cases ?fits)
    case True
    then have "c + len + PAGE_SIZE \<le> fst q" if "q \<in> set m" for q
      using lo(1,2) that by (force simp: area_ok_def)
    then show ?thesis unfolding step using True p by auto
  next
    case False
    then show ?thesis using Cons.IH [OF lo(3), of "max c (a_end a + PAGE_SIZE)"] p unfolding step by auto
  qed
qed simp

text \<open>No area reaches across \<open>MAP_BASE\<close>.\<close>

definition base_clear :: "(u64, Area) bmap \<Rightarrow> bool" where
  "base_clear m \<longleftrightarrow> no_cut MAP_BASE m"

lemma find_free_from_aligned:
  "laid_out mx m \<Longrightarrow> user_max mx \<Longrightarrow> aligned c \<Longrightarrow> aligned (find_free_from m len c)"
proof (induction m arbitrary: c)
  case (Cons p m)
  have "aligned (a_end (snd p))" "a_end (snd p) \<le> map_end mx" "laid_out mx m"
    using Cons.prems(1) by (simp_all add: laid_out_Cons area_ok_def)
  moreover from this have "wadd (a_end (snd p)) PAGE_SIZE = a_end (snd p) + PAGE_SIZE"
    using user_max_bounds [OF Cons.prems(2)] by (simp add: PAGE_SIZE_def U64_def)
  ultimately show ?case using Cons.IH Cons.prems(2,3) by (cases p) (simp add: max_def)
qed simp

lemma find_free_fits:
  assumes lo: "laid_out mx (areas sp)" and mx: "user_max mx" and va: "find_free mx sp len = Inr va"
  shows "aligned va" "MAP_BASE + PAGE_SIZE \<le> va" "va + len \<le> map_end mx"
    "\<forall>p \<in> set (areas sp). MAP_BASE \<le> fst p \<longrightarrow>
      a_end (snd p) + PAGE_SIZE \<le> va \<or> va + len + PAGE_SIZE \<le> fst p"
    "base_clear (areas sp) \<Longrightarrow> \<forall>p \<in> set (areas sp).
      a_end (snd p) + PAGE_SIZE \<le> va \<or> va + len + PAGE_SIZE \<le> fst p"
proof -
  have lo': "laid_out mx (bt_from MAP_BASE (areas sp))" unfolding bt_from_def by (rule laid_out_filter [OF lo])
  have v: "va = find_free_from (bt_from MAP_BASE (areas sp)) len (MAP_BASE + PAGE_SIZE)" "va + len \<le> map_end mx"
    using va by (auto simp: find_free_def Let_def split: option.splits if_splits)
  note f = find_free_from_fits [OF lo' mx, of "MAP_BASE + PAGE_SIZE" len, folded v(1)]
  have "aligned (MAP_BASE + PAGE_SIZE)" by (simp add: MAP_BASE_def IMAGE_END_def aligned_def PAGE_SIZE_def)
  then show "aligned va" unfolding v(1) by (rule find_free_from_aligned [OF lo' mx])
  show base: "MAP_BASE + PAGE_SIZE \<le> va" "va + len \<le> map_end mx" using f v(2) by auto
  show above: "\<forall>p \<in> set (areas sp). MAP_BASE \<le> fst p \<longrightarrow>
      a_end (snd p) + PAGE_SIZE \<le> va \<or> va + len + PAGE_SIZE \<le> fst p"
    using f by (auto simp: bt_from_def)
  show "\<forall>p \<in> set (areas sp). a_end (snd p) + PAGE_SIZE \<le> va \<or> va + len + PAGE_SIZE \<le> fst p"
    if bc: "base_clear (areas sp)"
  proof
    fix p assume "p \<in> set (areas sp)"
    then show "a_end (snd p) + PAGE_SIZE \<le> va \<or> va + len + PAGE_SIZE \<le> fst p"
      using above bc base(1) by (cases "MAP_BASE \<le> fst p") (auto simp: base_clear_def no_cut_def not_le not_less)
  qed
qed

text \<open>The place \<open>map\<close> settles on is free, and what it took to free it is an \<open>unmap\<close>.\<close>

lemma map_place_cases:
  assumes inv: "space_inv mx sp" and mx: "user_max mx" and len: "aligned len" "0 < len"
    and at': "at = None \<Longrightarrow> base_clear (areas sp)"
  obtains (refused) er where "map_place mx sp at len fixed = (Inl er, sp)"
  | (found) va where "map_place mx sp at len fixed = (Inr va, sp)" "at \<noteq> None \<Longrightarrow> at = Some va"
      "aligned va" "IMAGE_START \<le> va" "va + len \<le> map_end mx"
      "\<forall>p \<in> set (areas sp). a_end (snd p) \<le> va \<or> va + len \<le> fst p" "at = None \<Longrightarrow> MAP_BASE < va"
  | (freed) va sp' where "map_place mx sp at len fixed = (Inr va, sp')" "at = Some va" "fixed"
      "aligned va" "IMAGE_START \<le> va" "va + len \<le> map_end mx"
      "unmap mx sp va len None = (Inr (), sp')" "space_inv mx sp'" "unmapped_to va (va + len) sp sp'"
      "\<forall>p \<in> set (areas sp'). a_end (snd p) \<le> va \<or> va + len \<le> fst p"
proof -
  note p = space_inv_parts [OF inv]
  show ?thesis
  proof (cases "at")
    case None
    show ?thesis
    proof (cases "find_free mx sp len")
      case (Inl er)
      then show ?thesis using refused None by (simp add: map_place_def)
    next
      case (Inr va)
      note f = find_free_fits [OF p(1) mx Inr]
      have "map_place mx sp at len fixed = (Inr va, sp)" using None Inr by (simp add: map_place_def)
      moreover have "IMAGE_START \<le> va" using f(2) by (simp add: MAP_BASE_def IMAGE_END_def IMAGE_START_def)
      moreover have "\<forall>p \<in> set (areas sp). a_end (snd p) \<le> va \<or> va + len \<le> fst p"
        using f(5) [OF at' [OF None]] by fastforce
      moreover have "MAP_BASE < va" using f(2) by (simp add: PAGE_SIZE_def)
      ultimately show ?thesis using found None f(1,3) by simp
    qed
  next
    case (Some va)
    show ?thesis
    proof (cases "check_range mx va len")
      case (Inl er)
      then show ?thesis using refused Some by (simp add: map_place_def)
    next
      case (Inr e)
      then have r: "e = va + len" "aligned va" "IMAGE_START \<le> va" "va + len \<le> map_end mx"
        by (auto simp: check_range_Inr)
      show ?thesis
      proof (cases "overlaps sp va e")
        case False
        then have "map_place mx sp at len fixed = (Inr va, sp)" using Some Inr by (simp add: map_place_def)
        moreover have "\<forall>p \<in> set (areas sp). a_end (snd p) \<le> va \<or> va + len \<le> fst p"
          using False r(1) unfolding overlaps_iff [OF p(1)] by (fastforce simp: not_less)
        ultimately show ?thesis using found Some r by simp
      next
        case over: True
        show ?thesis
        proof (cases fixed)
          case False
          then show ?thesis using refused Some Inr over by (simp add: map_place_def)
        next
          case True
          show ?thesis
          proof (rule unmap_cases [OF inv mx, of va len None])
            fix er assume "unmap mx sp va len None = (Inl er, sp)"
            then show ?thesis using refused Some Inr over True by (simp add: map_place_def)
          next
            fix sp'
            assume u: "unmap mx sp va len None = (Inr (), sp')" "space_inv mx sp'" "unmapped_to va (va + len) sp sp'"
            obtain us where "\<forall>u \<in> set ((va, va + len) # us). clear_of (areas sp') u"
              using u(3) unfolding unmapped_to_def by blast
            then have clr: "\<forall>p \<in> set (areas sp'). a_end (snd p) \<le> va \<or> va + len \<le> fst p"
              by (simp add: clear_of_def)
            then have "\<not> overlaps sp' va e"
              unfolding overlaps_iff [OF space_inv_parts(1) [OF u(2)]] r(1) by fastforce
            then have "map_place mx sp at len fixed = (Inr va, sp')"
              using Some Inr over True u(1) by (simp add: map_place_def)
            then show ?thesis using freed Some True r u clr by blast
          qed
        qed
      qed
    qed
  qed
qed

text \<open>A refused \<open>map\<close> leaves the space as it was, but for what a fixed one unmapped first.\<close>

definition at_most_unmapped :: "bool \<Rightarrow> u64 option \<Rightarrow> Space \<Rightarrow> Space \<Rightarrow> bool" where
  "at_most_unmapped fixed at sp sp' \<longleftrightarrow> same_space sp sp' \<or>
     (fixed \<and> (\<exists>va e sp1. at = Some va \<and> unmapped_to va e sp sp1 \<and> same_space sp1 sp'))"

lemma map_area_cases:
  assumes inv: "space_inv mx sp" and mx: "user_max mx" and at': "at = None \<Longrightarrow> base_clear (areas sp)"
  obtains (refused) er sp' where "map_area mx os sp at len0 kind prot backing fixed = (Inl er, sp')"
      "space_inv mx sp'" "at_most_unmapped fixed at sp sp'"
  | (mapped) va len sp' where "map_area mx os sp at len0 kind prot backing fixed = (Inr va, sp')"
      "at \<noteq> None \<Longrightarrow> at = Some va" "pages len0 = Inr len" "0 < len" "check_prot prot backing = Inr ()"
      "aligned va" "IMAGE_START \<le> va" "va + len \<le> map_end mx" "space_inv mx sp'"
      "view (areas sp') = spec_map va (va + len) kind prot backing (view (areas sp))"
      "fixed \<or> (\<forall>x. va \<le> x \<and> x < va + len \<longrightarrow> view (areas sp) x = None)"
      "fixed \<or> zero sp' = zero sp \<and> brk sp' = brk sp \<and> unmapped sp' = unmapped sp"
      "used (account sp') + charged sp = used (account sp) + charged sp'"
      "\<forall>y. no_cut y (areas sp) \<and> (y \<le> va \<or> va + len \<le> y) \<longrightarrow> no_cut y (areas sp')"
      "at = None \<Longrightarrow> MAP_BASE < va"
proof -
  note p = space_inv_parts [OF inv]
  show ?thesis
  proof (cases "check_prot prot backing = Inr () \<and> (\<exists>len. pages len0 = Inr len \<and> 0 < len)")
    case False
    have "\<exists>er. map_area mx os sp at len0 kind prot backing fixed = (Inl er, sp)"
      using False by (cases "check_prot prot backing"; cases "pages len0") (auto simp: map_area_def)
    then obtain er where "map_area mx os sp at len0 kind prot backing fixed = (Inl er, sp)" ..
    then show ?thesis using refused inv by (simp add: at_most_unmapped_def)
  next
    case True
    then obtain len where len: "pages len0 = Inr len" "0 < len" and pr: "check_prot prot backing = Inr ()" by blast
    let ?a = "\<lambda>va. \<lparr>a_end = va + len, a_kind = kind, a_prot = prot, a_backing = backing\<rparr>"
    have place: "map_area mx os sp at len0 kind prot backing fixed = map_at mx os sp1 va len (?a va)"
      if "map_place mx sp at len fixed = (Inr va, sp1)" "va + len \<le> map_end mx" for va sp1
      using that len pr user_max_bounds(2) [OF mx] by (simp add: map_area_def)
    have ok: "area_ok mx (va, ?a va)" if "aligned va" "IMAGE_START \<le> va" "va + len \<le> map_end mx" for va
      using that pr pages_fits(1) [OF len(1)] len(2) by (simp add: area_ok_def)
    have pv: "(\<lambda>x. if va \<le> x \<and> x < va + len then Some (page_of x (va, ?a va)) else f x) =
        spec_map va (va + len) kind prot backing f" for va f
      by (simp add: spec_map_def page_of_def fun_eq_iff)
    show ?thesis
    proof (rule map_place_cases [OF inv mx pages_fits(1) [OF len(1)] len(2) at'])
      fix er assume "map_place mx sp at len fixed = (Inl er, sp)"
      then have "map_area mx os sp at len0 kind prot backing fixed = (Inl er, sp)"
        using len pr by (simp add: map_area_def)
      then show ?thesis using refused inv by (simp add: at_most_unmapped_def)
    next
      fix va assume f: "map_place mx sp at len fixed = (Inr va, sp)" "at \<noteq> None \<Longrightarrow> at = Some va"
        "aligned va" "IMAGE_START \<le> va" "va + len \<le> map_end mx"
        "\<forall>p \<in> set (areas sp). a_end (snd p) \<le> va \<or> va + len \<le> fst p" "at = None \<Longrightarrow> MAP_BASE < va"
      have none: "\<forall>x. va \<le> x \<and> x < va + len \<longrightarrow> view (areas sp) x = None"
        using f(6) by (fastforce simp: view_None holds_def)
      note ar = insert_area [OF p(1) ok [OF f(3,4,5)], simplified, OF f(6)]
      show ?thesis
      proof (rule map_at_cases [OF inv mx ok [OF f(3,4,5)] _ f(6), of os])
        fix er sp' assume "map_at mx os sp va len (?a va) = (Inl er, sp')" "same_space sp sp'" "space_inv mx sp'"
        then show ?thesis using refused place [OF f(1,5)] by (simp add: at_most_unmapped_def)
      next
        fix sp' assume m: "map_at mx os sp va len (?a va) = (Inr va, sp')" "space_inv mx sp'"
          "areas sp' = bt_insert va (?a va) (areas sp)" "zero sp' = zero sp" "brk sp' = brk sp"
          "unmapped sp' = unmapped sp" "used (account sp') + charged sp = used (account sp) + charged sp'"
        have v: "view (areas sp') = spec_map va (va + len) kind prot backing (view (areas sp))"
          unfolding m(3) ar(3) pv by simp
        have "\<forall>y. no_cut y (areas sp) \<and> (y \<le> va \<or> va + len \<le> y) \<longrightarrow> no_cut y (areas sp')"
          unfolding m(3) using insert_no_cut [of _ "areas sp" va "?a va"] by simp
        note cut = this
        show ?thesis
          by (rule mapped [OF _ f(2) len pr f(3,4,5) m(2) v disjI2 [OF none] disjI2 m(7) cut f(7)])
            (use m place [OF f(1,5)] in simp_all)
      qed simp
    next
      fix va sp1 assume f: "map_place mx sp at len fixed = (Inr va, sp1)" "at = Some va" "fixed"
        "aligned va" "IMAGE_START \<le> va" "va + len \<le> map_end mx"
        "space_inv mx sp1" "unmapped_to va (va + len) sp sp1"
        "\<forall>p \<in> set (areas sp1). a_end (snd p) \<le> va \<or> va + len \<le> fst p"
      note ar = insert_area [OF space_inv_parts(1) [OF f(7)] ok [OF f(4,5,6)], simplified, OF f(9)]
      show ?thesis
      proof (rule map_at_cases [OF f(7) mx ok [OF f(4,5,6)] _ f(9), of os])
        fix er sp' assume "map_at mx os sp1 va len (?a va) = (Inl er, sp')" "same_space sp1 sp'" "space_inv mx sp'"
        then show ?thesis using refused place [OF f(1,6)] f(2,3,8) unfolding at_most_unmapped_def by metis
      next
        fix sp' assume m: "map_at mx os sp1 va len (?a va) = (Inr va, sp')" "space_inv mx sp'"
          "areas sp' = bt_insert va (?a va) (areas sp1)" "used (account sp') + charged sp1 = used (account sp1) + charged sp'"
        have v1: "view (areas sp1) = spec_unmap va (va + len) (view (areas sp))"
            "used (account sp1) + charged sp = used (account sp) + charged sp1"
          using f(8) by (simp_all add: unmapped_to_def)
        have v: "view (areas sp') = spec_map va (va + len) kind prot backing (view (areas sp))"
          unfolding m(3) ar(3) pv v1(1) by (auto simp: spec_map_def spec_unmap_def)
        have u: "used (account sp') + charged sp = used (account sp) + charged sp'" using m(4) v1(2) by linarith
        have "\<forall>y. no_cut y (areas sp) \<longrightarrow> no_cut y (areas sp1)" using f(8) by (simp add: unmapped_to_def)
        then have cut: "\<forall>y. no_cut y (areas sp) \<and> (y \<le> va \<or> va + len \<le> y) \<longrightarrow> no_cut y (areas sp')"
          unfolding m(3) using insert_no_cut [of _ "areas sp1" va "?a va"] by simp
        show ?thesis
          by (rule mapped [OF _ _ len pr f(4,5,6) m(2) v disjI1 [OF f(3)] disjI1 [OF f(3)] u cut])
            (use m(1) f(2) place [OF f(1,6)] in simp_all)
      qed simp
    qed
  qed
qed

end
