(* ===== verification/VmTouch.thy ===== *)
theory VmTouch
  imports VmOps
begin

unbundle bit_operations_syntax

text \<open>
  The operations of an address space that keep its layout: protecting, discarding, touching pages,
  the copies into and out of it, the program break, and its end.
\<close>

subsection \<open>Protecting\<close>

definition reprot :: "64 word \<Rightarrow> u64 set \<Rightarrow> u64 \<times> Area \<Rightarrow> u64 \<times> Area" where
  "reprot prot S p = (if fst p \<in> S then (fst p, (snd p)\<lparr>a_prot := prot\<rparr>) else p)"

lemma reprot_sel [simp]:
  "fst (reprot prot S p) = fst p" "a_end (snd (reprot prot S p)) = a_end (snd p)"
  "a_backing (snd (reprot prot S p)) = a_backing (snd p)" "a_kind (snd (reprot prot S p)) = a_kind (snd p)"
  by (simp_all add: reprot_def)

lemma bt_insert_map:
  "bt_inv m \<Longrightarrow> bt_get m s = Some a \<Longrightarrow>
    bt_insert s b m = map (\<lambda>p. if fst p = s then (s, b) else p) m"
proof (induction m)
  case (Cons p m)
  obtain k v where p: "p = (k, v)" by force
  show ?case
  proof (cases "s = k")
    case True
    then have "map (\<lambda>p. if fst p = s then (s, b) else p) m = m"
      using Cons.prems(1) p by (intro map_idI) auto
    then show ?thesis using p True by simp
  next
    case False
    then have g: "bt_get m s = Some a" using Cons.prems p by simp
    then have "(s, a) \<in> set m" using bt_get_iff [of m s a] Cons.prems(1) p by simp
    then have "k < s" using Cons.prems(1) p by force
    then show ?thesis using Cons p g False by simp
  qed
qed simp

lemma set_prot_map:
  assumes "bt_inv m"
  shows "set_prot prot s m = map (reprot prot {s}) m"
proof (cases "bt_get m s")
  case None
  then have "s \<notin> fst ` set m" unfolding dom_bt_get [symmetric] by (simp add: domIff)
  then have "map (reprot prot {s}) m = m" by (intro map_idI) (auto simp: reprot_def)
  then show ?thesis using None by (simp add: set_prot_def)
next
  case (Some a)
  have "p = (s, a)" if "p \<in> set m" "fst p = s" for p
    using bt_get_iff [OF assms, of s "snd p"] that Some by (cases p) simp
  then show ?thesis
    unfolding set_prot_def Some option.case bt_insert_map [OF assms Some]
    by (intro map_cong) (force simp: reprot_def)+
qed

lemma bt_inv_map_reprot [simp]: "bt_inv (map (reprot prot S) m) \<longleftrightarrow> bt_inv m"
  by (simp add: bt_inv_def comp_def)

lemma set_prots_map:
  "bt_inv m \<Longrightarrow> fold (set_prot prot) ss m = map (reprot prot (set ss)) m"
proof (induction ss arbitrary: m)
  case Nil
  then show ?case by (auto simp: reprot_def intro!: map_idI [symmetric])
next
  case (Cons s ss)
  then show ?case by (auto simp: set_prot_map reprot_def)
qed

lemma view_reprot_list:
  "(\<And>p. p \<in> set n \<Longrightarrow> holds x p \<Longrightarrow> fst p \<in> S \<longleftrightarrow> va \<le> x \<and> x < e) \<Longrightarrow>
    view (map (reprot prot S) n) x = spec_protect va e prot (view n) x"
proof (induction n)
  case (Cons p n)
  have "holds x (reprot prot S p) \<longleftrightarrow> holds x p" by (simp add: holds_def)
  then show ?case
    using Cons by (simp add: view_Cons spec_protect_def page_of_def reprot_def)
qed (simp add: spec_protect_def)

lemma view_reprot:
  assumes "no_cut va m" "no_cut e m"
  shows "view (map (reprot prot (fst ` set (bt_range va e m))) m) = spec_protect va e prot (view m)"
proof (rule ext, rule view_reprot_list)
  fix x p assume p: "p \<in> set m" "holds x p"
  have "fst p \<in> fst ` set (bt_range va e m) \<longleftrightarrow> va \<le> fst p \<and> fst p < e"
    using p(1) by (auto simp: bt_range_def)
  also have "\<dots> \<longleftrightarrow> va \<le> x \<and> x < e"
    using range_cases [OF assms p(1)] p(2) by (cases "fst p < va") (auto simp: holds_def)
  finally show "fst p \<in> fst ` set (bt_range va e m) \<longleftrightarrow> va \<le> x \<and> x < e" .
qed

lemma spans_reprot [simp]: "spans (map (reprot prot S) m) = spans m"
  by (simp add: spans_def image_image)

lemma laid_out_reprot:
  assumes "laid_out mx m" "\<And>p. p \<in> set m \<Longrightarrow> fst p \<in> S \<Longrightarrow> check_prot prot (a_backing (snd p)) = Inr ()"
  shows "laid_out mx (map (reprot prot S) m)"
proof -
  have "area_ok mx (reprot prot S p)" if "p \<in> set m" for p
    using assms that by (auto simp: laid_out_def area_ok_def reprot_def)
  then show ?thesis using assms(1) by (simp add: laid_out_def sorted_wrt_map)
qed

text \<open>What the walk over the areas below the end of the range has checked.\<close>

lemma checked_range:
  assumes lo: "laid_out mx (areas sp)" and ve: "va < e"
    and c: "protect_check (bt_to e (areas sp)) va prot only va = Inr cursor" "e \<le> cursor"
    and x: "va \<le> x" "x < e"
  obtains k prot' b where "view (areas sp) x = Some (k, prot', b)" "k \<noteq> Plane" "\<And>k'. only = Some k' \<Longrightarrow> k = k'"
    "check_prot prot b = Inr ()"
proof -
  have lo': "laid_out mx (bt_to e (areas sp))" unfolding bt_to_def by (rule laid_out_filter [OF lo])
  have "\<forall>p \<in> set (bt_to e (areas sp)). va < a_end (snd p) \<longrightarrow> va \<le> a_end (snd p)" by simp
  note pc = protect_check_covers [OF lo' c(1) order_refl this]
  obtain p where p: "p \<in> set (bt_to e (areas sp))" "holds x p" using pc x c(2) by (meson less_le_trans)
  have "va < a_end (snd p)" using p(2) x by (simp add: holds_def)
  then have q: "a_kind (snd p) \<noteq> Plane" "\<forall>k. only = Some k \<longrightarrow> a_kind (snd p) = k"
      "check_prot prot (a_backing (snd p)) = Inr ()"
    using pc p(1) by auto
  have "p \<in> set (areas sp)" using p(1) by (simp add: bt_to_def)
  then have "view (areas sp) x = Some (page_of x p)" by (rule view_unique [OF lo _ p(2)])
  then show ?thesis using that q by (auto simp: page_of_def)
qed

lemma protect_cases:
  assumes inv: "space_inv mx sp" and mx: "user_max mx"
  obtains (refused) er where "protect mx os sp va len prot only = (Inl er, sp)"
  | (changed) r sp' where "protect mx os sp va len prot only = (r, sp')" "check_range mx va len = Inr (va + len)"
      "\<forall>x. va \<le> x \<and> x < va + len \<longrightarrow> (\<exists>k prot' b. view (areas sp) x = Some (k, prot', b) \<and> k \<noteq> Plane \<and>
        (\<forall>k'. only = Some k' \<longrightarrow> k = k') \<and> check_prot prot b = Inr ())"
      "space_inv mx sp'" "view (areas sp') = spec_protect va (va + len) prot (view (areas sp))"
      "zero sp' = zero sp" "brk sp' = brk sp" "unmapped sp' = unmapped sp @ [(va, va + len)]"
      "used (account sp') + charged sp = used (account sp) + charged sp'"
      "\<forall>y. no_cut y (areas sp) \<longrightarrow> no_cut y (areas sp')"
proof (cases "check_range mx va len")
  case (Inl er)
  then show ?thesis using refused by (simp add: protect_def)
next
  case (Inr e)
  note p = space_inv_parts [OF inv]
  have r: "aligned va" "aligned e" "va < e" "e \<le> map_end mx" "e = va + len" using Inr by (auto simp: check_range_Inr)
  show ?thesis
  proof (cases "\<exists>cursor. protect_check (bt_to e (areas sp)) va prot only va = Inr cursor \<and> e \<le> cursor")
    case False
    have "\<exists>er. protect mx os sp va len prot only = (Inl er, sp)"
      using False Inr by (cases "protect_check (bt_to e (areas sp)) va prot only va") (auto simp: protect_def not_le)
    then show ?thesis using refused by blast
  next
    case True
    then obtain cursor where c: "protect_check (bt_to e (areas sp)) va prot only va = Inr cursor" "e \<le> cursor" by blast
    have chk: "\<exists>k prot' b. view (areas sp) x = Some (k, prot', b) \<and> k \<noteq> Plane \<and>
        (\<forall>k'. only = Some k' \<longrightarrow> k = k') \<and> check_prot prot b = Inr ()" if "va \<le> x" "x < e" for x
      by (rule checked_range [OF p(1) r(3) c that]) blast
    show ?thesis
    proof (rule Space_charge_cases [OF p(4), of "split_bytes sp va e"])
      assume "Space_charge sp (split_bytes sp va e) = (Inl QuotaExceeded, sp)"
      then have "protect mx os sp va len prot only = (Inl QuotaExceeded, sp)"
        using Inr c by (simp add: protect_def)
      then show ?thesis using refused by simp
    next
      let ?n = "split_bytes sp va e"
      define sp1 where "sp1 = sp\<lparr>account := with_used (account sp) ?n, charged := charged sp + ?n\<rparr>"
      assume g: "Space_charge sp ?n = (Inr (), sp\<lparr>account := with_used (account sp) ?n, charged := charged sp + ?n\<rparr>)"
        "Ledger_inv (with_used (account sp) ?n)"
      have lo1: "laid_out mx (areas sp1)" using p(1) by (simp add: sp1_def)
      note s = split_both [OF lo1 r(1-3)]
      define sp2 where "sp2 = split (split sp1 va) e"
      note s = s [folded sp2_def]
      have same: "zero sp2 = zero sp" "tables_n sp2 = tables_n sp" "charged sp2 = charged sp + ?n"
          "account sp2 = with_used (account sp) ?n" "vm_broken sp2 = vm_broken sp" "brk sp2 = brk sp"
          "unmapped sp2 = unmapped sp" "split_bytes sp1 va e = ?n" "areas sp1 = areas sp"
        by (simp_all add: sp2_def sp1_def)
      have f2: "ncost sp2 = charged sp2" "funded sp2"
        using s(6) p g(2) unfolding funded_def ncost_def same by simp_all
      have st: "settle sp2 = sp2" using settle_funded [OF f2(2)] f2(1) by simp
      then have st': "settle (split (split sp1 va) e) = sp2" by (simp add: sp2_def)
      have g1: "Space_charge sp ?n = (Inr (), sp1)" using g(1) by (simp add: sp1_def)
      have e64: "e < U64" using r(4) user_max_bounds(2) [OF mx] by simp
      let ?ss = "map fst (bt_range va e (areas sp2))"
      define sp3 where "sp3 = sp2\<lparr>areas := map (reprot prot (set ?ss)) (areas sp2), unmapped := unmapped sp @ [(va, e)]\<rparr>"
      have res: "protect mx os sp va len prot only = (fill_all os sp3 ?ss, sp3)"
        using Inr c g1 st' set_prots_map [OF laid_out_bt_inv [OF s(1)], of prot ?ss] same(7) r(3) e64
        by (simp add: protect_def Let_def sp3_def unmap_ptes_def)
      have v2: "view (areas sp2) = view (areas sp)" using s(2) same by simp
      have v: "view (areas sp3) = spec_protect va e prot (view (areas sp))"
        using view_reprot [OF s(4,5)] v2 by (simp add: sp3_def)
      have "laid_out mx (areas sp3)"
      proof -
        have "check_prot prot (a_backing (snd q)) = Inr ()" if q: "q \<in> set (areas sp2)" "fst q \<in> set ?ss" for q
        proof -
          have x: "va \<le> fst q" "fst q < e" using q(2) by (auto simp: bt_range_def)
          have "holds (fst q) q" using s(1) q(1) by (auto simp: laid_out_def area_ok_def holds_def)
          then have "view (areas sp) (fst q) = Some (page_of (fst q) q)"
            using view_unique [OF s(1) q(1)] v2 by simp
          then show ?thesis using chk [OF x] by (auto simp: page_of_def)
        qed
        then show ?thesis unfolding sp3_def by (simp add: laid_out_reprot [OF s(1)])
      qed
      moreover have "zero_ok sp3"
      proof -
        have "zero sp3 = zero sp" using same(1) by (simp add: sp3_def)
        then show ?thesis using p(2) unfolding zero_ok_def v spec_protect_def by fastforce
      qed
      moreover have "ncost sp3 = ncost sp2" by (simp add: ncost_def sp3_def)
      ultimately have "space_inv mx sp3"
        using f2 s(3) same p(3) by (simp add: space_inv_def sp3_def funded_def)
      moreover have "\<forall>y. no_cut y (areas sp) \<longrightarrow> no_cut y (areas sp3)"
      proof (intro allI impI)
        fix y assume "no_cut y (areas sp)"
        then have "no_cut y (areas sp2)"
          unfolding sp2_def using split_no_cut [OF split_keeps(1) [OF lo1 r(1)] split_no_cut [OF lo1]] same(9) by simp
        then show "no_cut y (areas sp3)" by (simp add: no_cut_def sp3_def)
      qed
      ultimately show ?thesis
        using changed [OF res] chk v same Inr r(5) by (simp add: sp3_def)
    qed
  qed
qed

subsection \<open>Discarding\<close>

lemma discard_cases:
  assumes inv: "space_inv mx sp" and mx: "user_max mx"
  obtains (refused) er where "discard mx sp va len = (Inl er, sp)"
  | (dropped) sp' where "discard mx sp va len = (Inr (), sp')"
      "\<forall>x. va \<le> x \<and> x < va + len \<longrightarrow> (\<exists>k prot b. view (areas sp) x = Some (k, prot, b) \<and> k \<noteq> Plane)"
      "space_inv mx sp'" "areas sp' = areas sp" "brk sp' = brk sp"
      "zero sp' = filter (\<lambda>q. \<not> (va \<le> fst q \<and> fst q < va + len)) (zero sp)"
      "unmapped sp' = unmapped sp @ [(va, va + len)]"
      "used (account sp') + charged sp = used (account sp) + charged sp'"
proof (cases "check_range mx va len")
  case (Inl er)
  then show ?thesis using refused by (simp add: discard_def)
next
  case (Inr e)
  note p = space_inv_parts [OF inv]
  have r: "va < e" "e \<le> map_end mx" "e = va + len" using Inr by (auto simp: check_range_Inr)
  have e64: "e < U64" using r(2) user_max_bounds(2) [OF mx] by simp
  show ?thesis
  proof (cases "\<exists>cursor. discard_check (bt_to e (areas sp)) va va = Inr cursor \<and> e \<le> cursor")
    case False
    have "\<exists>er. discard mx sp va len = (Inl er, sp)"
      using False Inr by (cases "discard_check (bt_to e (areas sp)) va va") (auto simp: discard_def not_le)
    then show ?thesis using refused by blast
  next
    case True
    then obtain cursor where c: "discard_check (bt_to e (areas sp)) va va = Inr cursor" "e \<le> cursor" by blast
    have chk: "\<exists>k prot b. view (areas sp) x = Some (k, prot, b) \<and> k \<noteq> Plane" if "va \<le> x" "x < e" for x
      by (rule checked_range [OF p(1) r(1) c(1) [unfolded discard_check_protect] c(2) that]) blast
    let ?z = "filter (\<lambda>q. \<not> (va \<le> fst q \<and> fst q < e)) (zero sp)"
    define sp1 where "sp1 = sp\<lparr>zero := ?z\<rparr>"
    have "length ?z * charge_ZERO_PAGE \<le> length (zero sp) * charge_ZERO_PAGE" by (intro mult_le_mono1 length_filter_le)
    then have "ncost sp1 \<le> charged sp" unfolding sp1_def p(5) ncost_def by simp
    then have f: "funded sp1" using p by (simp add: funded_def sp1_def)
    note st = settle_inv [OF f]
    have res: "discard mx sp va len = (Inr (), (settle sp1)\<lparr>unmapped := unmapped sp @ [(va, e)]\<rparr>)"
      using Inr c r(1) e64 st(8) by (simp add: discard_def Let_def remove_range unmap_ptes_def sp1_def)
    have "zero_ok (settle sp1)" using p(2) st(4,5) by (auto simp: zero_ok_def sp1_def bt_inv_filter)
    then have "space_inv mx ((settle sp1)\<lparr>unmapped := unmapped sp @ [(va, e)]\<rparr>)"
      using p st by (simp add: space_inv_def funded_def zero_ok_def sp1_def)
    then show ?thesis
      using dropped [OF res] chk st p(5) by (simp add: sp1_def r(3))
  qed
qed

subsection \<open>Touching\<close>

text \<open>A space in which, at most, more zero pages have been given frames.\<close>

definition only_touched :: "Space \<Rightarrow> Space \<Rightarrow> bool" where
  "only_touched sp sp' \<longleftrightarrow>
     areas sp' = areas sp \<and> brk sp' = brk sp \<and> unmapped sp' = unmapped sp \<and>
     bt_get (zero sp) \<subseteq>\<^sub>m bt_get (zero sp') \<and>
     used (account sp') + charged sp = used (account sp) + charged sp'"

lemma only_touched_refl [simp]: "only_touched sp sp"
  by (simp add: only_touched_def)

lemma only_touched_trans: "only_touched s t \<Longrightarrow> only_touched t u \<Longrightarrow> only_touched s u"
  by (auto simp: only_touched_def intro: map_le_trans)

lemma only_touched_copied [simp]: "only_touched sp (sp'\<lparr>copied := n\<rparr>) = only_touched sp sp'"
  by (simp add: only_touched_def)

lemma space_inv_copied [simp]: "space_inv mx (sp\<lparr>copied := n\<rparr>) = space_inv mx sp"
  by (simp add: space_inv_def zero_ok_def funded_def)

lemma bt_insert_length: "bt_get m k = None \<Longrightarrow> length (bt_insert k v m) = Suc (length m)"
  by (induction m) (auto split: if_splits)

lemma frame_of_touched:
  assumes inv: "space_inv mx sp" and a: "area_at sp page = Some (s, a)" and al: "aligned page"
    and res: "frame_of os sp s a page = (r, sp')"
  shows "space_inv mx sp'" "only_touched sp sp'"
    "r = Inr f \<Longrightarrow> a_backing a = Zero \<Longrightarrow> bt_get (zero sp') page = Some f"
    "copied sp' = copied sp" "r = Inl Fault \<Longrightarrow> \<exists>d off w. a_backing a = Device d off w"
proof -
  note p = space_inv_parts [OF inv]
  have v: "view (areas sp) page = Some (page_of page (s, a))" by (rule area_at_view [OF p(1) a])
  have bi: "bt_inv (zero sp)" using p(2) by (simp add: zero_ok_def)
  have "space_inv mx sp' \<and> only_touched sp sp' \<and> (r = Inr f \<longrightarrow> a_backing a = Zero \<longrightarrow> bt_get (zero sp') page = Some f) \<and>
      copied sp' = copied sp \<and> (r = Inl Fault \<longrightarrow> (\<exists>d off w. a_backing a = Device d off w))"
  proof (cases "a_backing a = Zero \<and> bt_get (zero sp) page = None")
    case False
    then show ?thesis using res inv by (auto simp: frame_of_def Let_def split: Backing.splits option.splits if_splits)
  next
    case True
    show ?thesis
    proof (rule Space_charge_cases [OF p(4), of charge_ZERO_PAGE])
      assume "Space_charge sp charge_ZERO_PAGE = (Inl QuotaExceeded, sp)"
      then show ?thesis using True res inv by (auto simp: frame_of_def)
    next
      define sp1 where "sp1 = sp\<lparr>account := with_used (account sp) charge_ZERO_PAGE, charged := charged sp + charge_ZERO_PAGE\<rparr>"
      assume "Space_charge sp charge_ZERO_PAGE = (Inr (), sp\<lparr>account := with_used (account sp) charge_ZERO_PAGE,
          charged := charged sp + charge_ZERO_PAGE\<rparr>)" and l: "Ledger_inv (with_used (account sp) charge_ZERO_PAGE)"
      then have g: "Space_charge sp charge_ZERO_PAGE = (Inr (), sp1)" by (simp add: sp1_def)
      have f1: "funded sp1" using p l by (simp add: funded_def sp1_def)
      show ?thesis
      proof (cases "zeroed_frame os page")
        case None
        then have "r = Inl NoMemory" "sp' = settle sp1" using True res g by (auto simp: frame_of_def)
        then show ?thesis
          using settle_inv [OF f1] p by (simp add: space_inv_def only_touched_def zero_ok_def sp1_def)
      next
        case (Some f')
        then have rs: "r = Inr f'" "sp' = sp1\<lparr>zero := bt_insert page f' (zero sp)\<rparr>"
          using True res g by (auto simp: frame_of_def sp1_def)
        have "\<exists>kind prot. view (areas sp) page = Some (kind, prot, Zero)" using v True by (simp add: page_of_def)
        then have "zero_ok sp'"
          using p(2) al bt_insert_inv [OF bi] by (auto simp: rs zero_ok_def sp1_def set_bt_insert)
        moreover have "length (bt_insert page f' (zero sp)) = Suc (length (zero sp))"
          using True by (intro bt_insert_length) simp
        ultimately have "space_inv mx sp'" using p l by (simp add: rs space_inv_def funded_def sp1_def ncost_def)
        then show ?thesis using True bi by (auto simp: rs only_touched_def sp1_def map_le_def)
      qed
    qed
  qed
  then show "space_inv mx sp'" "only_touched sp sp'" "copied sp' = copied sp"
    "r = Inr f \<Longrightarrow> a_backing a = Zero \<Longrightarrow> bt_get (zero sp') page = Some f"
    "r = Inl Fault \<Longrightarrow> \<exists>d off w. a_backing a = Device d off w" by blast+
qed

lemma touch_touched:
  assumes inv: "space_inv mx sp" and a: "area_at sp page = Some (s, a)" and al: "aligned page"
    and res: "touch os sp s a page = (r, sp')"
  shows "space_inv mx sp'" "only_touched sp sp'" "copied sp' = copied sp"
    "r = Inr () \<Longrightarrow> present os page \<or>
      (\<forall>f. a_backing a = Zero \<longrightarrow> bt_get (zero sp') page \<noteq> None)"
proof -
  obtain r1 sp1 where f: "frame_of os sp s a page = (r1, sp1)" by force
  note t = frame_of_touched [OF inv a al f]
  have c: "sp' = sp \<and> (r = Inr () \<longrightarrow> present os page) \<or> sp' = sp1 \<and> (r = Inr () \<longrightarrow> (\<exists>f. r1 = Inr f))"
    using res f by (auto simp: touch_def split: if_splits sum.splits)
  show "space_inv mx sp'" "only_touched sp sp'" "copied sp' = copied sp" using c t inv by auto
  show "present os page \<or> (\<forall>f. a_backing a = Zero \<longrightarrow> bt_get (zero sp') page \<noteq> None)" if "r = Inr ()"
    using c that t(3) by auto
qed

lemma fault_touched:
  assumes inv: "space_inv mx sp" and res: "fault os sp addr access = (r, sp')"
  shows "space_inv mx sp'" "only_touched sp sp'"
    "r = Inr True \<Longrightarrow> \<exists>k prot b. view (areas sp) (page_floor addr) = Some (k, prot, b) \<and> allows prot access"
proof -
  note p = space_inv_parts [OF inv]
  have "space_inv mx sp' \<and> only_touched sp sp' \<and>
    (r = Inr True \<longrightarrow> (\<exists>k prot b. view (areas sp) (page_floor addr) = Some (k, prot, b) \<and> allows prot access))"
  proof (cases "area_at sp (page_floor addr)")
    case None
    then show ?thesis using res inv by (auto simp: fault_def)
  next
    case (Some q)
    obtain s a where q: "q = (s, a)" by force
    obtain r1 sp1 where t: "touch os sp s a (page_floor addr) = (r1, sp1)" by force
    note tt = touch_touched [OF inv Some [unfolded q] aligned_page_floor t]
    have "view (areas sp) (page_floor addr) = Some (page_of (page_floor addr) (s, a))"
      by (rule area_at_view [OF p(1) Some [unfolded q]])
    then show ?thesis
      using res tt(1,2) inv Some q t by (auto simp: fault_def Let_def page_of_def split: if_splits sum.splits)
  qed
  then show "space_inv mx sp'" "only_touched sp sp'"
    "r = Inr True \<Longrightarrow> \<exists>k prot b. view (areas sp) (page_floor addr) = Some (k, prot, b) \<and> allows prot access"
    by blast+
qed

text \<open>Page by page, every page of the range allows the access.\<close>

definition accessible :: "(u64, Area) bmap \<Rightarrow> bool \<Rightarrow> u64 \<Rightarrow> bool" where
  "accessible m wr x \<longleftrightarrow>
     (\<exists>k prot b. view m x = Some (k, prot, b) \<and> allows prot (if wr then Write else Read))"

lemma aligned_next:
  assumes "aligned a" "aligned b" "a < b"
  shows "a + PAGE_SIZE \<le> b"
proof -
  have "b - a > 0" "PAGE_SIZE dvd b - a" using assms by (auto simp: aligned_def intro!: dvd_diff_nat)
  then have "PAGE_SIZE \<le> b - a" by (rule dvd_imp_le [rotated])
  then show ?thesis using assms(3) by simp
qed

declare populate_from.simps [simp del] each_page.simps [simp del]

lemma populate_from_touched:
  assumes "space_inv mx sp" "aligned page" "populate_from os sp page e wr = (r, sp')"
  shows "space_inv mx sp' \<and> only_touched sp sp' \<and>
    (r = Inr () \<longrightarrow> (\<forall>x. page \<le> x \<and> x < e \<and> aligned x \<longrightarrow> accessible (areas sp) wr x))"
  using assms
proof (induction os sp page e wr rule: populate_from.induct)
  case (1 os sp page e wr)
  note inv = "1.prems"(1)
  have eq: "(if page < e then case area_at sp page of
          None \<Rightarrow> (Inl Fault, sp)
        | Some (s, a) \<Rightarrow>
            if \<not> allows (a_prot a) (if wr then Write else Read) then (Inl Fault, sp)
            else case touch os sp s a page of
              (Inl er, sp1) \<Rightarrow> (Inl er, sp1)
            | (Inr _, sp1) \<Rightarrow> populate_from os sp1 (page + PAGE_SIZE) e wr
      else (Inr (), sp)) = (r, sp')"
    using "1.prems"(3) by (subst (asm) populate_from.simps)
  show ?case
  proof (cases "page < e \<and> area_at sp page \<noteq> None")
    case False
    have "sp' = sp \<and> (r = Inr () \<longrightarrow> \<not> page < e)"
    proof (cases "page < e")
      case True
      then have "area_at sp page = None" using False by blast
      then show ?thesis using eq True by auto
    next
      case False
      then show ?thesis using eq by auto
    qed
    then show ?thesis using inv by auto
  next
    case True
    then obtain s a where a: "area_at sp page = Some (s, a)" by force
    have v: "view (areas sp) page = Some (page_of page (s, a))"
      by (rule area_at_view [OF space_inv_parts(1) [OF inv] a])
    show ?thesis
    proof (cases "allows (a_prot a) (if wr then Write else Read)")
      case False
      then show ?thesis using eq inv True a by auto
    next
      case ok: True
      obtain r1 sp1 where t: "touch os sp s a page = (r1, sp1)" by force
      note tt = touch_touched [OF inv a "1.prems"(2) t]
      show ?thesis
      proof (cases r1)
        case (Inl er)
        then show ?thesis using eq True a ok t tt by auto
      next
        case (Inr u)
        then have rec: "populate_from os sp1 (page + PAGE_SIZE) e wr = (r, sp')"
          using eq True a ok t by auto
        have al: "aligned (page + PAGE_SIZE)" using "1.prems"(2) by simp
        have "space_inv mx sp' \<and> only_touched sp1 sp' \<and>
          (r = Inr () \<longrightarrow> (\<forall>x. page + PAGE_SIZE \<le> x \<and> x < e \<and> aligned x \<longrightarrow> accessible (areas sp1) wr x))"
          by (rule "1.IH" [OF _ a refl _ t [symmetric] Inr tt(1) al rec]) (use True ok in simp_all)
        moreover have "accessible (areas sp) wr page" using v ok by (auto simp: accessible_def page_of_def)
        moreover have "areas sp1 = areas sp" using tt(2) by (simp add: only_touched_def)
        moreover have "x = page \<or> page + PAGE_SIZE \<le> x" if "page \<le> x" "aligned x" for x
          using aligned_next [OF "1.prems"(2) that(2)] that(1) by (cases "x = page") simp_all
        ultimately show ?thesis using only_touched_trans [OF tt(2)] by auto
      qed
    qed
  qed
qed

lemma populate_touched:
  assumes inv: "space_inv mx sp" and res: "populate os sp va len wr = (r, sp')"
  shows "space_inv mx sp'" "only_touched sp sp'"
    "r = Inr () \<Longrightarrow> va \<le> x \<Longrightarrow> x < va + len \<Longrightarrow> accessible (areas sp) wr (page_floor x)"
proof -
  have "space_inv mx sp' \<and> only_touched sp sp' \<and>
      (r = Inr () \<longrightarrow> va \<le> x \<and> x < va + len \<longrightarrow> accessible (areas sp) wr (page_floor x))"
  proof (cases "len = 0 \<or> checked_add va len = None")
    case True
    then show ?thesis using inv res by (cases "len = 0") (auto simp: populate_def checked_add_def)
  next
    case False
    then have "populate_from os sp (page_floor va) (va + len) wr = (r, sp')"
      using res by (auto simp: populate_def split: option.splits)
    note p = populate_from_touched [OF inv aligned_page_floor this]
    have "page_floor va \<le> page_floor x" if "va \<le> x"
      using that by (simp add: page_floor_div div_le_mono)
    moreover have "page_floor x < va + len" if "x < va + len"
      using that page_floor_le [of x] by linarith
    ultimately show ?thesis using p by auto
  qed
  then show "space_inv mx sp'" "only_touched sp sp'"
    "r = Inr () \<Longrightarrow> va \<le> x \<Longrightarrow> x < va + len \<Longrightarrow> accessible (areas sp) wr (page_floor x)" by blast+
qed

text \<open>One round of \<open>each_page\<close>: the page of the next byte, up to the page's end or the buffer's.\<close>

lemma each_page_round:
  assumes inv: "space_inv mx sp" and dn: "dn < len" and res: "each_page os copy sp va len wr dn = (r, sp')"
  defines "page \<equiv> page_floor (va + dn)"
  defines "n \<equiv> min (PAGE_SIZE - (va + dn - page)) (len - dn)"
  obtains (stopped) er where "r = Inl er" "space_inv mx sp'" "only_touched sp sp'"
  | (copied) sp1 f where "each_page os copy (sp1\<lparr>copied := wadd (copied sp) n\<rparr>) va len wr (dn + n) = (r, sp')"
      "space_inv mx sp1" "only_touched sp sp1" "accessible (areas sp) wr page" "va + dn < U64"
      "copy f (va + dn - page) dn n" "0 < n" "dn + n \<le> len" "va + (dn + n) \<le> page + PAGE_SIZE"
proof -
  have n: "0 < n" "dn + n \<le> len" "va + (dn + n) \<le> page + PAGE_SIZE"
    using dn page_floor_gt [of "va + dn"] page_floor_le [of "va + dn"] by (auto simp: n_def page_def)
  have al: "aligned page" by (simp add: page_def)
  show ?thesis
  proof (cases "va + dn < U64 \<and> area_at sp page \<noteq> None")
    case False
    have "(r, sp') = (Inl Fault, sp)"
      unfolding res [symmetric] each_page.simps [of os copy sp va len wr dn]
      using False dn by (auto simp: checked_add_def page_def Let_def split: option.split)
    then show ?thesis using stopped inv by simp
  next
    case True
    then obtain s a where a: "area_at sp page = Some (s, a)" by force
    have v: "view (areas sp) page = Some (page_of page (s, a))"
      by (rule area_at_view [OF space_inv_parts(1) [OF inv] a])
    have step: "(r, sp') = (if \<not> allows (a_prot a) (if wr then Write else Read) then (Inl Fault, sp)
        else case frame_of os sp s a page of
          (Inl er, sp1) \<Rightarrow> (Inl er, sp1)
        | (Inr f, sp1) \<Rightarrow>
            (case (if a_backing a = Zero then touch os sp1 s a page else (Inr (), sp1)) of
               (Inl er, sp2) \<Rightarrow> (Inl er, sp2)
             | (Inr _, sp2) \<Rightarrow>
                 if \<not> copy f (va + dn - page) dn n then (Inl Fault, sp2)
                 else each_page os copy (sp2\<lparr>copied := wadd (copied sp2) n\<rparr>) va len wr (dn + n)))"
      unfolding res [symmetric] each_page.simps [of os copy sp va len wr dn] n_def page_def
      using True a dn by (simp add: checked_add_def page_def Let_def)
    show ?thesis
    proof (cases "allows (a_prot a) (if wr then Write else Read)")
      case False
      then show ?thesis using stopped inv step by simp
    next
      case ok: True
      have acc: "accessible (areas sp) wr page" using v ok by (auto simp: accessible_def page_of_def)
      obtain r1 sp1 where f: "frame_of os sp s a page = (r1, sp1)" by force
      note ft = frame_of_touched [OF inv a al f]
      have a1: "area_at sp1 page = Some (s, a)" using ft(2) a by (simp add: only_touched_def area_at_def)
      obtain r2 sp2 where t: "(if a_backing a = Zero then touch os sp1 s a page else (Inr (), sp1)) = (r2, sp2)" by force
      have tt: "space_inv mx sp2" "only_touched sp1 sp2" "copied sp2 = copied sp1"
        using t touch_touched [OF ft(1) a1 al] ft(1) by (auto split: if_splits)
      have ot: "only_touched sp sp2" by (rule only_touched_trans [OF ft(2) tt(2)])
      show ?thesis
      proof (cases "\<exists>fr u. r1 = Inr fr \<and> r2 = Inr u \<and> copy fr (va + dn - page) dn n")
        case False
        then show ?thesis
          using stopped step ok f t ft(1,2) tt(1) ot by (auto split: sum.splits if_splits)
      next
        case True
        then obtain fr u where c: "r1 = Inr fr" "r2 = Inr u" "copy fr (va + dn - page) dn n" by blast
        then have "each_page os copy (sp2\<lparr>copied := wadd (copied sp) n\<rparr>) va len wr (dn + n) = (r, sp')"
          using step ok f t tt(3) ft(4) by simp
        then show ?thesis using copied tt(1) ot acc True c(3) n \<open>va + dn < U64 \<and> area_at sp page \<noteq> None\<close> by blast
      qed
    qed
  qed
qed

lemma each_page_touched:
  assumes "space_inv mx sp" "dn \<le> len" "each_page os copy sp va len wr dn = (r, sp')"
  shows "space_inv mx sp' \<and> only_touched sp sp' \<and>
    (r = Inr () \<longrightarrow> copied sp' mod U64 = (copied sp + (len - dn)) mod U64 \<and>
      (\<forall>x. va + dn \<le> x \<and> x < va + len \<longrightarrow> accessible (areas sp) wr (page_floor x)))"
  using assms
proof (induction "len - dn" arbitrary: dn sp rule: less_induct)
  case (less dn sp)
  show ?case
  proof (cases "dn < len")
    case False
    then have "r = Inr ()" "sp' = sp" using less.prems(3) by (auto simp: each_page.simps)
    then show ?thesis using False less.prems by auto
  next
    case True
    show ?thesis
    proof (rule each_page_round [OF less.prems(1) True less.prems(3)])
      fix er assume "r = Inl er" "space_inv mx sp'" "only_touched sp sp'"
      then show ?thesis by simp
    next
      let ?page = "page_floor (va + dn)"
      let ?n = "min (PAGE_SIZE - (va + dn - ?page)) (len - dn)"
      fix sp1 f
      assume rd: "each_page os copy (sp1\<lparr>copied := wadd (copied sp) ?n\<rparr>) va len wr (dn + ?n) = (r, sp')"
        "space_inv mx sp1" "only_touched sp sp1" "accessible (areas sp) wr ?page"
        "0 < ?n" "dn + ?n \<le> len" "va + (dn + ?n) \<le> ?page + PAGE_SIZE"
      have lt: "len - (dn + ?n) < len - dn" using rd(5,6) by linarith
      have inv1: "space_inv mx (sp1\<lparr>copied := wadd (copied sp) ?n\<rparr>)" using rd(2) by simp
      note IH = less.hyps [OF lt inv1 rd(6) rd(1)]
      have ar: "areas sp1 = areas sp" using rd(3) by (simp add: only_touched_def)
      have "only_touched sp1 sp'" using IH by (simp add: only_touched_def)
      then have ot: "only_touched sp sp'" by (rule only_touched_trans [OF rd(3)])
      have cp: "copied sp' mod U64 = (copied sp + (len - dn)) mod U64" if "r = Inr ()"
      proof -
        have "copied sp' mod U64 = (wadd (copied sp) ?n + (len - (dn + ?n))) mod U64" using IH that by simp
        also have "\<dots> = (copied sp + (?n + (len - (dn + ?n)))) mod U64"
          by (simp only: wadd_def mod_add_left_eq add.assoc)
        also have "?n + (len - (dn + ?n)) = len - dn" using rd(6) by linarith
        finally show ?thesis .
      qed
      have "accessible (areas sp) wr (page_floor x)" if "r = Inr ()" "va + dn \<le> x" "x < va + len" for x
      proof (cases "x < va + (dn + ?n)")
        case False
        then show ?thesis using IH that ar by simp
      next
        case before: True
        have "?page \<le> page_floor x" using that(2) by (simp add: page_floor_div div_le_mono)
        moreover have "page_floor x < ?page + PAGE_SIZE" using before rd(7) page_floor_le [of x] by linarith
        ultimately have "page_floor x = ?page"
          using aligned_next [of ?page "page_floor x"] by fastforce
        then show ?thesis using rd(4) by simp
      qed
      then show ?thesis using IH ot cp by blast
    qed
  qed
qed

subsection \<open>The end of a space\<close>

lemma clear_gives_back:
  assumes "space_inv mx sp" and mx: "user_max mx"
  shows "space_inv mx (clear mx sp)" "areas (clear mx sp) = []" "zero (clear mx sp) = []" "brk (clear mx sp) = None"
    "charged (clear mx sp) = 0" "used (account (clear mx sp)) + charged sp = used (account sp)"
    "unmapped (clear mx sp) = unmapped sp @ [(0, map_end mx)]"
proof -
  note p = space_inv_parts [OF assms(1)]
  define sp1 where "sp1 = sp\<lparr>brk := None, tables_n := 0, areas := [], zero := []\<rparr>"
  have n: "ncost sp1 = 0" by (simp add: ncost_def sp1_def)
  have f: "funded sp1" using p n by (simp add: funded_def sp1_def)
  note st = settle_inv [OF f]
  have cl: "clear mx sp = (settle sp1)\<lparr>unmapped := unmapped sp @ [(0, map_end mx)]\<rparr>"
    using user_max_bounds [OF mx] st(8) by (simp add: clear_def unmap_ptes_def flip: sp1_def) (simp add: sp1_def)
  show "areas (clear mx sp) = []" "zero (clear mx sp) = []" "brk (clear mx sp) = None"
    "charged (clear mx sp) = 0" "used (account (clear mx sp)) + charged sp = used (account sp)"
    "unmapped (clear mx sp) = unmapped sp @ [(0, map_end mx)]"
    using st n by (simp_all add: cl) (simp_all add: sp1_def)
  have "table_count (map_end mx) {} = 0" by (simp add: table_count_def touched_def)
  then show "space_inv mx (clear mx sp)"
    using st n by (simp add: space_inv_def cl zero_ok_def funded_def) (simp add: sp1_def spans_def)
qed

end
