(* ===== verification/VmSpace.thy ===== *)
theory VmSpace
  imports VmTouch
begin

unbundle bit_operations_syntax

text \<open>
  An address space over its whole life: the program break, the state machine of all operations, and
  the properties that hold of every space the operations reach.
\<close>

subsection \<open>The program break\<close>

lemma same_space_sel:
  assumes "same_space sp sp'"
  shows "areas sp' = areas sp" "zero sp' = zero sp" "brk sp' = brk sp" "unmapped sp' = unmapped sp"
    "charged sp' = charged sp" "used (account sp') = used (account sp)" "tables_n sp' = tables_n sp"
  using assms by (auto simp: same_space_def)

lemma pages_aligned: "aligned n \<Longrightarrow> n + (PAGE_SIZE - 1) < U64 \<Longrightarrow> pages n = Inr n"
proof -
  assume a: "aligned n" "n + (PAGE_SIZE - 1) < U64"
  have "(n + (PAGE_SIZE - 1)) mod PAGE_SIZE = PAGE_SIZE - 1"
    using a(1) by (simp add: aligned_def PAGE_SIZE_def mod_add_eq [symmetric] del: mod_add_eq)
  then show ?thesis using a(2) by (simp add: pages_Inr page_floor_def)
qed

lemma Space_brk_cases:
  assumes inv: "space_inv mx sp" and mx: "user_max mx" and b: "brk sp = Some b"
  obtains (stays) sp' where "Space_brk mx os sp want = (brk_current b, sp')" "same_space sp sp'" "space_inv mx sp'"
  | (moves) sp' hv need where "Space_brk mx os sp want = (want, sp')" "space_inv mx sp'"
      "brk sp' = Some (b\<lparr>brk_current := want\<rparr>)" "brk_start b \<le> want" "need \<le> MAP_BASE"
      "pages (brk_current b) = Inr hv" "pages want = Inr need"
      "view (areas sp') =
        (if hv < need then spec_map hv need Mapping (map_READ OR map_WRITE) Zero (view (areas sp))
         else spec_unmap need hv (view (areas sp)))"
      "base_clear (areas sp) \<Longrightarrow> base_clear (areas sp')"
proof (cases "want < brk_start b \<or> (\<exists>er. pages (brk_current b) = Inl er \<or> pages want = Inl er) \<or>
    (\<exists>need. pages want = Inr need \<and> need > MAP_BASE)")
  case True
  have "Space_brk mx os sp want = (brk_current b, sp)"
    using True b by (cases "pages (brk_current b)"; cases "pages want") (auto simp: Space_brk_def)
  then show ?thesis using stays inv by simp
next
  case False
  then obtain hv need where p: "pages (brk_current b) = Inr hv" "pages want = Inr need" "need \<le> MAP_BASE"
      "brk_start b \<le> want"
    by (cases "pages (brk_current b)"; cases "pages want") (auto simp: not_less not_le)
  note h = pages_fits [OF p(1)] and n = pages_fits [OF p(2)]
  show ?thesis
  proof (cases hv need rule: linorder_cases)
    case less
    let ?m = "map_area mx os sp (Some hv) (need - hv) Mapping (map_READ OR map_WRITE) Zero False"
    have al: "aligned (need - hv)" using h(1) n(1) less by (auto simp: aligned_def mod_eq_0_iff_dvd dvd_diff_nat)
    have "need + (PAGE_SIZE - 1) < U64" using p(3) by (simp add: MAP_BASE_def IMAGE_END_def PAGE_SIZE_def U64_def)
    then have pl: "pages (need - hv) = Inr (need - hv)" using less by (intro pages_aligned [OF al]) simp
    show ?thesis
    proof (rule map_area_cases [OF inv mx, of "Some hv" os "need - hv" Mapping "map_READ OR map_WRITE" Zero False])
      fix er sp' assume m: "?m = (Inl er, sp')" "space_inv mx sp'" "at_most_unmapped False (Some hv) sp sp'"
      have "Space_brk mx os sp want = (brk_current b, sp')"
        using m(1) b p less by (simp add: Space_brk_def)
      then show ?thesis using stays m(2,3) by (simp add: at_most_unmapped_def)
    next
      fix va len sp'
      assume m: "?m = (Inr va, sp')" "Some hv \<noteq> None \<Longrightarrow> Some hv = Some va" "pages (need - hv) = Inr len"
        "space_inv mx sp'" "view (areas sp') = spec_map va (va + len) Mapping (map_READ OR map_WRITE) Zero (view (areas sp))"
        "False \<or> zero sp' = zero sp \<and> brk sp' = brk sp \<and> unmapped sp' = unmapped sp"
        "\<forall>y. no_cut y (areas sp) \<and> (y \<le> va \<or> va + len \<le> y) \<longrightarrow> no_cut y (areas sp')"
      have e: "va = hv" "len = need - hv" using m(2,3) pl by simp_all
      have "Space_brk mx os sp want = (want, sp'\<lparr>brk := Some (b\<lparr>brk_current := want\<rparr>)\<rparr>)"
        using m(1,6) b p less by (simp add: Space_brk_def)
      moreover have "space_inv mx (sp'\<lparr>brk := Some (b\<lparr>brk_current := want\<rparr>)\<rparr>)"
        using m(4) by (simp add: space_inv_def zero_ok_def funded_def)
      moreover have "base_clear (areas sp) \<Longrightarrow> base_clear (areas sp')"
        using m(7) p(3) less unfolding e base_clear_def by simp
      ultimately show ?thesis using moves p m(5) less by (simp add: e)
    qed simp
  next
    case greater
    show ?thesis
    proof (rule unmap_cases [OF inv mx, of need "hv - need" None])
      fix er assume "unmap mx sp need (hv - need) None = (Inl er, sp)"
      then have "Space_brk mx os sp want = (brk_current b, sp)"
        using b p greater by (simp add: Space_brk_def)
      then show ?thesis using stays inv by simp
    next
      fix sp'
      assume u: "unmap mx sp need (hv - need) None = (Inr (), sp')" "space_inv mx sp'"
        "unmapped_to need (need + (hv - need)) sp sp'"
      have "brk sp' = unmap_brk (Some b) need (need + (hv - need))" using u(3) b by (simp add: unmapped_to_def)
      then obtain k where k: "brk sp' = Some k" "brk_start k = brk_start b"
        by (cases "brk_current b > need \<and> brk_start b < need + (hv - need)") (auto simp: unmap_brk_def)
      have kk: "k\<lparr>brk_current := want\<rparr> = b\<lparr>brk_current := want\<rparr>" using k(2) by (cases k; cases b) simp
      have "Space_brk mx os sp want = (want, sp'\<lparr>brk := Some (b\<lparr>brk_current := want\<rparr>)\<rparr>)"
        using u(1) b p greater k(1) kk by (simp add: Space_brk_def)
      moreover have "space_inv mx (sp'\<lparr>brk := Some (b\<lparr>brk_current := want\<rparr>)\<rparr>)"
        using u(2) by (simp add: space_inv_def zero_ok_def funded_def)
      moreover have "view (areas sp') = spec_unmap need hv (view (areas sp))"
        "base_clear (areas sp) \<Longrightarrow> base_clear (areas sp')"
        using u(3) greater by (simp_all add: unmapped_to_def base_clear_def)
      ultimately show ?thesis using moves p greater by simp
    qed
  next
    case equal
    have "Space_brk mx os sp want = (want, sp\<lparr>brk := Some (b\<lparr>brk_current := want\<rparr>)\<rparr>)"
      using b p equal by (simp add: Space_brk_def)
    moreover have "space_inv mx (sp\<lparr>brk := Some (b\<lparr>brk_current := want\<rparr>)\<rparr>)"
      using inv by (simp add: space_inv_def zero_ok_def funded_def)
    moreover have "spec_unmap need need f = f" for f by (intro ext) (auto simp: spec_unmap_def)
    ultimately show ?thesis using moves p equal by simp
  qed
qed

subsection \<open>The state machine\<close>

datatype vm_op =
    OpMap "u64 option" u64 Kind "64 word" Backing bool
  | OpUnmap u64 u64 "Kind option"
  | OpUnmapPlane u64 u64 MemoryObject
  | OpProtect u64 u64 "64 word" "Kind option"
  | OpFault u64 Access
  | OpPopulate u64 u64 bool
  | OpCopy "frame \<Rightarrow> usize \<Rightarrow> usize \<Rightarrow> usize \<Rightarrow> bool" u64 usize bool
  | OpSetBrk u64
  | OpResetBrk u64
  | OpBrk u64
  | OpDiscard u64 u64
  | OpClear

fun vm_apply :: "u64 \<Rightarrow> Ostd \<Rightarrow> vm_op \<Rightarrow> Space \<Rightarrow> Space" where
  "vm_apply mx os (OpMap at len kind prot backing fixed) sp = snd (map_area mx os sp at len kind prot backing fixed)"
| "vm_apply mx os (OpUnmap va len only) sp = snd (unmap mx sp va len only)"
| "vm_apply mx os (OpUnmapPlane va len memory) sp = snd (unmap_plane mx sp va len memory)"
| "vm_apply mx os (OpProtect va len prot only) sp = snd (protect mx os sp va len prot only)"
| "vm_apply mx os (OpFault addr access) sp = snd (fault os sp addr access)"
| "vm_apply mx os (OpPopulate va len wr) sp = snd (populate os sp va len wr)"
| "vm_apply mx os (OpCopy copy va len wr) sp = snd (each_page os copy sp va len wr 0)"
| "vm_apply mx os (OpSetBrk start) sp = snd (set_brk sp start)"
| "vm_apply mx os (OpResetBrk start) sp = snd (reset_brk sp start)"
| "vm_apply mx os (OpBrk want) sp = snd (Space_brk mx os sp want)"
| "vm_apply mx os (OpDiscard va len) sp = snd (discard mx sp va len)"
| "vm_apply mx os OpClear sp = clear mx sp"

text \<open>A mapping whose place is asked for does not reach across \<open>MAP_BASE\<close>.\<close>

fun placed :: "vm_op \<Rightarrow> bool" where
  "placed (OpMap (Some va) len0 _ _ _ _) =
     (case pages len0 of Inr len \<Rightarrow> va + len \<le> MAP_BASE \<or> MAP_BASE \<le> va | Inl _ \<Rightarrow> True)"
| "placed _ = True"

inductive vm_step :: "u64 \<Rightarrow> Space \<Rightarrow> Space \<Rightarrow> bool" for mx where
  "placed op \<Longrightarrow> vm_step mx sp (vm_apply mx os op sp)"

definition vm_good :: "u64 \<Rightarrow> Space \<Rightarrow> bool" where
  "vm_good mx sp \<longleftrightarrow> space_inv mx sp \<and> base_clear (areas sp)"

lemma at_most_unmapped_clear:
  assumes "at_most_unmapped fixed at sp sp'" "base_clear (areas sp)"
  shows "base_clear (areas sp')"
  using assms by (auto simp: at_most_unmapped_def base_clear_def unmapped_to_def same_space_sel)

lemma vm_map_good:
  assumes g: "vm_good mx sp" and mx: "user_max mx" and pl: "placed (OpMap at len0 kind prot backing fixed)"
  shows "vm_good mx (snd (map_area mx os sp at len0 kind prot backing fixed))"
proof -
  have inv: "space_inv mx sp" "base_clear (areas sp)" using g by (simp_all add: vm_good_def)
  show ?thesis
  proof (rule map_area_cases [OF inv(1) mx, of "at" os len0 kind prot backing fixed])
    fix er sp' assume "map_area mx os sp at len0 kind prot backing fixed = (Inl er, sp')" "space_inv mx sp'"
      "at_most_unmapped fixed at sp sp'"
    then show ?thesis using at_most_unmapped_clear inv(2) by (simp add: vm_good_def)
  next
    fix va len sp'
    assume m: "map_area mx os sp at len0 kind prot backing fixed = (Inr va, sp')" "at \<noteq> None \<Longrightarrow> at = Some va"
      "pages len0 = Inr len" "space_inv mx sp'"
      "\<forall>y. no_cut y (areas sp) \<and> (y \<le> va \<or> va + len \<le> y) \<longrightarrow> no_cut y (areas sp')" "at = None \<Longrightarrow> MAP_BASE < va"
    have "MAP_BASE \<le> va \<or> va + len \<le> MAP_BASE"
      using m(2,3,6) pl by (cases "at") auto
    then show ?thesis using m inv(2) by (simp add: vm_good_def base_clear_def)
  qed (use inv in simp)
qed

lemma only_touched_good: "vm_good mx sp \<Longrightarrow> space_inv mx sp' \<Longrightarrow> only_touched sp sp' \<Longrightarrow> vm_good mx sp'"
  by (simp add: vm_good_def only_touched_def)

lemma vm_brk_good:
  assumes g: "vm_good mx sp" and mx: "user_max mx"
  shows "vm_good mx (snd (Space_brk mx os sp want))"
proof (cases "brk sp")
  case None
  then show ?thesis using g by (simp add: Space_brk_def)
next
  case (Some b)
  have inv: "space_inv mx sp" "base_clear (areas sp)" using g by (simp_all add: vm_good_def)
  show ?thesis
    by (rule Space_brk_cases [OF inv(1) mx Some, of os want]) (use inv(2) in \<open>auto simp: vm_good_def same_space_sel\<close>)
qed

lemma vm_apply_good:
  assumes g: "vm_good mx sp" and mx: "user_max mx" and pl: "placed op"
  shows "vm_good mx (vm_apply mx os op sp)"
proof -
  have inv: "space_inv mx sp" "base_clear (areas sp)" using g by (simp_all add: vm_good_def)
  have brk: "vm_good mx (sp\<lparr>brk := x\<rparr>)" for x
    using g by (simp add: vm_good_def space_inv_def zero_ok_def funded_def)
  show ?thesis
  proof (cases op)
    case (OpMap "at" len kind prot backing fixed)
    then show ?thesis using vm_map_good [OF g mx] pl by simp
  next
    case (OpUnmap va len only)
    show ?thesis
      by (rule unmap_cases [OF inv(1) mx, of va len only])
        (use g inv(2) OpUnmap in \<open>auto simp: vm_good_def unmapped_to_def base_clear_def\<close>)
  next
    case (OpUnmapPlane va len memory)
    show ?thesis
      by (rule unmap_plane_cases [OF inv(1) mx, of va len memory])
        (use g inv(2) OpUnmapPlane in \<open>auto simp: vm_good_def base_clear_def\<close>)
  next
    case (OpProtect va len prot only)
    show ?thesis
      by (rule protect_cases [OF inv(1) mx, of os va len prot only])
        (use g inv(2) OpProtect in \<open>auto simp: vm_good_def base_clear_def\<close>)
  next
    case (OpFault addr access)
    obtain r sp' where "fault os sp addr access = (r, sp')" by force
    then show ?thesis using only_touched_good [OF g] fault_touched [OF inv(1)] OpFault by simp
  next
    case (OpPopulate va len wr)
    obtain r sp' where "populate os sp va len wr = (r, sp')" by force
    then show ?thesis using only_touched_good [OF g] populate_touched [OF inv(1)] OpPopulate by simp
  next
    case (OpCopy copy va len wr)
    obtain r sp' where e: "each_page os copy sp va len wr 0 = (r, sp')" by force
    show ?thesis using only_touched_good [OF g] each_page_touched [OF inv(1) le0 e] e OpCopy by simp
  next
    case (OpSetBrk start)
    then show ?thesis using g brk by (auto simp: set_brk_def split: sum.split)
  next
    case (OpResetBrk start)
    then show ?thesis using g brk by (auto simp: reset_brk_def Let_def split: sum.split)
  next
    case (OpBrk want)
    then show ?thesis using vm_brk_good [OF g mx] by simp
  next
    case (OpDiscard va len)
    show ?thesis
      by (rule discard_cases [OF inv(1) mx, of va len]) (use g inv(2) OpDiscard in \<open>auto simp: vm_good_def\<close>)
  next
    case OpClear
    then show ?thesis using clear_gives_back [OF inv(1) mx] by (simp add: vm_good_def base_clear_def no_cut_def)
  qed
qed

text \<open>The space of a new process: nothing in it, and its fixed charge made.\<close>

lemma Space_new_good:
  assumes l: "Ledger_inv l" and res: "Space_new l = (Inr sp, l')"
  shows "vm_good mx sp" "account sp = l'" "used l' = used l + charge_SPACE"
proof -
  have c: "charge_SPACE \<le> room l"
    using ledger_charge_refused [OF l, of charge_SPACE] res by (cases "charge_SPACE \<le> room l") (auto simp: Space_new_def)
  then have eq: "sp = \<lparr>areas = [], zero = [], brk = None, tables_n = 0, charged = 0, account = l', copied = 0,
      unmapped = [], vm_broken = False\<rparr>" "l' = with_used l charge_SPACE"
    using ledger_charge_granted [OF l c] res by (auto simp: Space_new_def)
  then show "account sp = l'" "used l' = used l + charge_SPACE" by simp_all
  have "table_count (map_end mx) {} = 0" by (simp add: table_count_def touched_def)
  then show "vm_good mx sp"
    using eq with_used_inv [OF l c]
    by (simp add: vm_good_def space_inv_def zero_ok_def funded_def ncost_def spans_def base_clear_def no_cut_def)
qed

interpretation vms: transition_system
  "\<lambda>sp. user_max mx \<and> (\<exists>l l'. Ledger_inv l \<and> Space_new l = (Inr sp, l'))" "\<lambda>s t. user_max mx \<and> vm_step mx s t" "vm_good mx" for mx
  by unfold_locales (auto elim!: vm_step.cases intro: Space_new_good(1) vm_apply_good)

lemma vm_reached:
  assumes "user_max mx" "Ledger_inv l" "Space_new l = (Inr sp0, l')" "(vm_step mx)\<^sup>*\<^sup>* sp0 sp"
  shows "vm_good mx sp"
proof -
  have "(\<lambda>s t. user_max mx \<and> vm_step mx s t) = vm_step mx" using assms(1) by (intro ext) simp
  then show ?thesis using vms.reachable_good [of mx sp0 sp] assms by auto
qed

subsection \<open>Concrete spaces\<close>

text \<open>OSTD's \<open>MAX_USERSPACE_VADDR\<close> on x86-64, a machine that grants everything, and spaces on it.\<close>

definition demo_mx :: u64 where
  "demo_mx = 0x7ffffffff000"

definition demo_os :: Ostd where
  "demo_os = \<lparr>cursor_ok = \<lambda>_ _. True, jump_ok = \<lambda>_. True, present = \<lambda>_. False, zeroed_frame = Some\<rparr>"

definition demo_new :: Space where
  "demo_new = \<lparr>areas = [], zero = [], brk = None, tables_n = 0, charged = 0,
     account = \<lparr>limit = 2 ^ 40, used = charge_SPACE, peak = charge_SPACE, reserved = 0\<rparr>, copied = 0,
     unmapped = [], vm_broken = False\<rparr>"

lemma demo_max: "user_max demo_mx"
  by (simp add: user_max_def demo_mx_def map_end_def page_floor_def abi_consts PAGE_SIZE_def)

lemma demo_ledger: "Ledger_inv (Ledger_new (2 ^ 40))"
  by (rule Ledger_new_inv) (simp add: U64_def)

lemma demo_new_is: "Space_new (Ledger_new (2 ^ 40)) = (Inr demo_new, account demo_new)"
  by (simp add: Space_new_def demo_new_def ledger_charge_def Ledger_charge_def Ledger_fits_def Ledger_new_def abi_consts
      U64_def checked_add_def wadd_def)

lemma demo_good: "vm_good demo_mx demo_new"
  by (rule Space_new_good(1) [OF demo_ledger demo_new_is])

text \<open>Two pages of zeroes at the start of the image range.\<close>

definition demo_two :: Space where
  "demo_two = snd (map_area demo_mx demo_os demo_new (Some IMAGE_START) 8192 Mapping (map_READ OR map_WRITE) Zero False)"

lemma demo_end: "map_end demo_mx = 0x7ffffffff000"
  by (simp add: map_end_def demo_mx_def page_floor_def PAGE_SIZE_def)

lemma demo_prot: "check_prot (map_READ OR map_WRITE) Zero = Inr ()"
  by (simp add: check_prot_def abi_consts)

lemma demo_pages: "pages 8192 = Inr 8192"
  by (simp add: pages_def page_floor_def PAGE_SIZE_def checked_add_def U64_def)

lemma demo_range: "check_range demo_mx IMAGE_START 8192 = Inr (IMAGE_START + 8192)"
  by (simp add: check_range_def demo_end aligned_def PAGE_SIZE_def checked_add_def U64_def abi_consts)

lemma demo_tables: "t_pages (tables [(4096, 12288)] None None 0x7ffffffff000) = 3"
  by (simp add: tables_def charge_TABLE_REGIONS_def Let_def regions_def)

lemma demo_charge: "Space_charge demo_new 12384 =
    (Inr (), demo_new\<lparr>account := with_used (account demo_new) 12384, charged := 12384\<rparr>)"
  by (simp add: Space_charge_def ledger_charge_def Ledger_charge_def Ledger_fits_def demo_new_def checked_add_def U64_def
     abi_consts wadd_def)

lemma demo_two_is:
  "map_area demo_mx demo_os demo_new (Some IMAGE_START) 8192 Mapping (map_READ OR map_WRITE) Zero False =
     (Inr IMAGE_START, demo_two)"
  "areas demo_two = [(IMAGE_START, \<lparr>a_end = IMAGE_START + 8192, a_kind = Mapping, a_prot = map_READ OR map_WRITE,
     a_backing = Zero\<rparr>)]"
  "account demo_two = with_used (account demo_new) 12384" "zero demo_two = []" "unmapped demo_two = []"
proof -
  have none: "areas demo_new = []" "tables_n demo_new = 0" "zero demo_new = []" by (simp_all add: demo_new_def)
  have i: "IMAGE_START = 4096" "wadd 4096 8192 = 12288" by (simp_all add: abi_consts wadd_def U64_def)
  have place: "map_place demo_mx demo_new (Some IMAGE_START) 8192 False = (Inr IMAGE_START, demo_new)"
    by (simp add: map_place_def demo_range overlaps_def none bt_to_def)
  have c: "wadd charge_AREA (Tables_bytes (tables [(4096, 12288)] None None 0x7ffffffff000)) = 12384"
    by (simp add: Tables_bytes_def demo_tables abi_consts wadd_def wmul_def U64_def)
  have at': "map_at demo_mx demo_os demo_new IMAGE_START 8192 \<lparr>a_end = 12288, a_kind = Mapping, a_prot = map_READ OR map_WRITE,
      a_backing = Zero\<rparr> = (Inr IMAGE_START, demo_new\<lparr>account := with_used (account demo_new) 12384, charged := 12384,
        tables_n := wadd 0 3, areas := [(4096, \<lparr>a_end = 12288, a_kind = Mapping, a_prot = map_READ OR map_WRITE, a_backing = Zero\<rparr>)]\<rparr>)"
    unfolding map_at_def i by (simp add: neighbours_def none bt_to_def bt_from_def demo_end c demo_charge demo_tables
      fill_ptes_def demo_os_def bt_range_def Let_def)
  have m: "map_area demo_mx demo_os demo_new (Some IMAGE_START) 8192 Mapping (map_READ OR map_WRITE) Zero False =
      (Inr IMAGE_START, demo_new\<lparr>account := with_used (account demo_new) 12384, charged := 12384,
        tables_n := wadd 0 3, areas := [(4096, \<lparr>a_end = 12288, a_kind = Mapping, a_prot = map_READ OR map_WRITE, a_backing = Zero\<rparr>)]\<rparr>)"
    unfolding map_area_def using at' by (simp add: demo_prot demo_pages place) (simp add: i)
  show "map_area demo_mx demo_os demo_new (Some IMAGE_START) 8192 Mapping (map_READ OR map_WRITE) Zero False =
      (Inr IMAGE_START, demo_two)" by (simp add: demo_two_def m)
  show "areas demo_two = [(IMAGE_START, \<lparr>a_end = IMAGE_START + 8192, a_kind = Mapping, a_prot = map_READ OR map_WRITE,
     a_backing = Zero\<rparr>)]" by (simp add: demo_two_def m) (simp add: i)
  show "account demo_two = with_used (account demo_new) 12384" "zero demo_two = []" "unmapped demo_two = []"
    by (simp_all add: demo_two_def m) (simp_all add: demo_new_def)
qed

lemma demo_two_placed: "placed (OpMap (Some IMAGE_START) 8192 Mapping (map_READ OR map_WRITE) Zero False)"
  by (simp add: demo_pages MAP_BASE_def abi_consts)

lemma demo_two_good: "vm_good demo_mx demo_two"
  using vm_map_good [OF demo_good demo_max demo_two_placed, of demo_os] by (simp add: demo_two_is(1))

lemma demo_two_inv: "space_inv demo_mx demo_two"
  using demo_two_good by (simp add: vm_good_def)

lemma demo_two_view: "view (areas demo_two) IMAGE_START = Some (Mapping, map_READ OR map_WRITE, Zero)"
  by (simp add: demo_two_is(2) view_Cons holds_def page_of_def abi_consts)

lemma demo_two_reached: "(vm_step demo_mx)\<^sup>*\<^sup>* demo_new demo_two"
  using vm_step.intros [OF demo_two_placed, of demo_mx demo_new demo_os] by (simp add: demo_two_is(1))

lemma view_Some: "view m x = Some v \<Longrightarrow> \<exists>p \<in> set m. holds x p \<and> page_of x p = v"
  by (induction m) (auto simp: view_Cons split: if_splits)

lemma demo_unmap: "unmap demo_mx demo_two IMAGE_START 4096 None = (Inr (), snd (unmap demo_mx demo_two IMAGE_START 4096 None))"
proof -
  have r: "check_range demo_mx IMAGE_START 4096 = Inr (IMAGE_START + 4096)"
    by (simp add: check_range_def demo_end aligned_def PAGE_SIZE_def checked_add_def U64_def abi_consts)
  have pl: "\<not> touches_plane demo_two IMAGE_START (IMAGE_START + 4096)"
    by (simp add: touches_plane_def touched_areas_def demo_two_is(2) bt_to_def)
  have "cuts y m \<le> 1" for y m by (simp add: cuts_def)
  then have "split_bytes demo_two IMAGE_START (IMAGE_START + 4096) \<le> (1 + 1) * charge_AREA"
    unfolding split_bytes_cuts [OF space_inv_parts(1) [OF demo_two_inv]] by (intro mult_le_mono1 add_mono)
  also have "\<dots> \<le> room (account demo_two)"
    by (simp add: demo_two_is(3) room_def demo_new_def abi_consts)
  finally have n: "split_bytes demo_two IMAGE_START (IMAGE_START + 4096) \<le> room (account demo_two)" .
  show ?thesis
    by (rule Space_charge_cases [OF space_inv_parts(4) [OF demo_two_inv], of "split_bytes demo_two IMAGE_START (IMAGE_START + 4096)"])
      (use n in \<open>simp_all add: unmap_def r pl\<close>)
qed

subsection \<open>Properties\<close>

text \<open>
  C4. Whatever operations run on a new space, its areas stay page-aligned, in order, apart and within user
  space, its count of page tables is the number its areas need, and it is charged exactly what its areas,
  zero pages and page tables cost. (Mappings at a given place are taken not to reach across \<open>MAP_BASE\<close>.)\<close>

theorem space_stays_consistent:
  assumes "user_max mx" "Ledger_inv l" "Space_new l = (Inr sp0, l')" "(vm_step mx)\<^sup>*\<^sup>* sp0 sp"
  shows "laid_out mx (areas sp) \<and>
    tables_n sp = table_count (map_end mx) (spans (areas sp)) \<and>
    charged sp = length (areas sp) * charge_AREA + length (zero sp) * charge_ZERO_PAGE + tables_n sp * charge_PAGE \<and>
    charged sp \<le> used (account sp) \<and> used (account sp) + reserved (account sp) \<le> limit (account sp) \<and> \<not> vm_broken sp"
  using vm_reached [OF assms]
  by (auto simp: vm_good_def space_inv_def funded_def ncost_def Ledger_inv_def)

theorem space_stays_consistent_witness:
  "charged demo_two = length (areas demo_two) * charge_AREA + length (zero demo_two) * charge_ZERO_PAGE +
     tables_n demo_two * charge_PAGE \<and> length (areas demo_two) = 1"
  using space_stays_consistent [OF demo_max demo_ledger demo_new_is demo_two_reached] by (simp add: demo_two_is(2))



text \<open>
  C10. \<open>unmap\<close> implements its specification: it is refused and changes nothing, or the range holds no page
  afterwards and every other page is as it was, the zero pages of the range are gone, and the account has
  back what the space no longer costs.\<close>

theorem unmap_refines:
  assumes "space_inv mx sp" "user_max mx" "unmap mx sp va len only = (r, sp')"
  shows "case r of
      Inl _ \<Rightarrow> sp' = sp
    | Inr _ \<Rightarrow> space_inv mx sp' \<and> view (areas sp') = spec_unmap va (va + len) (view (areas sp)) \<and>
        zero sp' = filter (\<lambda>q. \<not> (va \<le> fst q \<and> fst q < va + len)) (zero sp) \<and>
        used (account sp') + charged sp = used (account sp) + charged sp'"
  by (rule unmap_cases [OF assms(1,2), of va len only]) (use assms(3) in \<open>auto simp: unmapped_to_def\<close>)

theorem unmap_refines_witness:
  "case fst (unmap demo_mx demo_two (IMAGE_START + 4096) 4096 None) of
      Inl _ \<Rightarrow> snd (unmap demo_mx demo_two (IMAGE_START + 4096) 4096 None) = demo_two
    | Inr _ \<Rightarrow> view (areas (snd (unmap demo_mx demo_two (IMAGE_START + 4096) 4096 None))) (IMAGE_START + 4096) = None \<and>
        view (areas (snd (unmap demo_mx demo_two (IMAGE_START + 4096) 4096 None))) IMAGE_START =
          Some (Mapping, map_READ OR map_WRITE, Zero)"
  using unmap_refines [OF demo_two_inv demo_max surjective_pairing, of "IMAGE_START + 4096" 4096 None] demo_two_view
  by (auto simp: spec_unmap_def abi_consts split: sum.splits)







text \<open>
  C30. Where no area reaches across \<open>MAP_BASE\<close>, the range \<open>find_free\<close> picks is free, with at least one
  unmapped page on either side, and lies in the kernel's mapping area.\<close>

theorem find_free_guarded:
  assumes "laid_out mx (areas sp)" "user_max mx" "base_clear (areas sp)" "find_free mx sp len = Inr va"
  shows "MAP_BASE + PAGE_SIZE \<le> va \<and> va + len \<le> map_end mx \<and>
    (\<forall>x. va \<le> x + PAGE_SIZE \<and> x < va + len + PAGE_SIZE \<longrightarrow> view (areas sp) x = None)"
proof -
  note f = find_free_fits [OF assms(1,2,4)]
  have "\<not> holds x p" if "p \<in> set (areas sp)" "va \<le> x + PAGE_SIZE" "x < va + len + PAGE_SIZE" for x p
    using f(5) [OF assms(3)] that unfolding holds_def by (meson add_le_cancel_right leD le_less_trans less_le_trans not_le order_trans)
  then show ?thesis using f(2,3) by (simp add: view_None)
qed

theorem find_free_guarded_witness:
  "find_free demo_mx demo_two 4096 = Inr (MAP_BASE + PAGE_SIZE) \<and>
    view (areas demo_two) MAP_BASE = None \<and> view (areas demo_two) (MAP_BASE + 2 * PAGE_SIZE) = None"
proof -
  have f: "find_free demo_mx demo_two 4096 = Inr (MAP_BASE + PAGE_SIZE)"
    by (simp add: find_free_def demo_two_is(2) bt_from_def demo_end MAP_BASE_def abi_consts PAGE_SIZE_def checked_add_def U64_def)
  have "laid_out demo_mx (areas demo_two)" "base_clear (areas demo_two)"
    using demo_two_good by (simp_all add: vm_good_def space_inv_def)
  from find_free_guarded [OF this(1) demo_max this(2) f] f show ?thesis by (simp add: PAGE_SIZE_def)
qed



text \<open>
  C27. A copy into or out of a space that succeeds has counted exactly its bytes, and every page it touched
  is mapped and allows the access; whatever it returns, the areas and the pages already there stay.\<close>

theorem copy_checks_every_page:
  assumes "space_inv mx sp" "each_page os copy sp va len wr 0 = (r, sp')"
  shows "space_inv mx sp' \<and> areas sp' = areas sp \<and> bt_get (zero sp) \<subseteq>\<^sub>m bt_get (zero sp') \<and>
    (r = Inr () \<longrightarrow> copied sp' mod U64 = (copied sp + len) mod U64 \<and>
      (\<forall>x. va \<le> x \<and> x < va + len \<longrightarrow> accessible (areas sp) wr (page_floor x)))"
  using each_page_touched [OF assms(1) le0 assms(2)] by (simp add: only_touched_def)

theorem copy_checks_every_page_witness:
  "areas (snd (each_page demo_os (\<lambda>_ _ _ _. True) demo_two IMAGE_START 100 True 0)) = areas demo_two"
  using copy_checks_every_page [OF demo_two_inv surjective_pairing, of demo_os "\<lambda>_ _ _ _. True" IMAGE_START 100 True]
  by simp

text \<open>
  C28. The program break never moves below its start or past \<open>MAP_BASE\<close>. A request that is met maps or
  unmaps exactly the pages between the old end and the new, and one that is not leaves the space as it was.\<close>

theorem brk_moves_whole_pages:
  assumes "space_inv mx sp" "user_max mx" "brk sp = Some b" "Space_brk mx os sp want = (now, sp')"
  shows "space_inv mx sp' \<and>
    (now = brk_current b \<and> same_space sp sp' \<or>
     (\<exists>hv need. now = want \<and> brk sp' = Some (b\<lparr>brk_current := want\<rparr>) \<and> brk_start b \<le> want \<and> need \<le> MAP_BASE \<and>
        pages (brk_current b) = Inr hv \<and> pages want = Inr need \<and>
        view (areas sp') =
          (if hv < need then spec_map hv need Mapping (map_READ OR map_WRITE) Zero (view (areas sp))
           else spec_unmap need hv (view (areas sp)))))"
  by (rule Space_brk_cases [OF assms(1-3), of os want]) (use assms(4) in auto)

definition demo_brk :: Space where
  "demo_brk = demo_two\<lparr>brk := Some \<lparr>brk_start = 0x10000, brk_current = 0x10000\<rparr>\<rparr>"

theorem brk_moves_whole_pages_witness:
  "space_inv demo_mx (snd (Space_brk demo_mx demo_os demo_brk 0x12345))"
proof -
  have "space_inv demo_mx demo_brk"
    using demo_two_inv by (simp add: demo_brk_def space_inv_def zero_ok_def funded_def)
  moreover have "brk demo_brk = Some \<lparr>brk_start = 0x10000, brk_current = 0x10000\<rparr>" by (simp add: demo_brk_def)
  ultimately show ?thesis
    using brk_moves_whole_pages [OF _ demo_max _ surjective_pairing] by blast
qed



end
