(* ===== verification/Elf.thy ===== *)
theory Elf
  imports Abi
begin

unbundle bit_operations_syntax

text \<open>
  The loader's parser of static ELF64 executables (\<open>kernel/loader/src/elf.rs\<close>): which images it
  accepts, and what an accepted one guarantees to the kernel that maps it.

  A slice is shorter than \<open>2 ^ 63\<close> bytes, so the offsets below, which lie within a few bytes of one
  that was checked against the length, are added exactly.
\<close>

definition MAX_PHDRS :: usize where "MAX_PHDRS = 64"
definition EHDR :: usize where "EHDR = 64"
definition PHDR :: usize where "PHDR = 56"
definition ET_EXEC :: nat where "ET_EXEC = 2"
definition EM_X86_64 :: nat where "EM_X86_64 = 62"
definition PT_LOAD :: nat where "PT_LOAD = 1"
definition PT_DYNAMIC :: nat where "PT_DYNAMIC = 2"
definition PT_INTERP :: nat where "PT_INTERP = 3"
definition PT_TLS :: nat where "PT_TLS = 7"
definition PF_X :: nat where "PF_X = 1"
definition PF_W :: nat where "PF_W = 2"
definition PF_R :: nat where "PF_R = 4"

lemmas elf_consts = MAX_PHDRS_def EHDR_def PHDR_def ET_EXEC_def EM_X86_64_def PT_LOAD_def PT_DYNAMIC_def
  PT_INTERP_def PT_TLS_def PF_X_def PF_W_def PF_R_def

datatype ElfError = ElfTruncated | NotElf | Not64Bit | NotLittleEndian | NotExecutable | WrongMachine
  | BadProgramHeaders | Dynamic | BadTls | NoSegments | BadSegment | ElfOutOfRange | Overlap | WriteExecute
  | BadEntry

fun ElfError_describe :: "ElfError \<Rightarrow> string" where
  "ElfError_describe ElfTruncated = ''the image ends inside a header''" |
  "ElfError_describe NotElf = ''not an ELF image''" |
  "ElfError_describe Not64Bit = ''not a 64-bit ELF image''" |
  "ElfError_describe NotLittleEndian = ''not a little-endian ELF image''" |
  "ElfError_describe NotExecutable = ''not a static executable (ET_EXEC)''" |
  "ElfError_describe WrongMachine = ''not an x86_64 image''" |
  "ElfError_describe BadProgramHeaders = ''the program headers are malformed or too many''" |
  "ElfError_describe Dynamic = ''the image needs a dynamic linker''" |
  "ElfError_describe BadTls = ''the thread-local storage template is outside the loaded segments''" |
  "ElfError_describe NoSegments = ''the image has no loadable segment''" |
  "ElfError_describe BadSegment = ''a segment'' @ [CHR 0x27] @ ''s sizes or offsets are inconsistent''" |
  "ElfError_describe ElfOutOfRange = ''a segment lies outside the allowed address range''" |
  "ElfError_describe Overlap = ''two segments share a page''" |
  "ElfError_describe WriteExecute = ''a segment is both writable and executable''" |
  "ElfError_describe BadEntry = ''the entry point is not in an executable segment''"

record Segment =
  seg_vaddr :: u64
  seg_memsz :: u64
  seg_offset :: u64
  seg_filesz :: u64
  seg_read :: bool
  seg_write :: bool
  seg_execute :: bool

definition page_start :: "Segment \<Rightarrow> u64" where
  "page_start s = page_floor (seg_vaddr s)"

definition page_end :: "Segment \<Rightarrow> u64" where
  "page_end s = page_floor (wadd (wadd (seg_vaddr s) (seg_memsz s)) (PAGE_SIZE - 1))"

record Tls =
  tls_vaddr :: u64
  tls_filesz :: u64
  tls_memsz :: u64
  tls_align :: u64

record Image =
  img_entry :: u64
  img_segments :: "Segment list"
  img_tls :: "Tls option"

definition u16_at :: "byte list \<Rightarrow> usize \<Rightarrow> ElfError + nat" where
  "u16_at b at = (case slice b at (at + 2) of None \<Rightarrow> Inl ElfTruncated | Some s \<Rightarrow> Inr (from_le s))"

definition u32_at :: "byte list \<Rightarrow> usize \<Rightarrow> ElfError + u32" where
  "u32_at b at = (case slice b at (at + 4) of None \<Rightarrow> Inl ElfTruncated | Some s \<Rightarrow> Inr (from_le s))"

definition u64_at :: "byte list \<Rightarrow> usize \<Rightarrow> ElfError + u64" where
  "u64_at b at = (case slice b at (at + 8) of None \<Rightarrow> Inl ElfTruncated | Some s \<Rightarrow> Inr (from_le s))"

text \<open>The checks of one loadable segment, once its fields are read.\<close>

definition load_segment ::
  "byte list \<Rightarrow> u64 \<Rightarrow> u64 \<Rightarrow> u32 \<Rightarrow> u64 \<Rightarrow> u64 \<Rightarrow> u64 \<Rightarrow> u64 \<Rightarrow> ElfError + Segment option"
where
  "load_segment bytes lo hi flags offset vaddr filesz memsz =
     (if memsz = 0 then Inr None
      else if filesz > memsz then Inl BadSegment
      else case checked_add offset filesz of
        None \<Rightarrow> Inl BadSegment
      | Some file_end \<Rightarrow>
          if file_end > length bytes then Inl BadSegment
          else case (case checked_add vaddr memsz of None \<Rightarrow> None | Some e \<Rightarrow> checked_add e (PAGE_SIZE - 1)) of
            None \<Rightarrow> Inl ElfOutOfRange
          | Some e \<Rightarrow>
              if vaddr < lo \<or> page_floor e > hi then Inl ElfOutOfRange
              else
                let segment = \<lparr>seg_vaddr = vaddr, seg_memsz = memsz, seg_offset = offset, seg_filesz = filesz,
                      seg_read = (flags AND PF_R \<noteq> 0), seg_write = (flags AND PF_W \<noteq> 0),
                      seg_execute = (flags AND PF_X \<noteq> 0)\<rparr>
                in if seg_write segment \<and> seg_execute segment then Inl WriteExecute else Inr (Some segment))"

text \<open>One turn of the loop over the program headers.\<close>

definition parse_phdr ::
  "byte list \<Rightarrow> u64 \<Rightarrow> u64 \<Rightarrow> usize \<Rightarrow> Segment list \<times> Tls option \<Rightarrow> ElfError + Segment list \<times> Tls option"
where
  "parse_phdr bytes lo hi at = (\<lambda>(segments, tls).
     andthen (u32_at bytes at) (\<lambda>kind.
       if kind = PT_LOAD then
         andthen (u32_at bytes (at + 4)) (\<lambda>flags.
         andthen (u64_at bytes (at + 8)) (\<lambda>offset.
         andthen (u64_at bytes (at + 16)) (\<lambda>vaddr.
         andthen (u64_at bytes (at + 32)) (\<lambda>filesz.
         andthen (u64_at bytes (at + 40)) (\<lambda>memsz.
         andthen (load_segment bytes lo hi flags offset vaddr filesz memsz) (\<lambda>r.
           case r of None \<Rightarrow> Inr (segments, tls) | Some s \<Rightarrow> Inr (segments @ [s], tls)))))))
       else if kind = PT_DYNAMIC \<or> kind = PT_INTERP then Inl Dynamic
       else if kind = PT_TLS then
         andthen (u64_at bytes (at + 16)) (\<lambda>vaddr.
         andthen (u64_at bytes (at + 32)) (\<lambda>filesz.
         andthen (u64_at bytes (at + 40)) (\<lambda>memsz.
         andthen (u64_at bytes (at + 48)) (\<lambda>align.
           Inr (segments, Some \<lparr>tls_vaddr = vaddr, tls_filesz = filesz, tls_memsz = memsz, tls_align = align\<rparr>)))))
       else Inr (segments, tls)))"

fun parse_phdrs ::
  "byte list \<Rightarrow> u64 \<Rightarrow> u64 \<Rightarrow> usize list \<Rightarrow> Segment list \<times> Tls option \<Rightarrow> ElfError + Segment list \<times> Tls option"
where
  "parse_phdrs bytes lo hi [] acc = Inr acc"
| "parse_phdrs bytes lo hi (at # ats) acc =
     andthen (parse_phdr bytes lo hi at acc) (parse_phdrs bytes lo hi ats)"

text \<open>Two neighbours of the sorted segments share a page.\<close>

fun pages_shared :: "Segment list \<Rightarrow> bool" where
  "pages_shared (a # b # ss) \<longleftrightarrow> page_end a > page_start b \<or> pages_shared (b # ss)"
| "pages_shared _ \<longleftrightarrow> False"

definition entry_ok :: "Segment list \<Rightarrow> u64 \<Rightarrow> bool" where
  "entry_ok segments entry \<longleftrightarrow>
     list_ex (\<lambda>s. seg_execute s \<and> entry \<ge> seg_vaddr s \<and> entry < wadd (seg_vaddr s) (seg_memsz s)) segments"

definition tls_inside :: "Segment list \<Rightarrow> Tls \<Rightarrow> bool" where
  "tls_inside segments t \<longleftrightarrow>
     tls_filesz t \<le> tls_memsz t \<and>
     (case checked_add (tls_vaddr t) (tls_filesz t) of
        None \<Rightarrow> False
      | Some e \<Rightarrow> list_ex (\<lambda>s. tls_vaddr t \<ge> seg_vaddr s \<and> e \<le> wadd (seg_vaddr s) (seg_filesz s)) segments)"

text \<open>The checks once every header is read.\<close>

definition parse_finish :: "u64 \<Rightarrow> Segment list \<times> Tls option \<Rightarrow> ElfError + Image" where
  "parse_finish entry = (\<lambda>(segments0, tls).
     if segments0 = [] then Inl NoSegments
     else
       let segments = sort_key seg_vaddr segments0 in
       if pages_shared segments then Inl Overlap
       else if \<not> entry_ok segments entry then Inl BadEntry
       else if (case tls of Some t \<Rightarrow> \<not> tls_inside segments t | None \<Rightarrow> False) then Inl BadTls
       else Inr \<lparr>img_entry = entry, img_segments = segments, img_tls = tls\<rparr>)"

definition parse :: "byte list \<Rightarrow> u64 \<Rightarrow> u64 \<Rightarrow> ElfError + Image" where
  "parse bytes lo hi =
     (case slice bytes 0 16 of
        None \<Rightarrow> Inl ElfTruncated
      | Some ident \<Rightarrow>
          if take 4 ident \<noteq> [0x7f, 0x45, 0x4c, 0x46] then Inl NotElf
          else if ident ! 4 \<noteq> 2 then Inl Not64Bit
          else if ident ! 5 \<noteq> 1 then Inl NotLittleEndian
          else if length bytes < EHDR then Inl ElfTruncated
          else
            andthen (u16_at bytes 16) (\<lambda>et. if et \<noteq> ET_EXEC then Inl NotExecutable else
            andthen (u16_at bytes 18) (\<lambda>em. if em \<noteq> EM_X86_64 then Inl WrongMachine else
            andthen (u64_at bytes 24) (\<lambda>entry.
            andthen (u64_at bytes 32) (\<lambda>phoff.
            andthen (u16_at bytes 54) (\<lambda>phentsize.
            andthen (u16_at bytes 56) (\<lambda>phnum.
              if phentsize \<noteq> PHDR \<or> phnum > MAX_PHDRS then Inl BadProgramHeaders
              else case checked_add phoff (phnum * PHDR) of
                None \<Rightarrow> Inl BadProgramHeaders
              | Some table_end \<Rightarrow>
                  if table_end > length bytes then Inl BadProgramHeaders
                  else andthen (parse_phdrs bytes lo hi (map (\<lambda>i. phoff + i * PHDR) [0..<phnum]) ([], None))
                         (parse_finish entry))))))))"

subsection \<open>What an accepted image guarantees\<close>

text \<open>One segment: within the file, within the allowed range, and not writable and executable.\<close>

definition segment_ok :: "byte list \<Rightarrow> u64 \<Rightarrow> u64 \<Rightarrow> Segment \<Rightarrow> bool" where
  "segment_ok bytes lo hi s \<longleftrightarrow>
     0 < seg_memsz s \<and> seg_filesz s \<le> seg_memsz s \<and> seg_offset s + seg_filesz s \<le> length bytes \<and>
     lo \<le> seg_vaddr s \<and> page_end s \<le> hi \<and> seg_vaddr s + seg_memsz s \<le> page_end s \<and>
     \<not> (seg_write s \<and> seg_execute s)"

lemma load_segment_ok:
  assumes "load_segment bytes lo hi flags offset vaddr filesz memsz = Inr (Some s)"
  shows "segment_ok bytes lo hi s"
proof -
  have e: "vaddr + memsz + (PAGE_SIZE - 1) < U64"
    using assms by (auto simp: load_segment_def Let_def split: if_splits option.splits)
  then have pe: "page_floor (wadd (wadd vaddr memsz) (PAGE_SIZE - 1)) = page_floor (vaddr + memsz + (PAGE_SIZE - 1))"
    by simp
  have "vaddr + memsz \<le> page_floor (vaddr + memsz + (PAGE_SIZE - 1))"
    using page_floor_gt [of "vaddr + memsz + (PAGE_SIZE - 1)"] by (simp add: PAGE_SIZE_def)
  then show ?thesis
    using assms pe by (auto simp: load_segment_def segment_ok_def page_end_def Let_def split: if_splits option.splits)
qed

lemma parse_phdrs_ok:
  assumes "parse_phdrs bytes lo hi ats acc = Inr (segments, tls)" "\<forall>s \<in> set (fst acc). segment_ok bytes lo hi s"
  shows "\<forall>s \<in> set segments. segment_ok bytes lo hi s"
  using assms
proof (induction ats arbitrary: acc)
  case (Cons a ats)
  then obtain acc' where acc': "parse_phdr bytes lo hi a acc = Inr acc'"
      "parse_phdrs bytes lo hi ats acc' = Inr (segments, tls)" by (auto simp: andthen_Inr)
  have "\<forall>s \<in> set (fst acc'). segment_ok bytes lo hi s"
    using acc'(1) Cons.prems(2) load_segment_ok
    by (cases acc) (fastforce simp: parse_phdr_def andthen_Inr split: if_splits option.splits)
  then show ?case using Cons.IH acc'(2) by blast
qed auto

lemma page_start_le_end: "segment_ok bytes lo hi s \<Longrightarrow> page_start s < page_end s"
  using page_floor_le [of "seg_vaddr s"] unfolding segment_ok_def page_start_def by linarith

lemma not_shared_apart:
  "\<not> pages_shared ss \<Longrightarrow> \<forall>s \<in> set ss. segment_ok bytes lo hi s \<Longrightarrow>
    sorted_wrt (\<lambda>a b. page_end a \<le> page_start b) ss"
proof (induction ss rule: pages_shared.induct)
  case (1 a b ss)
  have IH: "sorted_wrt (\<lambda>a b. page_end a \<le> page_start b) (b # ss)" using 1 by simp
  have "page_end a \<le> page_start b" using "1.prems"(1) by simp
  moreover have "page_start b < page_end b" using "1.prems"(2) page_start_le_end by auto
  ultimately show ?case using IH by fastforce
qed auto

text \<open>An image the kernel can map segment by segment: each on pages of its own.\<close>

definition image_ok :: "byte list \<Rightarrow> u64 \<Rightarrow> u64 \<Rightarrow> Image \<Rightarrow> bool" where
  "image_ok bytes lo hi img \<longleftrightarrow>
     img_segments img \<noteq> [] \<and>
     (\<forall>s \<in> set (img_segments img). segment_ok bytes lo hi s) \<and>
     sorted_wrt (\<lambda>a b. page_end a \<le> page_start b) (img_segments img) \<and>
     (\<exists>s \<in> set (img_segments img). seg_execute s \<and> \<not> seg_write s \<and> seg_vaddr s \<le> img_entry img \<and>
        img_entry img < seg_vaddr s + seg_memsz s) \<and>
     (\<forall>t. img_tls img = Some t \<longrightarrow> tls_filesz t \<le> tls_memsz t \<and>
        (\<exists>s \<in> set (img_segments img). seg_vaddr s \<le> tls_vaddr t \<and>
           tls_vaddr t + tls_filesz t \<le> seg_vaddr s + seg_filesz s))"

lemma segment_ok_exact:
  assumes "segment_ok bytes lo hi s" "hi < U64"
  shows "wadd (seg_vaddr s) (seg_memsz s) = seg_vaddr s + seg_memsz s"
    "wadd (seg_vaddr s) (seg_filesz s) = seg_vaddr s + seg_filesz s"
  using assms by (auto simp: segment_ok_def)

lemma parse_finish_ok:
  assumes "parse_finish entry (segs, tls) = Inr img" "\<forall>s \<in> set segs. segment_ok bytes lo hi s" "hi < U64"
  shows "image_ok bytes lo hi img"
proof -
  let ?ss = "sort_key seg_vaddr segs"
  have p: "segs \<noteq> []" "\<not> pages_shared ?ss" "entry_ok ?ss entry" "img = \<lparr>img_entry = entry, img_segments = ?ss, img_tls = tls\<rparr>"
      "\<And>t. tls = Some t \<Longrightarrow> tls_inside ?ss t"
    using assms(1) by (auto simp: parse_finish_def Let_def split: if_splits option.splits)
  have ok: "\<forall>s \<in> set ?ss. segment_ok bytes lo hi s" using assms(2) by simp
  note ex = segment_ok_exact [OF bspec [OF ok] assms(3)]
  have "?ss \<noteq> []" using p(1) by (metis set_empty set_sort)
  moreover have "\<exists>s \<in> set ?ss. seg_execute s \<and> \<not> seg_write s \<and> seg_vaddr s \<le> entry \<and> entry < seg_vaddr s + seg_memsz s"
  proof -
    obtain s where s: "s \<in> set ?ss" "seg_execute s" "seg_vaddr s \<le> entry" "entry < wadd (seg_vaddr s) (seg_memsz s)"
      using p(3) by (auto simp: entry_ok_def list_ex_iff)
    then have "\<not> seg_write s" using ok by (auto simp: segment_ok_def)
    then show ?thesis using s ex(1) [OF s(1)] by auto
  qed
  moreover have "tls_filesz t \<le> tls_memsz t \<and> (\<exists>s \<in> set ?ss. seg_vaddr s \<le> tls_vaddr t \<and>
      tls_vaddr t + tls_filesz t \<le> seg_vaddr s + seg_filesz s)" if tt: "tls = Some t" for t
  proof -
    obtain s where "s \<in> set ?ss" "tls_filesz t \<le> tls_memsz t" "seg_vaddr s \<le> tls_vaddr t"
        "tls_vaddr t + tls_filesz t \<le> wadd (seg_vaddr s) (seg_filesz s)"
      using p(5) [OF tt] by (auto simp: tls_inside_def list_ex_iff split: option.splits)
    then show ?thesis using ex(2) by auto
  qed
  ultimately show ?thesis
    using not_shared_apart [OF p(2) ok] ok by (simp add: image_ok_def p(4))
qed

lemma parse_ok:
  assumes "parse bytes lo hi = Inr img" "hi < U64"
  shows "image_ok bytes lo hi img"
proof -
  obtain entry ats segs tls where "parse_phdrs bytes lo hi ats ([], None) = Inr (segs, tls)"
      "parse_finish entry (segs, tls) = Inr img"
    using assms(1) by (auto simp: parse_def andthen_Inr split: option.splits if_splits)
  then show ?thesis using parse_finish_ok parse_phdrs_ok assms(2) by fastforce
qed

text \<open>
  C19. An image the parser accepts is safe to map: every segment lies within the file and, to whole pages,
  within the allowed range; none is writable and executable; no two share a page; the entry point is in an
  executable segment; and a thread-local template lies in the file bytes of a segment.\<close>

theorem parsed_image_is_safe:
  assumes "parse bytes lo hi = Inr img" "hi < U64"
  shows "img_segments img \<noteq> [] \<and>
    (\<forall>s \<in> set (img_segments img).
       seg_filesz s \<le> seg_memsz s \<and> seg_offset s + seg_filesz s \<le> length bytes \<and>
       lo \<le> seg_vaddr s \<and> seg_vaddr s + seg_memsz s \<le> page_end s \<and> page_end s \<le> hi \<and>
       \<not> (seg_write s \<and> seg_execute s)) \<and>
    sorted_wrt (\<lambda>a b. page_end a \<le> page_start b) (img_segments img) \<and>
    (\<exists>s \<in> set (img_segments img). seg_execute s \<and> \<not> seg_write s \<and> seg_vaddr s \<le> img_entry img \<and>
       img_entry img < seg_vaddr s + seg_memsz s) \<and>
    (\<forall>t. img_tls img = Some t \<longrightarrow>
       (\<exists>s \<in> set (img_segments img). seg_vaddr s \<le> tls_vaddr t \<and>
          tls_vaddr t + tls_filesz t \<le> seg_vaddr s + seg_filesz s))"
  using parse_ok [OF assms] by (simp add: image_ok_def segment_ok_def)

definition demo_elf :: "byte list" where
  "demo_elf =
     [0x7f, 0x45, 0x4c, 0x46, 2, 1, 1, 0, 0, 0, 0, 0, 0, 0, 0, 0,
      2, 0, 0x3e, 0, 1, 0, 0, 0, 0, 0, 0x20, 0, 0, 0, 0, 0,
      0x40, 0, 0, 0, 0, 0, 0, 0, 0, 0, 0, 0, 0, 0, 0, 0,
      0, 0, 0, 0, 0x40, 0, 0x38, 0, 1, 0, 0, 0, 0, 0, 0, 0,
      1, 0, 0, 0, 5, 0, 0, 0, 0, 0, 0, 0, 0, 0, 0, 0,
      0, 0, 0x20, 0, 0, 0, 0, 0, 0, 0, 0x20, 0, 0, 0, 0, 0,
      0x10, 0, 0, 0, 0, 0, 0, 0, 0x10, 0, 0, 0, 0, 0, 0, 0,
      0, 0x10, 0, 0, 0, 0, 0, 0]"

lemmas elf_eval = u16_at_def u32_at_def u64_at_def slice_def elf_consts

lemma demo_elf_fields:
  "slice demo_elf 0 16 = Some [0x7f, 0x45, 0x4c, 0x46, 2, 1, 1, 0, 0, 0, 0, 0, 0, 0, 0, 0]"
  "length demo_elf = 120" "u16_at demo_elf 16 = Inr 2" "u16_at demo_elf 18 = Inr 62" "u64_at demo_elf 24 = Inr 0x200000"
  "u64_at demo_elf 32 = Inr 64" "u16_at demo_elf 54 = Inr 56" "u16_at demo_elf 56 = Inr 1"
  "u32_at demo_elf 64 = Inr 1" "u32_at demo_elf 68 = Inr 5" "u64_at demo_elf 72 = Inr 0" "u64_at demo_elf 80 = Inr 0x200000"
  "u64_at demo_elf 96 = Inr 16" "u64_at demo_elf 104 = Inr 16"
  by (simp_all add: demo_elf_def elf_eval)

lemma demo_elf_parses:
  "parse demo_elf 0x1000 0x100000000000 =
     Inr \<lparr>img_entry = 0x200000,
       img_segments = [\<lparr>seg_vaddr = 0x200000, seg_memsz = 16, seg_offset = 0, seg_filesz = 16, seg_read = True,
         seg_write = False, seg_execute = True\<rparr>],
       img_tls = None\<rparr>"
  by (simp add: parse_def demo_elf_fields parse_phdr_def load_segment_def
      parse_finish_def entry_ok_def elf_consts checked_add_def U64_def wadd_def page_floor_def PAGE_SIZE_def)

theorem parsed_image_is_safe_witness:
  "parse demo_elf 0x1000 0x100000000000 \<noteq> Inl BadEntry \<and>
    sorted_wrt (\<lambda>a b. page_end a \<le> page_start b) [\<lparr>seg_vaddr = 0x200000, seg_memsz = 16, seg_offset = 0,
      seg_filesz = 16, seg_read = True, seg_write = False, seg_execute = True\<rparr>]"
  using parsed_image_is_safe [OF demo_elf_parses] demo_elf_parses by (simp add: U64_def)

end
