(* ===== verification/Cpio.thy ===== *)
theory Cpio
  imports Prelude
begin

unbundle bit_operations_syntax

text \<open>
  The initramfs reader (\<open>kernel/loader/src/cpio.rs\<close>): an uncompressed cpio archive in the newc format.
  A path is its bytes; \<open>str::from_utf8\<close>, \<open>u32::from_str_radix\<close> and \<open>trim_start_matches\<close> are modelled
  as the standard library documents them.
\<close>

subsection \<open>The standard library\<close>

definition cont :: "byte \<Rightarrow> bool" where
  "cont b \<longleftrightarrow> 0x80 \<le> b \<and> b \<le> 0xbf"

fun utf8 :: "byte list \<Rightarrow> bool" where
  "utf8 [] = True"
| "utf8 (a # bs) =
     (if a < 0x80 then utf8 bs
      else case bs of
        [] \<Rightarrow> False
      | b # cs \<Rightarrow>
          if 0xc2 \<le> a \<and> a \<le> 0xdf then cont b \<and> utf8 cs
          else case cs of
            [] \<Rightarrow> False
          | c # ds \<Rightarrow>
              if 0xe0 \<le> a \<and> a \<le> 0xef
              then cont b \<and> cont c \<and> (a = 0xe0 \<longrightarrow> 0xa0 \<le> b) \<and> (a = 0xed \<longrightarrow> b \<le> 0x9f) \<and> utf8 ds
              else case ds of
                [] \<Rightarrow> False
              | d # es \<Rightarrow>
                  0xf0 \<le> a \<and> a \<le> 0xf4 \<and> cont b \<and> cont c \<and> cont d \<and> (a = 0xf0 \<longrightarrow> 0x90 \<le> b) \<and>
                  (a = 0xf4 \<longrightarrow> b \<le> 0x8f) \<and> utf8 es)"

definition hex_value :: "byte \<Rightarrow> nat option" where
  "hex_value b =
     (if 0x30 \<le> b \<and> b \<le> 0x39 then Some (unat (b - 0x30))
      else if 0x61 \<le> b \<and> b \<le> 0x66 then Some (unat (b - 0x61) + 10)
      else if 0x41 \<le> b \<and> b \<le> 0x46 then Some (unat (b - 0x41) + 10)
      else None)"

fun hex_digits :: "byte list \<Rightarrow> nat \<Rightarrow> u32 option" where
  "hex_digits [] acc = Some acc"
| "hex_digits (b # bs) acc =
     (case hex_value b of
        None \<Rightarrow> None
      | Some d \<Rightarrow> if acc * 16 + d < 2 ^ 32 then hex_digits bs (acc * 16 + d) else None)"

text \<open>\<open>u32::from_str_radix(text, 16)\<close>: a leading plus sign before at least one digit is allowed.\<close>

definition from_str_radix_16 :: "byte list \<Rightarrow> u32 option" where
  "from_str_radix_16 text =
     (case text of
        [] \<Rightarrow> None
      | b # bs \<Rightarrow> if b = 0x2b then (if bs = [] then None else hex_digits bs 0) else hex_digits text 0)"

fun trim_dot_slash :: "byte list \<Rightarrow> byte list" where
  "trim_dot_slash (a # b # bs) = (if a = 0x2e \<and> b = 0x2f then trim_dot_slash bs else a # b # bs)"
| "trim_dot_slash bs = bs"

definition trim_slash :: "byte list \<Rightarrow> byte list" where
  "trim_slash = dropWhile (\<lambda>b. b = 0x2f)"

subsection \<open>The reader\<close>

definition HEADER :: usize where "HEADER = 110"
definition MAGIC_NEWC :: "byte list" where "MAGIC_NEWC = [0x30, 0x37, 0x30, 0x37, 0x30, 0x31]"
definition MAGIC_CRC :: "byte list" where "MAGIC_CRC = [0x30, 0x37, 0x30, 0x37, 0x30, 0x32]"
definition TRAILER :: "byte list" where
  "TRAILER = [0x54, 0x52, 0x41, 0x49, 0x4c, 0x45, 0x52, 0x21, 0x21, 0x21]"
definition MODE_TYPE :: u32 where "MODE_TYPE = 0xf000"
definition MODE_FILE :: u32 where "MODE_FILE = 0x8000"
definition MODE_DIR :: u32 where "MODE_DIR = 0x4000"

lemmas cpio_consts = HEADER_def MAGIC_NEWC_def MAGIC_CRC_def TRAILER_def MODE_TYPE_def MODE_FILE_def MODE_DIR_def

datatype CpioError = CpioTruncated | BadMagic | BadField | BadName | NoTrailer | UnsupportedType

fun CpioError_describe :: "CpioError \<Rightarrow> string" where
  "CpioError_describe CpioTruncated = ''the archive ends inside an entry''" |
  "CpioError_describe BadMagic = ''an entry header has no newc magic''" |
  "CpioError_describe BadField = ''an entry header field is not hexadecimal''" |
  "CpioError_describe BadName = ''an entry name is empty, unterminated or not UTF-8''" |
  "CpioError_describe NoTrailer = ''the archive has no trailer''" |
  "CpioError_describe UnsupportedType = ''an entry is neither a file nor a directory''"

record File =
  path :: "byte list"
  data :: "byte list"

definition field :: "byte list \<Rightarrow> usize \<Rightarrow> CpioError + u32" where
  "field header index =
     (case slice header (6 + index * 8) (6 + index * 8 + 8) of
        None \<Rightarrow> Inl CpioTruncated
      | Some digits \<Rightarrow>
          if \<not> utf8 digits then Inl BadField
          else case from_str_radix_16 digits of None \<Rightarrow> Inl BadField | Some v \<Rightarrow> Inr v)"

definition align4 :: "usize \<Rightarrow> usize option" where
  "align4 n = map_option (\<lambda>v. v div 4 * 4) (checked_add n 3)"

text \<open>What the reader makes of an entry: a file, nothing for a directory, or an error.\<close>

definition entry_file :: "byte list \<times> u32 \<times> byte list \<Rightarrow> CpioError + File option" where
  "entry_file = (\<lambda>(name, mode, bytes).
     if mode AND MODE_TYPE = MODE_FILE then
       (let p = trim_slash (trim_dot_slash name) in
        if p = [] then Inl BadName else Inr (Some \<lparr>path = p, data = bytes\<rparr>))
     else if mode AND MODE_TYPE = MODE_DIR then Inr None
     else Inl UnsupportedType)"

text \<open>
  One turn of the loop of \<open>files\<close> at offset \<open>at\<close>: the trailer ends it; another entry gives the file, if
  it is one, and where the next entry starts.
\<close>

definition files_step :: "byte list \<Rightarrow> usize \<Rightarrow> CpioError + (File option \<times> usize) option" where
  "files_step archive at =
     (case slice archive at (at + HEADER) of
        None \<Rightarrow> Inl (if at \<ge> length archive then NoTrailer else CpioTruncated)
      | Some header \<Rightarrow>
          if take 6 header \<noteq> MAGIC_NEWC \<and> take 6 header \<noteq> MAGIC_CRC then Inl BadMagic
          else
            andthen (field header 1) (\<lambda>mode.
            andthen (field header 6) (\<lambda>filesize.
            andthen (field header 11) (\<lambda>namesize.
              if namesize < 2 then Inl BadName
              else case checked_add (at + HEADER) namesize of
                None \<Rightarrow> Inl CpioTruncated
              | Some name_end \<Rightarrow>
                  (case slice archive (at + HEADER) name_end of
                     None \<Rightarrow> Inl CpioTruncated
                   | Some name_bytes \<Rightarrow>
                       if drop (namesize - 1) name_bytes \<noteq> [0] then Inl BadName
                       else
                         let name = take (namesize - 1) name_bytes in
                         if \<not> utf8 name then Inl BadName
                         else case align4 name_end of
                           None \<Rightarrow> Inl CpioTruncated
                         | Some data_start \<Rightarrow>
                             (case checked_add data_start filesize of
                                None \<Rightarrow> Inl CpioTruncated
                              | Some data_end \<Rightarrow>
                                  (case slice archive data_start data_end of
                                     None \<Rightarrow> Inl CpioTruncated
                                   | Some bytes \<Rightarrow>
                                       if name = TRAILER then Inr None
                                       else
                                         andthen (entry_file (name, mode, bytes))
                                           (\<lambda>f. case align4 data_end of
                                                  None \<Rightarrow> Inl CpioTruncated
                                                | Some next \<Rightarrow> Inr (Some (f, next))))))))))"

lemma align4_Some: "align4 n = Some v \<longleftrightarrow> n + 3 < U64 \<and> v = (n + 3) div 4 * 4"
  by (auto simp: align4_def)

lemma files_step_on:
  assumes "files_step archive at = Inr (Some (f, next'))"
  shows "at + HEADER < next'" "at < length archive"
proof -
  have "at + HEADER \<le> length archive" and
    "\<exists>n fs. 2 \<le> n \<and> align4 ((at + HEADER + n + 3) div 4 * 4 + fs) = Some next'"
    using assms
    by (auto simp: files_step_def andthen_Inr align4_Some Let_def not_less split: option.splits if_splits)
  then show "at + HEADER < next'" "at < length archive"
    by (auto simp: align4_Some HEADER_def)
qed

lemma files_step_less:
  "files_step archive at = Inr (Some (f, next')) \<Longrightarrow> length archive - next' < length archive - at"
  using files_step_on [of archive "at" f next'] by linarith

function files_from :: "byte list \<Rightarrow> usize \<Rightarrow> File list \<Rightarrow> CpioError + File list" where
  "files_from archive at out =
     (case files_step archive at of
        Inl e \<Rightarrow> Inl e
      | Inr None \<Rightarrow> Inr out
      | Inr (Some (f, next)) \<Rightarrow>
          files_from archive next (case f of None \<Rightarrow> out | Some file \<Rightarrow> out @ [file]))"
  by pat_completeness auto
termination
  by (relation "measure (\<lambda>(archive, at, out). length archive - at)") (auto intro: files_step_less)

declare files_from.simps [simp del]

definition files :: "byte list \<Rightarrow> CpioError + File list" where
  "files archive = files_from archive 0 []"

definition find :: "File list \<Rightarrow> byte list \<Rightarrow> byte list option" where
  "find fs p = map_option data (List.find (\<lambda>f. path f = p) fs)"

subsection \<open>The writer of the archives\<close>

text \<open>An archive as \<open>cpio -o -H newc\<close> writes it; the tests of \<open>cpio.rs\<close> build theirs this way.\<close>

definition hex_char :: "nat \<Rightarrow> byte" where
  "hex_char d = (if d < 10 then of_nat (0x30 + d) else of_nat (0x57 + d))"

fun hex :: "nat \<Rightarrow> nat \<Rightarrow> byte list" where
  "hex 0 v = []"
| "hex (Suc n) v = hex n (v div 16) @ [hex_char (v mod 16)]"

definition pad4 :: "byte list \<Rightarrow> byte list" where
  "pad4 out = out @ replicate ((4 - length out mod 4) mod 4) 0"

definition newc_header :: "byte list \<Rightarrow> u32 \<Rightarrow> byte list \<Rightarrow> byte list" where
  "newc_header name mode bytes =
     MAGIC_NEWC @ concat (map (hex 8) [1, mode, 0, 0, 1, 0, length bytes, 0, 0, 0, 0, length name + 1, 0])"

definition entry :: "byte list \<Rightarrow> byte list \<times> u32 \<times> byte list \<Rightarrow> byte list" where
  "entry out = (\<lambda>(name, mode, bytes). pad4 (pad4 (out @ newc_header name mode bytes @ name @ [0]) @ bytes))"

definition archive :: "(byte list \<times> u32 \<times> byte list) list \<Rightarrow> byte list" where
  "archive entries = entry (foldl entry [] entries) (TRAILER, 0, [])"

subsection \<open>Numbers\<close>

lemma hex_value_char:
  assumes "d < 16"
  shows "hex_value (hex_char d) = Some d"
proof -
  have "\<forall>d \<in> set [0..<16]. hex_value (hex_char d) = Some d" by code_simp
  then show ?thesis using assms by simp
qed

lemma hex_char_ascii:
  assumes "d < 16"
  shows "hex_char d < 0x80" "hex_char d \<noteq> 0x2b"
proof -
  have "\<forall>d \<in> set [0..<16]. hex_char d < 0x80 \<and> hex_char d \<noteq> 0x2b" by code_simp
  then show "hex_char d < 0x80" "hex_char d \<noteq> 0x2b" using assms by auto
qed

lemma hex_digits_append:
  "hex_digits (xs @ ys) acc = (case hex_digits xs acc of None \<Rightarrow> None | Some v \<Rightarrow> hex_digits ys v)"
  by (induction xs arbitrary: acc) (auto split: option.splits)

lemma hex_digits_hex:
  "v < 16 ^ n \<Longrightarrow> v < 2 ^ 32 \<Longrightarrow> hex_digits (hex n v) 0 = Some v"
proof (induction n arbitrary: v)
  case (Suc n)
  have "v div 16 < 16 ^ n" "v div 16 < 2 ^ 32" using Suc.prems by (auto simp: less_mult_imp_div_less mult.commute)
  then have "hex_digits (hex n (v div 16)) 0 = Some (v div 16)" by (rule Suc.IH)
  then show ?case using Suc.prems(2) by (simp add: hex_digits_append hex_value_char)
qed simp

lemma length_hex [simp]: "length (hex n v) = n"
  by (induction n arbitrary: v) auto

lemma utf8_ascii: "\<forall>b \<in> set bs. b < 0x80 \<Longrightarrow> utf8 bs"
  by (induction bs) auto

lemma hex_ascii: "b \<in> set (hex n v) \<Longrightarrow> b < 0x80 \<and> b \<noteq> 0x2b"
  by (induction n arbitrary: v) (auto simp: hex_char_ascii)

lemma radix_hex:
  assumes "v < 2 ^ 32"
  shows "from_str_radix_16 (hex 8 v) = Some v" "utf8 (hex 8 v)"
proof -
  have "hex 8 v \<noteq> []" by (metis length_hex list.size(3) zero_neq_numeral)
  then obtain b bs where b: "hex 8 v = b # bs" by (cases "hex 8 v") auto
  then have "b \<noteq> 0x2b" using hex_ascii [of b 8 v] by simp
  moreover have "hex_digits (hex 8 v) 0 = Some v" by (rule hex_digits_hex) (use assms in simp_all)
  ultimately show "from_str_radix_16 (hex 8 v) = Some v" using b by (simp add: from_str_radix_16_def)
  show "utf8 (hex 8 v)" by (rule utf8_ascii) (use hex_ascii in blast)
qed

subsection \<open>Reading back what was written\<close>

lemma round_up_4: "n + (4 - n mod 4) mod 4 = (n + 3) div 4 * 4" "n \<le> (n + 3) div 4 * 4" for n :: nat
proof -
  define k r where "k = n div 4" and "r = n mod 4"
  have n: "n = 4 * k + r" and "r < 4" by (simp_all add: k_def r_def)
  then consider "r = 0" | "r = 1" | "r = 2" | "r = 3" by linarith
  then show "n + (4 - n mod 4) mod 4 = (n + 3) div 4 * 4" "n \<le> (n + 3) div 4 * 4"
    by (cases; simp add: n mod_Suc; fail)+
qed

lemma length_pad4: "length (pad4 xs) = (length xs + 3) div 4 * 4"
  using round_up_4(1) [of "length xs"] by (simp add: pad4_def)

lemma take_pad4 [simp]: "take (length xs) (pad4 xs) = xs"
  by (simp add: pad4_def)

lemma fields_at:
  "i < length vs \<Longrightarrow> take 8 (drop (8 * i) (concat (map (hex 8) vs))) = hex 8 (vs ! i)"
proof (induction vs arbitrary: i)
  case (Cons v vs)
  show ?case
  proof (cases i)
    case (Suc j)
    then have "drop (8 * i) (hex 8 v @ concat (map (hex 8) vs)) = drop (8 * j) (concat (map (hex 8) vs))" by simp
    then show ?thesis using Cons Suc by simp
  qed simp
qed simp

lemma length_fields: "length (concat (map (hex 8) vs)) = 8 * length vs"
  by (induction vs) auto

lemma field_header:
  assumes "i < length vs" "vs ! i < 2 ^ 32"
  shows "field (MAGIC_NEWC @ concat (map (hex 8) vs)) i = Inr (vs ! i)"
proof -
  have m: "length MAGIC_NEWC = 6" by (simp add: MAGIC_NEWC_def)
  have "8 * i + 8 \<le> 8 * length vs" using assms(1) by simp
  then have "slice (MAGIC_NEWC @ concat (map (hex 8) vs)) (6 + i * 8) (6 + i * 8 + 8) = Some (hex 8 (vs ! i))"
    using fields_at [OF assms(1)] by (simp add: slice_def m length_fields mult.commute)
  then show ?thesis unfolding field_def using radix_hex [OF assms(2)] by (simp only: option.case) simp
qed

lemma length_newc_header [simp]: "length (newc_header name mode bytes) = HEADER"
  unfolding newc_header_def by (simp add: length_fields MAGIC_NEWC_def HEADER_def)

lemma newc_fields:
  assumes "mode < 2 ^ 32" "length bytes < 2 ^ 32" "length name + 1 < 2 ^ 32"
  shows "field (newc_header name mode bytes) 1 = Inr mode" "field (newc_header name mode bytes) 6 = Inr (length bytes)"
    "field (newc_header name mode bytes) 11 = Inr (length name + 1)" "take 6 (newc_header name mode bytes) = MAGIC_NEWC"
proof -
  let ?vs = "[1, mode, 0, 0, 1, 0, length bytes, 0, 0, 0, 0, length name + 1, 0]"
  show "field (newc_header name mode bytes) 1 = Inr mode"
    unfolding newc_header_def using field_header [of 1 ?vs] assms by simp
  show "field (newc_header name mode bytes) 6 = Inr (length bytes)"
    unfolding newc_header_def using field_header [of 6 ?vs] assms by simp
  show "field (newc_header name mode bytes) 11 = Inr (length name + 1)"
    unfolding newc_header_def using field_header [of 11 ?vs] assms by simp
  show "take 6 (newc_header name mode bytes) = MAGIC_NEWC" by (simp add: newc_header_def MAGIC_NEWC_def)
qed

text \<open>An entry whose name and sizes fit the format.\<close>

definition entry_fits :: "byte list \<times> u32 \<times> byte list \<Rightarrow> bool" where
  "entry_fits = (\<lambda>(name, mode, bytes).
     name \<noteq> [] \<and> utf8 name \<and> length name + 1 < 2 ^ 32 \<and> mode < 2 ^ 32 \<and> length bytes < 2 ^ 32)"

lemma slice_mid: "slice (xs @ ys @ zs) (length xs) (length xs + length ys) = Some ys"
  by (simp add: slice_def)

lemma files_step_entry:
  assumes f: "entry_fits (name, mode, bytes)"
    and len: "length (entry pre (name, mode, bytes) @ rest) + 3 < U64"
  shows "files_step (entry pre (name, mode, bytes) @ rest) (length pre) =
    (if name = TRAILER then Inr None
     else andthen (entry_file (name, mode, bytes)) (\<lambda>f. Inr (Some (f, length (entry pre (name, mode, bytes))))))"
proof -
  let ?h = "newc_header name mode bytes"
  let ?a = "entry pre (name, mode, bytes) @ rest"
  let ?ne = "length pre + HEADER + (length name + 1)"
  let ?ds = "(?ne + 3) div 4 * 4"
  note f' = f [unfolded entry_fits_def prod.case]
  define p1 where "p1 = replicate ((4 - length (pre @ ?h @ name @ [0]) mod 4) mod 4) (0 :: byte)"
  define q where "q = pre @ ?h @ name @ [0] @ p1"
  have q: "pad4 (pre @ ?h @ name @ [0]) = q" by (simp add: pad4_def q_def p1_def)
  define p2 where "p2 = replicate ((4 - length (q @ bytes) mod 4) mod 4) (0 :: byte)"
  have e: "entry pre (name, mode, bytes) = q @ bytes @ p2" unfolding entry_def prod.case q by (simp only: pad4_def p2_def append_assoc)
  have lq: "length q = ?ds" using length_pad4 [of "pre @ ?h @ name @ [0]"] q by (simp add: add_ac)
  have le: "length (entry pre (name, mode, bytes)) = (?ds + length bytes + 3) div 4 * 4"
    using length_pad4 [of "q @ bytes"] lq unfolding entry_def prod.case q by simp
  have a: "?a = q @ bytes @ p2 @ rest" "?a = pre @ ?h @ (name @ [0]) @ (p1 @ bytes @ p2 @ rest)"
    by (simp_all add: e q_def)
  have la: "?ds + length bytes \<le> length ?a" "?ne \<le> ?ds"
    using lq round_up_4(2) [of ?ne] by (simp_all add: a(1))
  have s1: "slice ?a (length pre) (length pre + HEADER) = Some ?h"
    using slice_mid [of pre ?h "(name @ [0]) @ (p1 @ bytes @ p2 @ rest)"] a(2) by simp
  have s2: "slice ?a (length pre + HEADER) ?ne = Some (name @ [0])"
    using slice_mid [of "pre @ ?h" "name @ [0]" "p1 @ bytes @ p2 @ rest"] a(2) by (simp add: add_ac)
  have s3: "slice ?a ?ds (?ds + length bytes) = Some bytes"
    using slice_mid [of q bytes "p2 @ rest"] a(1) lq by simp
  have c1: "checked_add (length pre + HEADER) (length name + 1) = Some ?ne" using la len by simp
  have c2: "align4 ?ne = Some ?ds" using la len by (simp add: align4_Some)
  have c3: "checked_add ?ds (length bytes) = Some (?ds + length bytes)" using la len by simp
  have c4: "align4 (?ds + length bytes) = Some (length (entry pre (name, mode, bytes)))"
    using la(1) len by (simp add: align4_Some le)
  have nf: "field ?h 1 = Inr mode" "field ?h 6 = Inr (length bytes)" "field ?h 11 = Inr (length name + 1)"
      "take 6 ?h = MAGIC_NEWC"
    using newc_fields [of mode bytes name] f' by simp_all
  have n2: "(length name + 1 < 2) = False" using f' by (cases name) simp_all
  have nm: "drop (length name + 1 - 1) (name @ [0]) = [0]" "take (length name + 1 - 1) (name @ [0]) = name" "utf8 name = True"
    using f' by simp_all
  show ?thesis
    by (simp only: files_step_def s1 option.case nf andthen.simps n2 c1 s2 nm c2 c3 s3 c4 Let_def simp_thms if_False
        if_True)
qed

lemma entry_extends: "\<exists>rest. entry out e = out @ rest"
  by (cases e) (auto simp: entry_def pad4_def)

lemma entries_extend: "\<exists>rest. foldl entry out es = out @ rest"
proof (induction es arbitrary: out)
  case (Cons e es)
  obtain r1 where "entry out e = out @ r1" using entry_extends by blast
  moreover obtain r2 where "foldl entry (entry out e) es = entry out e @ r2" using Cons.IH by blast
  ultimately show ?case by simp
qed simp

text \<open>The specification: the files among the entries, in order, up to the first that is refused.\<close>

fun read_entries :: "(byte list \<times> u32 \<times> byte list) list \<Rightarrow> CpioError + File list" where
  "read_entries [] = Inr []"
| "read_entries (e # es) =
     andthen (entry_file e) (\<lambda>f. res_map (\<lambda>fs. case f of None \<Rightarrow> fs | Some x \<Rightarrow> x # fs) (read_entries es))"

lemma trailer_fits: "entry_fits (TRAILER, 0, [])"
  by (simp add: entry_fits_def TRAILER_def)

lemma files_from_written:
  assumes "\<forall>e \<in> set es. entry_fits e \<and> fst e \<noteq> TRAILER"
    and "length (entry (foldl entry pre es) (TRAILER, 0, [])) + 3 < U64"
  shows "files_from (entry (foldl entry pre es) (TRAILER, 0, [])) (length pre) out = res_map (\<lambda>fs. out @ fs) (read_entries es)"
  using assms
proof (induction es arbitrary: pre out)
  case Nil
  then have "files_step (entry pre (TRAILER, 0, [])) (length pre) = Inr None"
    using files_step_entry [OF trailer_fits, of pre "[]"] by simp
  then show ?case by (simp add: files_from.simps [of "entry pre (TRAILER, 0, [])"])
next
  case (Cons e es)
  let ?a = "entry (foldl entry pre (e # es)) (TRAILER, 0, [])"
  obtain name mode bytes where e: "e = (name, mode, bytes)" by (cases e)
  obtain rest where a: "?a = entry pre e @ rest"
  proof -
    obtain r1 where "foldl entry (entry pre e) es = entry pre e @ r1" using entries_extend by blast
    moreover obtain r2 where "entry (foldl entry (entry pre e) es) (TRAILER, 0, []) = foldl entry (entry pre e) es @ r2"
      using entry_extends by blast
    ultimately show ?thesis using that [of "r1 @ r2"] by simp
  qed
  have fits: "entry_fits e" "name \<noteq> TRAILER" using Cons.prems(1) e by auto
  have step: "files_step ?a (length pre) =
      andthen (entry_file e) (\<lambda>f. Inr (Some (f, length (entry pre e))))"
    using files_step_entry [of name mode bytes pre rest] fits e Cons.prems(2) a by simp
  have IH: "files_from ?a (length (entry pre e)) out' = res_map (\<lambda>fs. out' @ fs) (read_entries es)" for out'
    using Cons.IH [of "entry pre e" out'] Cons.prems by simp
  show ?case
  proof (cases "entry_file e")
    case (Inl er)
    then show ?thesis using step by (simp add: files_from.simps [of ?a] del: foldl.simps)
  next
    case (Inr f)
    have "files_from ?a (length pre) out =
        files_from ?a (length (entry pre e)) (case f of None \<Rightarrow> out | Some file \<Rightarrow> out @ [file])"
      using step Inr by (simp add: files_from.simps [of ?a "length pre"] del: foldl.simps)
    also have "\<dots> = res_map (\<lambda>fs. out @ fs) (read_entries (e # es))"
      unfolding IH using Inr by (cases f; cases "read_entries es") simp_all
    finally show ?thesis .
  qed
qed



text \<open>The loop of \<open>files\<close> cut off after a number of turns.\<close>

fun files_turns :: "nat \<Rightarrow> byte list \<Rightarrow> usize \<Rightarrow> File list \<Rightarrow> (CpioError + File list) option" where
  "files_turns 0 a at out = None"
| "files_turns (Suc n) a at out =
     (case files_step a at of
        Inl e \<Rightarrow> Some (Inl e)
      | Inr None \<Rightarrow> Some (Inr out)
      | Inr (Some (f, next)) \<Rightarrow>
          files_turns n a next (case f of None \<Rightarrow> out | Some file \<Rightarrow> out @ [file]))"

lemma files_step_room: "files_step a at = Inr (Some (f, next')) \<Longrightarrow> at + HEADER \<le> length a"
  by (auto simp: files_step_def split: option.splits)

lemma files_turns_enough:
  "(length a - at) div HEADER < n \<Longrightarrow> files_turns n a at out = Some (files_from a at out)"
proof (induction n arbitrary: "at" out)
  case (Suc n)
  show ?case
  proof (cases "files_step a at")
    case (Inl e)
    then show ?thesis by (simp add: files_from.simps [of a "at"])
  next
    case (Inr r)
    show ?thesis
    proof (cases r)
      case None
      then show ?thesis using Inr by (simp add: files_from.simps [of a "at"])
    next
      case (Some q)
      obtain f next' where q: "q = (f, next')" by (cases q)
      then have s: "files_step a at = Inr (Some (f, next'))" using Inr Some by simp
      have "length a - next' \<le> (length a - at) - HEADER" "HEADER \<le> length a - at"
        using files_step_on [OF s] files_step_room [OF s] by linarith+
      then have "(length a - next') div HEADER < n"
        using Suc.prems div_le_mono [of "length a - next'" "length a - at - HEADER" HEADER]
        by (simp add: HEADER_def le_div_geq)
      then show ?thesis using Suc.IH s by (simp add: files_from.simps [of a "at"])
    qed
  qed
qed simp

text \<open>
  C32. Reading an archive always ends: an archive of \<open>n\<close> bytes is read in at most \<open>n div HEADER + 1\<close> turns
  of the loop, whatever its bytes are.\<close>

theorem files_ends: "files_turns (length a div HEADER + 1) a 0 [] = Some (files a)"
  unfolding files_def by (rule files_turns_enough) simp

end
