(* ===== verification/Futex.thy ===== *)
theory Futex
  imports Abi
begin

unbundle bit_operations_syntax

text \<open>
  Futexes (\<open>kernel/core/src/futex.rs\<close>): queues of sleeping threads, keyed by process and address. Every
  operation changes the queues under one lock, so each is one step here; a wait is two, the one that
  queues the sleeper and the one that ends it.

  A sleeper is known by its number. The word read from the process's memory, and whether the memory for
  a queue could be had, are arguments.
\<close>

type_synonym key = "u64 \<times> u64"

definition FUTEX_ALL :: "32 word" where
  "FUTEX_ALL = 0xffffffff"

text \<open>\<open>sl_koid\<close> is the process of the waiting thread, the first half of the wait's \<open>key\<close>.\<close>

record Sleeper =
  bitset :: "32 word"
  woken :: bool
  sl_addr :: u64
  sl_koid :: u64

record Futexes =
  queues :: "key \<Rightarrow> nat list option"
  sleepers :: "nat \<Rightarrow> Sleeper option"

text \<open>The steps of \<open>wait\<close> up to its loop: the checks, the read of the word, and the queueing.\<close>

definition wait_begin ::
  "Futexes \<Rightarrow> nat \<Rightarrow> u64 \<Rightarrow> u64 \<Rightarrow> u32 \<Rightarrow> 32 word \<Rightarrow> unit res \<Rightarrow> u32 res \<Rightarrow> bool \<Rightarrow> unit res \<times> Futexes"
where
  "wait_begin st sl koid addr expected bits populated value fits =
     (if addr mod 4 \<noteq> 0 \<or> bits = 0 then (Inl InvalidArgs, st)
      else case populated of
        Inl e \<Rightarrow> (Inl e, st)
      | Inr _ \<Rightarrow>
          (case value of
             Inl e \<Rightarrow> (Inl e, st)
           | Inr v \<Rightarrow>
               if v \<noteq> expected then (Inl ShouldWait, st)
               else
                 let queue = (case queues st (koid, addr) of None \<Rightarrow> [] | Some q \<Rightarrow> q) in
                 if \<not> fits then (Inl NoMemory, st\<lparr>queues := (queues st)((koid, addr) \<mapsto> queue)\<rparr>)
                 else (Inr (), st\<lparr>queues := (queues st)((koid, addr) \<mapsto> queue @ [sl]),
                        sleepers := (sleepers st)(sl \<mapsto> \<lparr>bitset = bits, woken = False, sl_addr = addr, sl_koid = koid\<rparr>)\<rparr>)))"

text \<open>A turn of the loop of \<open>wait\<close>: why it ends, or that the thread sleeps again.\<close>

definition wait_turn :: "Futexes \<Rightarrow> nat \<Rightarrow> bool \<Rightarrow> u64 \<Rightarrow> u64 \<Rightarrow> unit res option" where
  "wait_turn st sl killed now deadline =
     (case sleepers st sl of
        None \<Rightarrow> None
      | Some s \<Rightarrow>
          if woken s then Some (Inr ())
          else if killed then Some (Inl BadState)
          else if deadline \<noteq> DEADLINE_INFINITE \<and> now \<ge> deadline then Some (Inl TimedOut)
          else None)"

definition futex_remove :: "(key \<Rightarrow> nat list option) \<Rightarrow> key \<Rightarrow> nat \<Rightarrow> bool \<times> (key \<Rightarrow> nat list option)" where
  "futex_remove qs key sl =
     (case qs key of
        None \<Rightarrow> (False, qs)
      | Some queue \<Rightarrow>
          let queue' = filter (\<lambda>s. s \<noteq> sl) queue;
              removed = (length queue' \<noteq> length queue)
          in (removed, if queue' = [] then qs(key := None) else qs(key \<mapsto> queue')))"

text \<open>The end of \<open>wait\<close>: one that fails leaves the queue, unless a wake has taken it.\<close>

definition wait_end :: "Futexes \<Rightarrow> nat \<Rightarrow> unit res \<Rightarrow> unit res \<times> Futexes" where
  "wait_end st sl result =
     (case result of
        Inr _ \<Rightarrow> (result, st\<lparr>sleepers := (sleepers st)(sl := None)\<rparr>)
      | Inl e \<Rightarrow>
          (case sleepers st sl of
             None \<Rightarrow> (result, st)
           | Some s \<Rightarrow>
               let (removed, qs) = futex_remove (queues st) (sl_koid s, sl_addr s) sl;
                   st' = st\<lparr>queues := qs, sleepers := (sleepers st)(sl := None)\<rparr>
               in if \<not> removed \<and> woken s then (Inr (), st') else (result, st')))"

text \<open>
  The loop of \<open>wake_locked\<close> over the rest of the queue: the sleepers kept, and those woken, of which
  there may be \<open>room\<close> more.
\<close>

fun wake_loop :: "(nat \<Rightarrow> 32 word) \<Rightarrow> 32 word \<Rightarrow> nat list \<Rightarrow> nat \<Rightarrow> nat list \<times> nat list" where
  "wake_loop bits b [] n = ([], [])"
| "wake_loop bits b (s # queue) n =
     (if n = 0 then (s # queue, [])
      else if bits s AND b \<noteq> 0 then (case wake_loop bits b queue (n - 1) of (kept, ws) \<Rightarrow> (kept, s # ws))
      else (case wake_loop bits b queue n of (kept, ws) \<Rightarrow> (s # kept, ws)))"

definition bits_of :: "Futexes \<Rightarrow> nat \<Rightarrow> 32 word" where
  "bits_of st s = (case sleepers st s of Some r \<Rightarrow> bitset r | None \<Rightarrow> 0)"

definition set_woken :: "nat list \<Rightarrow> (nat \<Rightarrow> Sleeper option) \<Rightarrow> nat \<Rightarrow> Sleeper option" where
  "set_woken ws ss = (\<lambda>s. if s \<in> set ws then map_option (\<lambda>r. r\<lparr>woken := True\<rparr>) (ss s) else ss s)"

definition set_addr :: "u64 \<Rightarrow> nat list \<Rightarrow> (nat \<Rightarrow> Sleeper option) \<Rightarrow> nat \<Rightarrow> Sleeper option" where
  "set_addr a ws ss = (\<lambda>s. if s \<in> set ws then map_option (\<lambda>r. r\<lparr>sl_addr := a\<rparr>) (ss s) else ss s)"

definition put_queue :: "key \<Rightarrow> nat list \<Rightarrow> (key \<Rightarrow> nat list option) \<Rightarrow> key \<Rightarrow> nat list option" where
  "put_queue key q qs = (if q = [] then qs(key := None) else qs(key \<mapsto> q))"

definition wake_locked :: "Futexes \<Rightarrow> key \<Rightarrow> u32 \<Rightarrow> 32 word \<Rightarrow> u32 \<times> Futexes" where
  "wake_locked st key count b =
     (case queues st key of
        None \<Rightarrow> (0, st)
      | Some queue \<Rightarrow>
          let (kept, ws) = wake_loop (bits_of st) b queue count
          in (length ws, st\<lparr>queues := put_queue key kept (queues st), sleepers := set_woken ws (sleepers st)\<rparr>))"

definition futex_wake :: "Futexes \<Rightarrow> u64 \<Rightarrow> u64 \<Rightarrow> u32 \<Rightarrow> 32 word \<Rightarrow> u32 res \<times> Futexes" where
  "futex_wake st koid addr count b =
     (if addr mod 4 \<noteq> 0 \<or> b = 0 then (Inl InvalidArgs, st)
      else let (n, st') = wake_locked st (koid, addr) count b in (Inr n, st'))"

text \<open>The part of \<open>requeue\<close> that moves sleepers.\<close>

definition requeue_move :: "Futexes \<Rightarrow> u64 \<Rightarrow> u64 \<Rightarrow> u64 \<Rightarrow> u32 \<Rightarrow> bool \<Rightarrow> u32 \<times> Futexes" where
  "requeue_move st koid fr to n fits =
     (if fr = to \<or> n = 0 then (0, st)
      else case queues st (koid, fr) of
        None \<Rightarrow> (0, st)
      | Some queue \<Rightarrow>
          let taken = take n queue;
              st1 = st\<lparr>queues := put_queue (koid, fr) (drop n queue) (queues st)\<rparr>
          in if taken = [] then (0, st1)
             else
               let target = (case queues st1 (koid, to) of None \<Rightarrow> [] | Some q \<Rightarrow> q) in
               (length taken,
                if \<not> fits
                then st1\<lparr>queues := (queues st1)((koid, to) \<mapsto> target), sleepers := set_woken taken (sleepers st1)\<rparr>
                else st1\<lparr>queues := (queues st1)((koid, to) \<mapsto> target @ taken), sleepers := set_addr to taken (sleepers st1)\<rparr>))"

definition requeue ::
  "Futexes \<Rightarrow> u64 \<Rightarrow> u64 \<Rightarrow> u64 \<Rightarrow> u32 \<Rightarrow> u32 \<Rightarrow> u32 option \<Rightarrow> unit res \<Rightarrow> u32 res \<Rightarrow> bool \<Rightarrow> u32 res \<times> Futexes"
where
  "requeue st koid fr to wake_n move_n expected populated value fits =
     (if fr mod 4 \<noteq> 0 \<or> to mod 4 \<noteq> 0 then (Inl InvalidArgs, st)
      else
        let go = (let (w, st1) = wake_locked st (koid, fr) wake_n FUTEX_ALL;
                      (m, st2) = requeue_move st1 koid fr to move_n fits
                  in (Inr (w + m), st2)) in
        case expected of
          None \<Rightarrow> go
        | Some x \<Rightarrow>
            (case populated of
               Inl e \<Rightarrow> (Inl e, st)
             | Inr _ \<Rightarrow>
                 (case value of
                    Inl e \<Rightarrow> (Inl e, st)
                  | Inr v \<Rightarrow> if v \<noteq> x then (Inl ShouldWait, st) else go)))"

subsection \<open>First come, first woken\<close>

definition meets :: "Futexes \<Rightarrow> 32 word \<Rightarrow> nat \<Rightarrow> bool" where
  "meets st b s \<longleftrightarrow> bits_of st s AND b \<noteq> 0"

lemma wake_loop_distinct:
  "distinct q \<Longrightarrow> wake_loop bits b q n =
    (filter (\<lambda>s. s \<notin> set (take n (filter (\<lambda>s. bits s AND b \<noteq> 0) q))) q, take n (filter (\<lambda>s. bits s AND b \<noteq> 0) q))"
proof (induction bits b q n rule: wake_loop.induct)
  case (2 bits b s q n)
  show ?case
  proof (cases "n = 0")
    case False
    show ?thesis
    proof (cases "bits s AND b \<noteq> 0")
      case m: True
      have "filter (\<lambda>x. x \<notin> set (s # take (n - 1) (filter (\<lambda>s. bits s AND b \<noteq> 0) q))) q =
          filter (\<lambda>x. x \<notin> set (take (n - 1) (filter (\<lambda>s. bits s AND b \<noteq> 0) q))) q"
        using "2.prems" by (intro filter_cong) auto
      then show ?thesis using "2.IH"(1) "2.prems" False m by (simp add: take_Cons')
    next
      case m: False
      have "s \<notin> set (take n (filter (\<lambda>s. bits s AND b \<noteq> 0) q))"
        using "2.prems" by (auto dest: in_set_takeD)
      then show ?thesis using "2.IH"(2) "2.prems" False m by simp
    qed
  qed simp
qed simp

subsection \<open>The invariant\<close>

text \<open>A sleeper no wake has taken is in the queue of its word, once; one that has been taken is in none.\<close>

definition queued :: "Futexes \<Rightarrow> key \<Rightarrow> nat \<Rightarrow> bool" where
  "queued st key s \<longleftrightarrow> (\<exists>q. queues st key = Some q \<and> s \<in> set q)"

definition futex_inv :: "Futexes \<Rightarrow> bool" where
  "futex_inv st \<longleftrightarrow>
     (\<forall>key q. queues st key = Some q \<longrightarrow> distinct q) \<and>
     (\<forall>key s. queued st key s \<longleftrightarrow>
        (\<exists>r. sleepers st s = Some r \<and> \<not> woken r \<and> key = (sl_koid r, sl_addr r)))"

lemma futex_invI:
  assumes "\<And>key q. queues st key = Some q \<Longrightarrow> distinct q"
    and "\<And>key s. queued st key s \<longleftrightarrow> (\<exists>r. sleepers st s = Some r \<and> \<not> woken r \<and> key = (sl_koid r, sl_addr r))"
  shows "futex_inv st"
  using assms by (simp add: futex_inv_def)

lemma futex_invD:
  assumes "futex_inv st"
  shows "queues st key = Some q \<Longrightarrow> distinct q"
    "queued st key s \<longleftrightarrow> (\<exists>r. sleepers st s = Some r \<and> \<not> woken r \<and> key = (sl_koid r, sl_addr r))"
  using assms unfolding futex_inv_def by blast+

lemma one_queue:
  assumes "futex_inv st" "queued st k s" "queued st k' s"
  shows "k = k'"
  using futex_invD(2) [OF assms(1)] assms(2,3) by (metis option.inject)

lemma queued_put:
  "queued (st\<lparr>queues := put_queue key q qs, sleepers := ss\<rparr>) k s \<longleftrightarrow>
     (if k = key then s \<in> set q else (\<exists>q'. qs k = Some q' \<and> s \<in> set q'))"
  by (auto simp: queued_def put_queue_def)

lemma wait_begin_inv:
  assumes inv: "futex_inv st" and new: "sleepers st sl = None"
  shows "futex_inv (snd (wait_begin st sl koid addr expected bits populated value fits))"
proof -
  define q where "q = (case queues st (koid, addr) of None \<Rightarrow> [] | Some q \<Rightarrow> q)"
  have q: "distinct q" "\<And>s. s \<in> set q \<longleftrightarrow> queued st (koid, addr) s"
    using futex_invD(1) [OF inv] by (cases "queues st (koid, addr)"; simp add: q_def queued_def)+
  have nq: "\<not> queued st k sl" for k using futex_invD(2) [OF inv] new by simp
  have "futex_inv (st\<lparr>queues := (queues st)((koid, addr) \<mapsto> q)\<rparr>)"
  proof (rule futex_invI)
    fix key s
    have "queued (st\<lparr>queues := (queues st)((koid, addr) \<mapsto> q)\<rparr>) key s \<longleftrightarrow> queued st key s"
      using q(2) by (auto simp: queued_def)
    then show "queued (st\<lparr>queues := (queues st)((koid, addr) \<mapsto> q)\<rparr>) key s \<longleftrightarrow>
        (\<exists>r. sleepers (st\<lparr>queues := (queues st)((koid, addr) \<mapsto> q)\<rparr>) s = Some r \<and> \<not> woken r \<and> key = (sl_koid r, sl_addr r))"
      using futex_invD(2) [OF inv] by simp
  qed (use q(1) futex_invD(1) [OF inv] in \<open>auto split: if_splits\<close>)
  moreover have "futex_inv (st\<lparr>queues := (queues st)((koid, addr) \<mapsto> q @ [sl]),
      sleepers := (sleepers st)(sl \<mapsto> \<lparr>bitset = bits, woken = False, sl_addr = addr, sl_koid = koid\<rparr>)\<rparr>)" (is "futex_inv ?st")
  proof (rule futex_invI)
    fix key s
    have "queued ?st key s \<longleftrightarrow> queued st key s \<or> (key = (koid, addr) \<and> s = sl)"
      using q(2) by (auto simp: queued_def)
    then show "queued ?st key s \<longleftrightarrow> (\<exists>r. sleepers ?st s = Some r \<and> \<not> woken r \<and> key = (sl_koid r, sl_addr r))"
      using futex_invD(2) [OF inv, of key s] nq [of key] by (cases "s = sl") simp_all
  next
    fix key q' assume "queues ?st key = Some q'"
    then show "distinct q'" using q nq futex_invD(1) [OF inv] by (auto split: if_splits)
  qed
  ultimately show ?thesis
    using inv by (simp add: wait_begin_def Let_def flip: q_def split: sum.split)
qed

text \<open>Sleepers leave a queue: those that were taken are marked, the rest stay.\<close>

lemma take_out_inv:
  assumes inv: "futex_inv st" and q: "queues st key = Some q" and sub: "set ws \<subseteq> set q"
  shows "futex_inv (st\<lparr>queues := put_queue key (filter (\<lambda>s. s \<notin> set ws) q) (queues st), sleepers := set_woken ws (sleepers st)\<rparr>)"
    (is "futex_inv ?st")
proof (rule futex_invI)
  fix k q' assume "queues ?st k = Some q'"
  then show "distinct q'"
    using futex_invD(1) [OF inv, of k] futex_invD(1) [OF inv q] by (auto simp: put_queue_def split: if_splits)
next
  fix k s
  have in_q: "x \<in> set q \<longleftrightarrow> queued st key x" for x using q by (simp add: queued_def)
  have "queued ?st k s \<longleftrightarrow> queued st k s \<and> s \<notin> set ws"
  proof (cases "k = key")
    case True
    then show ?thesis using in_q by (simp add: queued_put)
  next
    case False
    have "s \<notin> set ws" if "queued st k s"
    proof
      assume "s \<in> set ws"
      then have "queued st key s" using sub in_q by blast
      then show False using one_queue [OF inv that] False by blast
    qed
    then show ?thesis using False by (auto simp: queued_put queued_def put_queue_def)
  qed
  then show "queued ?st k s \<longleftrightarrow> (\<exists>r. sleepers ?st s = Some r \<and> \<not> woken r \<and> k = (sl_koid r, sl_addr r))"
    using futex_invD(2) [OF inv, of k s] by (cases "s \<in> set ws") (auto simp: set_woken_def)
qed

lemma wake_locked_is:
  fixes n :: nat and b :: "32 word"
  assumes inv: "futex_inv st" and q: "queues st key = Some q"
  defines "ws \<equiv> take n (filter (meets st b) q)"
  shows "wake_locked st key n b = (length ws,
    st\<lparr>queues := put_queue key (filter (\<lambda>s. s \<notin> set ws) q) (queues st), sleepers := set_woken ws (sleepers st)\<rparr>)"
  using wake_loop_distinct [OF futex_invD(1) [OF inv q], of "bits_of st" b n] q
  by (simp add: wake_locked_def ws_def meets_def [abs_def] Let_def)

lemma wake_locked_inv:
  assumes inv: "futex_inv st"
  shows "futex_inv (snd (wake_locked st key n b))"
proof (cases "queues st key")
  case None
  then show ?thesis using inv by (simp add: wake_locked_def)
next
  case (Some q)
  have "set (take n (filter (meets st b) q)) \<subseteq> set q" by (auto dest: in_set_takeD)
  then show ?thesis using take_out_inv [OF inv Some] wake_locked_is [OF inv Some] by simp
qed

text \<open>Sleepers move from one queue of a process to the end of another.\<close>

lemma move_inv:
  fixes n :: nat
  assumes inv: "futex_inv st" and q: "queues st (koid, fr) = Some q" and ne: "fr \<noteq> to"
  defines "qs \<equiv> put_queue (koid, fr) (drop n q) (queues st)"
  defines "target \<equiv> (case qs (koid, to) of None \<Rightarrow> [] | Some q \<Rightarrow> q)"
  shows "futex_inv (st\<lparr>queues := qs((koid, to) \<mapsto> target @ take n q), sleepers := set_addr to (take n q) (sleepers st)\<rparr>)"
    (is "futex_inv ?st")
proof -
  have dq: "distinct q" by (rule futex_invD(1) [OF inv q])
  have in_q: "x \<in> set q \<longleftrightarrow> queued st (koid, fr) x" for x using q by (simp add: queued_def)
  have qs_to: "qs (koid, to) = queues st (koid, to)" using ne by (simp add: qs_def put_queue_def)
  have tgt: "x \<in> set target \<longleftrightarrow> queued st (koid, to) x" for x
    by (cases "queues st (koid, to)") (simp_all add: target_def qs_to queued_def)
  have dt: "distinct target"
    using futex_invD(1) [OF inv, of "(koid, to)"] by (cases "queues st (koid, to)") (simp_all add: target_def qs_to)
  have apart: "\<not> queued st (koid, to) x" if "queued st (koid, fr) x" for x
    using one_queue [OF inv that, of "(koid, to)"] ne by blast
  have split_q: "x \<in> set (drop n q) \<longleftrightarrow> x \<in> set q \<and> x \<notin> set (take n q)" for x
    using dq by (metis Un_iff append_take_drop_id disjoint_iff distinct_append set_append)
  show ?thesis
  proof (rule futex_invI)
    fix k q' assume "queues ?st k = Some q'"
    moreover have "distinct (target @ take n q)"
      using dt dq tgt in_q apart by (auto dest: in_set_takeD)
    ultimately show "distinct q'"
      using futex_invD(1) [OF inv, of k] dq by (auto simp: qs_def put_queue_def split: if_splits)
  next
    fix k s
    have a: "queued ?st (koid, to) s \<longleftrightarrow> queued st (koid, to) s \<or> s \<in> set (take n q)"
      using tgt [of s] by (simp add: queued_def [of ?st])
    have b: "queued ?st (koid, fr) s \<longleftrightarrow> queued st (koid, fr) s \<and> s \<notin> set (take n q)"
    proof -
      have "qs (koid, fr) = (if drop n q = [] then None else Some (drop n q))"
        unfolding qs_def put_queue_def by (simp del: drop_eq_Nil)
      then have "queued ?st (koid, fr) s \<longleftrightarrow> s \<in> set (drop n q)"
        using ne by (cases "drop n q = []") (auto simp: queued_def simp del: drop_eq_Nil)
      then show ?thesis using in_q [of s] split_q [of s] by blast
    qed
    have c: "queued ?st k s \<longleftrightarrow> queued st k s" if "k \<noteq> (koid, to)" "k \<noteq> (koid, fr)"
      using that by (simp add: queued_def qs_def put_queue_def)
    have fr_s: "queued st (koid, fr) s" if "s \<in> set (take n q)" using that in_q by (auto dest: in_set_takeD)
    show "queued ?st k s \<longleftrightarrow> (\<exists>r. sleepers ?st s = Some r \<and> \<not> woken r \<and> k = (sl_koid r, sl_addr r))"
    proof (cases "s \<in> set (take n q)")
      case True
      obtain r where r: "sleepers st s = Some r" "\<not> woken r" "sl_koid r = koid" "sl_addr r = fr"
        using fr_s [OF True] futex_invD(2) [OF inv, of "(koid, fr)" s] by auto
      have "queued ?st k s \<longleftrightarrow> k = (koid, to)"
        using a b c True futex_invD(2) [OF inv, of k s] r by (cases "k = (koid, to)"; cases "k = (koid, fr)") simp_all
      then show ?thesis using True r by (auto simp: set_addr_def)
    next
      case False
      have "queued ?st k s \<longleftrightarrow> queued st k s"
        using a b c False by (cases "k = (koid, to)"; cases "k = (koid, fr)") simp_all
      then show ?thesis using False futex_invD(2) [OF inv, of k s] by (simp add: set_addr_def)
    qed
  qed
qed

lemma drop_filter:
  assumes "distinct q"
  shows "filter (\<lambda>s. s \<notin> set (take n q)) q = drop n q"
proof -
  let ?P = "\<lambda>s. s \<notin> set (take n q)"
  have "filter ?P q = filter ?P (take n q) @ filter ?P (drop n q)" by (metis append_take_drop_id filter_append)
  moreover have "filter ?P (drop n q) = drop n q"
    using set_take_disj_set_drop_if_distinct [OF assms order_refl, of n] by (intro filter_True) blast
  ultimately show ?thesis by simp
qed

lemma requeue_move_inv:
  assumes inv: "futex_inv st"
  shows "futex_inv (snd (requeue_move st koid fr to n fits))"
proof (cases "fr = to \<or> n = 0 \<or> queues st (koid, fr) = None")
  case True
  then show ?thesis using inv by (auto simp: requeue_move_def)
next
  case False
  then obtain q where q: "queues st (koid, fr) = Some q" and ne: "fr \<noteq> to" "n \<noteq> 0" by auto
  let ?qs = "put_queue (koid, fr) (drop n q) (queues st)"
  define target where "target = (case ?qs (koid, to) of None \<Rightarrow> [] | Some q \<Rightarrow> q)"
  have dq: "distinct q" by (rule futex_invD(1) [OF inv q])
  have rest: "drop n q = filter (\<lambda>s. s \<notin> set (take n q)) q" by (rule drop_filter [OF dq, symmetric])
  show ?thesis
  proof (cases "take n q = [] \<or> \<not> fits")
    case True
    have woke: "futex_inv (st\<lparr>queues := ?qs, sleepers := set_woken (take n q) (sleepers st)\<rparr>)"
      using take_out_inv [OF inv q, of "take n q"] rest by (simp add: set_take_subset)
    then have base: "futex_inv (st\<lparr>queues := ?qs\<rparr>)" if "take n q = []"
      using that by (simp add: set_woken_def)
    have wokt: "futex_inv (st\<lparr>queues := ?qs((koid, to) \<mapsto> target), sleepers := set_woken (take n q) (sleepers st)\<rparr>)"
      (is "futex_inv ?st")
    proof (rule futex_invI)
      let ?before = "st\<lparr>queues := ?qs, sleepers := set_woken (take n q) (sleepers st)\<rparr>"
      fix k s
      have "queued ?st k s \<longleftrightarrow> queued ?before k s"
        by (cases "k = (koid, to)"; cases "?qs (koid, to)") (auto simp: queued_def target_def)
      then show "queued ?st k s \<longleftrightarrow> (\<exists>r. sleepers ?st s = Some r \<and> \<not> woken r \<and> k = (sl_koid r, sl_addr r))"
        using futex_invD(2) [OF woke, of k s] by simp
    next
      fix k q' assume "queues ?st k = Some q'"
      then show "distinct q'"
        using futex_invD(1) [OF woke, of k] futex_invD(1) [OF woke, of "(koid, to)"]
        by (cases "?qs (koid, to)") (auto simp: target_def split: if_splits)
    qed
    show ?thesis
    proof (cases "take n q = []")
      case True
      then show ?thesis using base ne q by (simp add: requeue_move_def Let_def)
    next
      case False
      then show ?thesis using wokt ne q \<open>take n q = [] \<or> \<not> fits\<close>
        by (simp add: requeue_move_def Let_def target_def)
    qed
  next
    case False
    then show ?thesis
      using move_inv [OF inv q ne(1), of n] ne q by (simp add: requeue_move_def Let_def)
  qed
qed

text \<open>Taking one sleeper out of its queue and forgetting it.\<close>

lemma forget_inv:
  assumes inv: "futex_inv st"
    and qs: "\<And>k x. (\<exists>q. qs k = Some q \<and> x \<in> set q) \<longleftrightarrow> queued st k x \<and> x \<noteq> sl"
    and d: "\<And>k q. qs k = Some q \<Longrightarrow> distinct q"
  shows "futex_inv (st\<lparr>queues := qs, sleepers := (sleepers st)(sl := None)\<rparr>)"
proof (rule futex_invI)
  fix k x
  have "queued (st\<lparr>queues := qs, sleepers := (sleepers st)(sl := None)\<rparr>) k x \<longleftrightarrow> queued st k x \<and> x \<noteq> sl"
    using qs [of k x] by (simp add: queued_def)
  then show "queued (st\<lparr>queues := qs, sleepers := (sleepers st)(sl := None)\<rparr>) k x \<longleftrightarrow>
      (\<exists>r. sleepers (st\<lparr>queues := qs, sleepers := (sleepers st)(sl := None)\<rparr>) x = Some r \<and> \<not> woken r \<and> k = (sl_koid r, sl_addr r))"
    using futex_invD(2) [OF inv, of k x] by (cases "x = sl") simp_all
qed (use d in simp)

lemma futex_remove_is:
  assumes inv: "futex_inv st" and s: "sleepers st sl = Some s" and res: "futex_remove (queues st) (sl_koid s, sl_addr s) sl = (rm, qs)"
  shows "rm \<longleftrightarrow> \<not> woken s" "(\<exists>q. qs k = Some q \<and> x \<in> set q) \<longleftrightarrow> queued st k x \<and> x \<noteq> sl"
    "qs k = Some q \<Longrightarrow> distinct q"
proof -
  let ?key = "(sl_koid s, sl_addr s)"
  have here: "queued st k sl \<longleftrightarrow> \<not> woken s \<and> k = ?key" for k using futex_invD(2) [OF inv, of k sl] s by simp
  have "(rm \<longleftrightarrow> \<not> woken s) \<and> ((\<exists>q. qs k = Some q \<and> x \<in> set q) \<longleftrightarrow> queued st k x \<and> x \<noteq> sl) \<and>
      (qs k = Some q \<longrightarrow> distinct q)"
  proof (cases "queues st ?key")
    case None
    then have "\<not> queued st ?key sl" by (simp add: queued_def)
    then have w: "woken s" using here by blast
    then have "(\<exists>q. queues st k = Some q \<and> x \<in> set q) \<longleftrightarrow> queued st k x \<and> x \<noteq> sl"
      using here [of k] by (auto simp: queued_def)
    then show ?thesis using None res w futex_invD(1) [OF inv, of k] by (simp add: futex_remove_def)
  next
    case (Some q0)
    let ?q = "filter (\<lambda>x. x \<noteq> sl) q0"
    have rm: "rm \<longleftrightarrow> length ?q \<noteq> length q0" and qs: "qs = put_queue ?key ?q (queues st)"
      using Some res by (auto simp: futex_remove_def put_queue_def Let_def)
    have "length ?q \<noteq> length q0 \<longleftrightarrow> sl \<in> set q0"
      by (metis (mono_tags, lifting) filter_True filter_id_conv length_filter_less less_irrefl)
    then have "rm \<longleftrightarrow> \<not> woken s" using here [of ?key] Some rm by (simp add: queued_def)
    moreover have "(\<exists>q. qs k = Some q \<and> x \<in> set q) \<longleftrightarrow> queued st k x \<and> x \<noteq> sl"
    proof (cases "k = ?key")
      case True
      then show ?thesis using Some by (auto simp: qs put_queue_def queued_def filter_empty_conv)
    next
      case False
      then show ?thesis using here [of k] by (auto simp: qs put_queue_def queued_def)
    qed
    moreover have "qs k = Some q \<longrightarrow> distinct q"
      using futex_invD(1) [OF inv, of k] futex_invD(1) [OF inv Some] by (auto simp: qs put_queue_def split: if_splits)
    ultimately show ?thesis by blast
  qed
  then show "rm \<longleftrightarrow> \<not> woken s" "(\<exists>q. qs k = Some q \<and> x \<in> set q) \<longleftrightarrow> queued st k x \<and> x \<noteq> sl"
    "qs k = Some q \<Longrightarrow> distinct q" by blast+
qed

lemma wait_end_inv:
  assumes inv: "futex_inv st" and s: "sleepers st sl = Some s" and ok: "result = Inr () \<Longrightarrow> woken s"
  shows "futex_inv (snd (wait_end st sl result))"
    "fst (wait_end st sl result) = (if woken s then Inr () else result)"
    "sleepers (snd (wait_end st sl result)) = (sleepers st)(sl := None)"
proof -
  have "futex_inv (snd (wait_end st sl result)) \<and> fst (wait_end st sl result) = (if woken s then Inr () else result) \<and>
      sleepers (snd (wait_end st sl result)) = (sleepers st)(sl := None)"
  proof (cases result)
    case (Inr u)
    then have w: "woken s" using ok by simp
    have "(\<exists>q. queues st k = Some q \<and> x \<in> set q) \<longleftrightarrow> queued st k x \<and> x \<noteq> sl" for k x
      using futex_invD(2) [OF inv, of k sl] s w by (auto simp: queued_def)
    from forget_inv [OF inv this futex_invD(1) [OF inv]] show ?thesis using Inr w by (simp add: wait_end_def)
  next
    case (Inl e)
    obtain rm qs where r: "futex_remove (queues st) (sl_koid s, sl_addr s) sl = (rm, qs)" by force
    note fr = futex_remove_is [OF inv s r]
    show ?thesis using forget_inv [OF inv fr(2,3)] fr(1) Inl s r by (simp add: wait_end_def)
  qed
  then show "futex_inv (snd (wait_end st sl result))"
    "fst (wait_end st sl result) = (if woken s then Inr () else result)"
    "sleepers (snd (wait_end st sl result)) = (sleepers st)(sl := None)" by blast+
qed

subsection \<open>The state machine\<close>

definition futex_start :: Futexes where
  "futex_start = \<lparr>queues = Map.empty, sleepers = Map.empty\<rparr>"

inductive futex_step :: "Futexes \<Rightarrow> Futexes \<Rightarrow> bool" where
  step_wait: "sleepers st sl = None \<Longrightarrow>
    futex_step st (snd (wait_begin st sl koid addr expected bits populated value fits))"
| step_wake: "futex_step st (snd (futex_wake st koid addr count b))"
| step_requeue: "futex_step st (snd (requeue st koid fr to wake_n move_n expected populated value fits))"
| step_end: "sleepers st sl = Some s \<Longrightarrow> (result = Inr () \<Longrightarrow> woken s) \<Longrightarrow> futex_step st (snd (wait_end st sl result))"

lemma futex_wake_inv: "futex_inv st \<Longrightarrow> futex_inv (snd (futex_wake st koid addr count b))"
  using wake_locked_inv [of st "(koid, addr)" count b] by (auto simp: futex_wake_def split: prod.split)

lemma requeue_inv:
  assumes inv: "futex_inv st"
  shows "futex_inv (snd (requeue st koid fr to wake_n move_n expected populated value fits))"
proof -
  obtain w st1 where w: "wake_locked st (koid, fr) wake_n FUTEX_ALL = (w, st1)" by force
  obtain m st2 where m: "requeue_move st1 koid fr to move_n fits = (m, st2)" by force
  have "futex_inv st2"
    using requeue_move_inv [of st1 koid fr to move_n fits] wake_locked_inv [OF inv, of "(koid, fr)" wake_n FUTEX_ALL] w m by simp
  then show ?thesis
    using inv w m by (auto simp: requeue_def Let_def split: option.split sum.split)
qed

lemma futex_step_inv:
  assumes "futex_inv st" "futex_step st st'"
  shows "futex_inv st'"
  using assms(2,1)
  by cases (auto intro: wait_begin_inv futex_wake_inv requeue_inv wait_end_inv(1))

lemma futex_start_inv: "futex_inv futex_start"
  by (simp add: futex_inv_def futex_start_def queued_def)

interpretation ftx: transition_system "\<lambda>st. st = futex_start" futex_step futex_inv
  by unfold_locales (auto intro: futex_step_inv futex_start_inv)

lemma futex_reached: "futex_step\<^sup>*\<^sup>* futex_start st \<Longrightarrow> futex_inv st"
  using ftx.reachable_good by blast

subsection \<open>Properties\<close>

text \<open>
  C20. In every state the operations reach, a thread that waits is in exactly one queue, its word's, and in
  it once, until a wake takes it; a thread a wake has taken is in no queue, and no queue holds any other.\<close>

theorem waiting_means_queued_once:
  assumes "futex_step\<^sup>*\<^sup>* futex_start st"
  shows "(\<forall>key q. queues st key = Some q \<longrightarrow> distinct q) \<and>
    (\<forall>key s. (\<exists>q. queues st key = Some q \<and> s \<in> set q) \<longleftrightarrow>
       (\<exists>r. sleepers st s = Some r \<and> \<not> woken r \<and> key = (sl_koid r, sl_addr r)))"
  using futex_reached [OF assms] by (simp add: futex_inv_def queued_def)

definition demo_futex :: Futexes where
  "demo_futex = snd (wait_begin (snd (wait_begin futex_start 1 7 64 5 1 (Inr ()) (Inr 5) True)) 2 7 64 5 3 (Inr ()) (Inr 5) True)"

lemma demo_futex_is:
  "demo_futex = \<lparr>queues = [(7, 64) \<mapsto> [1, 2]],
     sleepers = [1 \<mapsto> \<lparr>bitset = 1, woken = False, sl_addr = 64, sl_koid = 7\<rparr>,
                 2 \<mapsto> \<lparr>bitset = 3, woken = False, sl_addr = 64, sl_koid = 7\<rparr>]\<rparr>"
  by (simp add: demo_futex_def wait_begin_def futex_start_def)

lemma demo_futex_reached: "futex_step\<^sup>*\<^sup>* futex_start demo_futex"
proof -
  let ?st = "snd (wait_begin futex_start 1 7 64 5 1 (Inr ()) (Inr 5) True)"
  have "futex_step futex_start ?st" by (rule step_wait) (simp add: futex_start_def)
  moreover have "futex_step ?st demo_futex"
    unfolding demo_futex_def by (rule step_wait) (simp add: wait_begin_def futex_start_def)
  ultimately show ?thesis by (meson converse_rtranclp_into_rtranclp r_into_rtranclp)
qed

theorem waiting_means_queued_once_witness:
  "queues demo_futex (7, 64) = Some [1, 2] \<and> distinct [1 :: nat, 2] \<and>
    (\<exists>r. sleepers demo_futex 1 = Some r \<and> \<not> woken r \<and> (7, 64) = (sl_koid r, sl_addr r))"
  using waiting_means_queued_once [OF demo_futex_reached] by (simp add: demo_futex_is)

text \<open>
  C33. A wake takes the first threads of the queue whose bits meet its own, at most as many as it was asked
  for, in the order they came to wait; it counts exactly the threads it marks, and the others keep their
  places.\<close>

theorem wake_first_come_first_woken:
  assumes "futex_inv st" "queues st (koid, addr) = Some q" "addr mod 4 = 0" "b \<noteq> 0"
    and "futex_wake st koid addr n b = (r, st')"
  defines "ws \<equiv> take n (filter (meets st b) q)"
  shows "r = Inr (length ws) \<and>
    queues st' = put_queue (koid, addr) (filter (\<lambda>s. s \<notin> set ws) q) (queues st) \<and>
    sleepers st' = (\<lambda>s. if s \<in> set ws then map_option (\<lambda>x. x\<lparr>woken := True\<rparr>) (sleepers st s) else sleepers st s)"
  using assms(3-5) wake_locked_is [OF assms(1,2), of n b]
  by (auto simp: futex_wake_def ws_def set_woken_def [abs_def])

theorem wake_first_come_first_woken_witness:
  "fst (futex_wake demo_futex 7 64 5 2) = Inr 1 \<and> queues (snd (futex_wake demo_futex 7 64 5 2)) (7, 64) = Some [1]"
proof -
  have q: "queues demo_futex (7, 64) = Some [1, 2]" by (simp add: demo_futex_is)
  have "filter (meets demo_futex 2) [1, 2] = [2]" by (simp add: meets_def bits_of_def demo_futex_is)
  then show ?thesis
    using wake_first_come_first_woken [OF futex_reached [OF demo_futex_reached] q _ _ surjective_pairing, of 2 5]
    by (simp add: put_queue_def)
qed





end
