(* ===== verification/Signal.thy ===== *)
theory Signal
  imports Abi
begin

unbundle bit_operations_syntax

text \<open>
  Signals (\<open>kernel/core/src/signal.rs\<close>): the bits an object raises and the wakers of the threads
  waiting on them. A waker is the number it is known by (two \<open>Arc\<close>s are the same when their numbers
  are), and what \<open>wake_up\<close> was called on is kept in \<open>woken\<close>, in order: it is what the rest of the
  kernel sees of it.
\<close>

type_synonym waker = nat

record Signaller =
  bits :: signals
  observers :: "waker list"
  woken :: "waker list"

definition Signaller_new :: "signals \<Rightarrow> Signaller" where
  "Signaller_new initial = \<lparr>bits = initial, observers = [], woken = []\<rparr>"

definition Signaller_get :: "Signaller \<Rightarrow> signals" where
  "Signaller_get s = bits s"

definition sig_update :: "Signaller \<Rightarrow> signals \<Rightarrow> signals \<Rightarrow> Signaller" where
  "sig_update s clr st =
     (let b = Signals_union (Signals_difference (bits s) clr) st in
      if b \<noteq> bits s then s\<lparr>bits := b, woken := woken s @ observers s\<rparr> else s)"

definition poke :: "Signaller \<Rightarrow> Signaller" where
  "poke s = s\<lparr>woken := woken s @ observers s\<rparr>"

definition observe :: "Signaller \<Rightarrow> waker \<Rightarrow> signals \<times> Signaller" where
  "observe s w = (bits s, s\<lparr>observers := observers s @ [w]\<rparr>)"

definition unobserve :: "Signaller \<Rightarrow> waker \<Rightarrow> Signaller" where
  "unobserve s w = s\<lparr>observers := filter (\<lambda>x. x \<noteq> w) (observers s)\<rparr>"

text \<open>The callers that recompute an object's signals clear every bit they do not set.\<close>

definition set_signals :: "Signaller \<Rightarrow> signals \<Rightarrow> Signaller" where
  "set_signals s b = sig_update s (Signals_difference S_ALL b) b"

text \<open>A signaller never has a bit the ABI does not define, so those callers set exactly \<open>b\<close>.\<close>

definition known_bits :: "signals \<Rightarrow> bool" where
  "known_bits b \<longleftrightarrow> b AND NOT S_ALL = 0"

lemma known_bits_union [simp]: "known_bits (Signals_union a b) \<longleftrightarrow> known_bits a \<and> known_bits b"
  unfolding known_bits_def Signals_union_def
  by (metis (no_types) bit.conj_disj_distrib2 bit.disj_zero_right or_eq_0_iff)

lemma known_bits_consts [simp]:
  "known_bits S_NONE" "known_bits S_READABLE" "known_bits S_WRITABLE" "known_bits S_PEER_CLOSED"
  "known_bits S_TERMINATED" "known_bits S_SIGNALED" "known_bits 0"
  by (simp_all add: known_bits_def S_NONE_def abi_consts)

lemma keep_only:
  assumes "known_bits a"
  shows "Signals_union (Signals_difference a (Signals_difference S_ALL b)) b = b"
proof (rule bit_word_eqI)
  fix n :: nat
  assume n: "n < LENGTH(32)"
  have "\<not> bit (a AND NOT S_ALL) n" using assms by (simp add: known_bits_def)
  then show "bit (Signals_union (Signals_difference a (Signals_difference S_ALL b)) b) n = bit b n"
    using n by (auto simp: Signals_union_def Signals_difference_def bit_simps)
qed

lemma bits_set_signals [simp]: "known_bits (bits s) \<Longrightarrow> bits (set_signals s b) = b"
  by (simp add: set_signals_def sig_update_def keep_only Let_def)

lemma observers_sig_update [simp]: "observers (sig_update s a b) = observers s"
  by (simp add: sig_update_def Let_def)

lemma observers_set_signals [simp]: "observers (set_signals s b) = observers s"
  by (simp add: set_signals_def)

subsection \<open>No wake is lost\<close>

text \<open>What other threads and interrupts do to a signaller.\<close>

datatype sig_op = Update signals signals | Poke | Observe waker | Unobserve waker

fun sig_apply :: "sig_op \<Rightarrow> Signaller \<Rightarrow> Signaller" where
  "sig_apply (Update c b) s = sig_update s c b"
| "sig_apply Poke s = poke s"
| "sig_apply (Observe w) s = snd (observe s w)"
| "sig_apply (Unobserve w) s = unobserve s w"

fun sig_run :: "sig_op list \<Rightarrow> Signaller \<Rightarrow> Signaller" where
  "sig_run [] s = s"
| "sig_run (o1 # os) s = sig_run os (sig_apply o1 s)"

text \<open>The values the bits took, one after another, the starting one first.\<close>

fun sig_trace :: "sig_op list \<Rightarrow> Signaller \<Rightarrow> signals list" where
  "sig_trace [] s = [bits s]"
| "sig_trace (o1 # os) s = bits s # sig_trace os (sig_apply o1 s)"

lemma sig_apply_log:
  "\<exists>ws. woken (sig_apply o1 s) = woken s @ ws \<and> (bits (sig_apply o1 s) \<noteq> bits s \<longrightarrow> ws = observers s)"
  by (cases o1) (auto simp: sig_update_def poke_def observe_def unobserve_def Let_def)

lemma sig_run_log: "\<exists>ws. woken (sig_run os s) = woken s @ ws"
proof (induction os arbitrary: s)
  case (Cons o1 os)
  obtain ws where "woken (sig_apply o1 s) = woken s @ ws" using sig_apply_log [of o1 s] by blast
  moreover obtain vs where "woken (sig_run os (sig_apply o1 s)) = woken (sig_apply o1 s) @ vs"
    using Cons.IH by blast
  ultimately show ?case by simp
qed simp

lemma sig_apply_observers:
  "w \<in> set (observers s) \<Longrightarrow> o1 \<noteq> Unobserve w \<Longrightarrow> w \<in> set (observers (sig_apply o1 s))"
  by (cases o1) (auto simp: poke_def observe_def unobserve_def)

lemma sig_run_wakes:
  "w \<in> set (observers s) \<Longrightarrow> Unobserve w \<notin> set os \<Longrightarrow> b \<in> set (sig_trace os s) \<Longrightarrow> b \<noteq> bits s \<Longrightarrow>
    \<exists>ws. woken (sig_run os s) = woken s @ ws \<and> w \<in> set ws"
proof (induction os arbitrary: s)
  case (Cons o1 os)
  let ?t = "sig_apply o1 s"
  obtain ws where ws: "woken ?t = woken s @ ws" "bits ?t \<noteq> bits s \<longrightarrow> ws = observers s"
    using sig_apply_log [of o1 s] by blast
  obtain vs where vs: "woken (sig_run os ?t) = woken ?t @ vs" using sig_run_log [of os ?t] by blast
  show ?case
  proof (cases "bits ?t = bits s")
    case True
    have "w \<in> set (observers ?t)" using Cons.prems(1,2) by (intro sig_apply_observers) auto
    moreover have "b \<in> set (sig_trace os ?t)" using Cons.prems(3,4) by auto
    moreover have "b \<noteq> bits ?t" using Cons.prems(4) True by simp
    moreover have "Unobserve w \<notin> set os" using Cons.prems(2) by simp
    ultimately obtain us where "woken (sig_run os ?t) = woken ?t @ us" "w \<in> set us"
      using Cons.IH by blast
    then show ?thesis using ws(1) by auto
  next
    case False
    then show ?thesis using ws vs Cons.prems(1) by auto
  qed
qed simp

text \<open>
  C22. A thread that registers its waker and then reads the bits sleeps safely: once the bits have
  held, even for a moment, a value other than the one it read, its waker has been woken since it
  registered, whatever other threads registered, left, updated or poked meanwhile, and until the
  thread itself leaves.\<close>
theorem no_wake_is_lost:
  assumes "observe s w = (seen, s1)" and "Unobserve w \<notin> set os"
    and "b \<in> set (sig_trace os s1)" and "b \<noteq> seen"
  shows "w \<in> set (drop (length (woken s)) (woken (sig_run os s1)))"
proof -
  have s1: "s1 = s\<lparr>observers := observers s @ [w]\<rparr>" and seen: "seen = bits s"
    using assms(1) by (auto simp: observe_def)
  have "w \<in> set (observers s1)" "b \<noteq> bits s1" "woken s1 = woken s"
    using assms(4) by (simp_all add: s1 seen)
  then obtain ws where "woken (sig_run os s1) = woken s @ ws" "w \<in> set ws"
    using sig_run_wakes [of w s1 os b] assms(2,3) by auto
  then show ?thesis by simp
qed

text \<open>A push raises and a take lowers \<open>READABLE\<close> while waker 7 sleeps.\<close>

theorem no_wake_is_lost_witness:
  "7 \<in> set (drop (length (woken (Signaller_new S_NONE)))
     (woken (sig_run [Observe 8, Update 0 S_READABLE, Unobserve 8, Update S_READABLE 0]
       (snd (observe (Signaller_new S_NONE) 7)))))"
  by (rule no_wake_is_lost [where seen = S_NONE and b = S_READABLE])
    (simp_all add: observe_def Signaller_new_def sig_update_def unobserve_def Signals_union_def
      Signals_difference_def S_NONE_def S_READABLE_def)

end
