(* ===== verification/Objects.thy ===== *)
theory Objects
  imports Signal Handles Vm
begin

unbundle bit_operations_syntax

text \<open>
  Kernel objects and handles (\<open>kernel/core/src/object.rs\<close>). An object the other components hold by
  \<open>Arc\<close> is the number it is known by; a channel endpoint is its channel's number and its side.
  A resource's quarantine of pins is not modelled.
\<close>

type_synonym Endpoint = "nat \<times> nat"

record Resource =
  res_kind :: ResourceKind
  res_start :: u64
  res_end :: u64

definition DEVICE_END :: u64 where "DEVICE_END = 2 ^ 52"
definition INTERRUPT_END :: u64 where "INTERRUPT_END = 256"
definition MSI_END :: u64 where "MSI_END = 224"
definition DMA_END :: u64 where "DMA_END = 2 ^ 16"

fun Resource_root :: "ResourceKind \<Rightarrow> Resource" where
  "Resource_root RK_Process = \<lparr>res_kind = RK_Process, res_start = 0, res_end = 0\<rparr>"
| "Resource_root RK_DeviceMemory = \<lparr>res_kind = RK_DeviceMemory, res_start = 0, res_end = DEVICE_END\<rparr>"
| "Resource_root RK_Interrupt = \<lparr>res_kind = RK_Interrupt, res_start = 0, res_end = INTERRUPT_END\<rparr>"
| "Resource_root RK_Msi = \<lparr>res_kind = RK_Msi, res_start = 0, res_end = MSI_END\<rparr>"
| "Resource_root RK_Dma = \<lparr>res_kind = RK_Dma, res_start = 0, res_end = DMA_END\<rparr>"

definition covers :: "Resource \<Rightarrow> u64 \<Rightarrow> u64 \<Rightarrow> bool" where
  "covers r start len =
     (case checked_add start len of
        None \<Rightarrow> False
      | Some e \<Rightarrow> res_start r \<le> start \<and> e \<le> res_end r)"

datatype Object =
    Obj_Process nat | Obj_Thread nat | Obj_Channel Endpoint | Obj_Memory MemoryObject | Obj_Timer nat
  | Obj_Interrupt nat | Obj_DeviceMemory nat u64 | Obj_Console | Obj_Resource Resource | Obj_Pin nat
  | Obj_Slot nat | Obj_Account nat

fun Object_kind :: "Object \<Rightarrow> ObjectType" where
  "Object_kind (Obj_Process _) = OT_Process"
| "Object_kind (Obj_Thread _) = OT_Thread"
| "Object_kind (Obj_Channel _) = OT_Channel"
| "Object_kind (Obj_Memory _) = OT_Memory"
| "Object_kind (Obj_Timer _) = OT_Timer"
| "Object_kind (Obj_Interrupt _) = OT_Interrupt"
| "Object_kind (Obj_DeviceMemory _ _) = OT_DeviceMemory"
| "Object_kind Obj_Console = OT_Console"
| "Object_kind (Obj_Resource _) = OT_Resource"
| "Object_kind (Obj_Pin _) = OT_Pin"
| "Object_kind (Obj_Slot _) = OT_Slot"
| "Object_kind (Obj_Account _) = OT_Account"

text \<open>Whether \<open>Object::signaller\<close> is \<open>Some\<close>.\<close>

fun waitable :: "Object \<Rightarrow> bool" where
  "waitable (Obj_Process _) = True"
| "waitable (Obj_Thread _) = True"
| "waitable (Obj_Channel _) = True"
| "waitable (Obj_Timer _) = True"
| "waitable (Obj_Interrupt _) = True"
| "waitable (Obj_Slot _) = True"
| "waitable (Obj_Memory _) = False"
| "waitable (Obj_DeviceMemory _ _) = False"
| "waitable Obj_Console = False"
| "waitable (Obj_Resource _) = False"
| "waitable (Obj_Pin _) = False"
| "waitable (Obj_Account _) = False"

definition default_rights :: "ObjectType \<Rightarrow> rights" where
  "default_rights kind =
     (let base = R_DUPLICATE OR R_TRANSFER in
      if kind \<in> {OT_Process, OT_Thread, OT_Channel, OT_Timer, OT_Interrupt, OT_Slot}
      then base OR R_READ OR R_WRITE OR R_WAIT
      else if kind \<in> {OT_Memory, OT_DeviceMemory} then base OR R_READ OR R_WRITE OR R_MAP
      else if kind \<in> {OT_Console, OT_Resource} then base OR R_WRITE
      else if kind = OT_Account then base OR R_READ OR R_WRITE
      else R_NONE)"

record Handle =
  h_object :: Object
  h_rights :: rights

definition Handle_new :: "Object \<Rightarrow> Handle" where
  "Handle_new obj = \<lparr>h_object = obj, h_rights = default_rights (Object_kind obj)\<rparr>"

subsection \<open>Endpoints among handles\<close>

definition handle_ep :: "Handle \<Rightarrow> Endpoint option" where
  "handle_ep h = (case h_object h of Obj_Channel e \<Rightarrow> Some e | _ \<Rightarrow> None)"

definition handle_eps :: "Handle list \<Rightarrow> Endpoint list" where
  "handle_eps hs = List.map_filter handle_ep hs"

lemma handle_eps_simps [simp]:
  "handle_eps [] = []"
  "handle_eps (h # hs) = (case handle_ep h of None \<Rightarrow> handle_eps hs | Some e \<Rightarrow> e # handle_eps hs)"
  "handle_eps (hs @ hs') = handle_eps hs @ handle_eps hs'"
  by (simp_all add: handle_eps_def map_filter_def split: option.split)

lemma set_handle_eps: "set (handle_eps hs) = {e. \<exists>h \<in> set hs. handle_ep h = Some e}"
  by (force simp: handle_eps_def map_filter_def)

subsection \<open>What a table holds\<close>

definition table_handles :: "'a HandleTable \<Rightarrow> 'a list" where
  "table_handles t = List.map_filter entry (slots t)"

lemma set_table_handles:
  "set (table_handles t) = {h. \<exists>i < length (slots t). entry (slots t ! i) = Some h}"
  by (force simp: table_handles_def map_filter_def in_set_conv_nth)

lemma get_in_table: "HandleTable_get t v = Inr h \<Longrightarrow> h \<in> set (table_handles t)"
  by (erule get_Inr) (auto simp: set_table_handles)

lemma table_handles_insert:
  assumes "HandleTable_inv t" "insert_or_return r t h = (Inr v, t')"
  shows "set (table_handles t') = insert h (set (table_handles t))"
  using assms
proof (rule insert_or_return_ok)
  fix i g
  assume i: "i < length (slots t')" "entry (slots t' ! i) = Some h" "i \<notin> live t"
    and same: "\<And>j. j < length (slots t) \<Longrightarrow> j \<noteq> i \<Longrightarrow> slots t' ! j = slots t ! j"
    and shrink: "\<And>j. j < length (slots t') \<Longrightarrow> j \<noteq> i \<Longrightarrow> j < length (slots t)"
    and grow: "length (slots t) \<le> length (slots t')"
  have "(\<exists>j < length (slots t'). entry (slots t' ! j) = Some x) \<longleftrightarrow>
      x = h \<or> (\<exists>j < length (slots t). entry (slots t ! j) = Some x)" (is "?L \<longleftrightarrow> ?R") for x
  proof
    assume ?L
    then obtain j where j: "j < length (slots t')" "entry (slots t' ! j) = Some x" by blast
    show ?R
    proof (cases "j = i")
      case False
      then show ?thesis using j shrink [OF j(1)] same [of j] by metis
    qed (use j i(2) in simp)
  next
    assume ?R
    then show ?L
    proof
      assume "\<exists>j < length (slots t). entry (slots t ! j) = Some x"
      then obtain j where j: "j < length (slots t)" "entry (slots t ! j) = Some x" by blast
      then have "j \<noteq> i" using i(3) by (auto simp: live_def)
      then show ?L using j same [of j] grow by (intro exI [of _ j]) simp
    qed (use i in blast)
  qed
  then show ?thesis by (auto simp: set_table_handles)
qed

lemma table_handles_remove:
  assumes "HandleTable_inv t" "HandleTable_get t v = Inr h"
  shows "set (table_handles t) = insert h (set (table_handles (snd (HandleTable_remove t v))))"
  using assms
proof (rule remove_ok)
  fix i g t'
  assume r: "HandleTable_remove t v = (Inr h, t')" and i: "i < length (slots t)" "entry (slots t ! i) = Some h"
    and t': "t' = t\<lparr>slots := (slots t)[i := \<lparr>generation = g + 1, entry = None\<rparr>],
        free := i # free t, count := count t - 1\<rparr>"
  have "(\<exists>j < length (slots t). entry (slots t ! j) = Some x) \<longleftrightarrow>
      x = h \<or> (\<exists>j < length (slots t'). entry (slots t' ! j) = Some x)" (is "?L \<longleftrightarrow> ?R") for x
  proof
    assume ?L
    then obtain j where j: "j < length (slots t)" "entry (slots t ! j) = Some x" by blast
    show ?R
    proof (cases "j = i")
      case False
      then show ?thesis using j by (intro disjI2 exI [of _ j]) (simp add: t')
    qed (use j i(2) in simp)
  next
    assume ?R
    then show ?L
    proof
      assume "\<exists>j < length (slots t'). entry (slots t' ! j) = Some x"
      then obtain j where j: "j < length (slots t')" "entry (slots t' ! j) = Some x" by blast
      then have "j \<noteq> i" using i(1) by (auto simp: t')
      then show ?L using j by (intro exI [of _ j]) (simp add: t')
    qed (use i in blast)
  qed
  then show ?thesis using r by (auto simp: set_table_handles)
qed

lemma table_handles_drain [simp]: "table_handles (snd (HandleTable_drain t)) = []"
  by (simp add: table_handles_def HandleTable_drain_def map_filter_def)

lemma fst_drain: "fst (HandleTable_drain t) = table_handles t"
  by (simp add: table_handles_def HandleTable_drain_def)

lemma table_handles_new [simp]: "table_handles (HandleTable_new s) = []"
  by (simp add: table_handles_def HandleTable_new_def map_filter_def)

end
