(* ===== verification/Channel.thy ===== *)
theory Channel
  imports Objects
begin

unbundle bit_operations_syntax

text \<open>
  Channels (\<open>kernel/core/src/channel.rs\<close>): a pair of endpoints, each with a queue of the messages it
  will read. The arrays of two are functions of the side, 0 or 1. The charge of a message or of a
  channel is the account it is on and its bytes. The locks are not modelled: what the code does
  while it holds a channel's lock is one step.
\<close>

type_synonym held_charge = "nat \<times> u64"

record Message =
  msg_bytes :: "byte list"
  msg_handles :: "Handle list"
  msg_endpoints :: usize
  msg_charge :: "held_charge option"

definition Message_cost :: "usize \<Rightarrow> usize \<Rightarrow> u64" where
  "Message_cost bytes handles = charge_MESSAGE + bytes + handles * charge_MESSAGE_HANDLE"

record Channel =
  ch_queues :: "nat \<Rightarrow> Message list"
  ch_open :: "nat \<Rightarrow> bool"
  ch_ends :: "nat \<Rightarrow> Signaller"
  ch_carried :: "nat \<Rightarrow> usize"
  ch_charge :: held_charge

definition carry :: "Channel \<Rightarrow> nat \<Rightarrow> usize \<Rightarrow> Channel" where
  "carry ch side n = ch\<lparr>ch_carried := (ch_carried ch)(side := wadd (ch_carried ch side) n)\<rparr>"

definition uncarry :: "Channel \<Rightarrow> nat \<Rightarrow> usize \<Rightarrow> Channel" where
  "uncarry ch side n =
     (if n \<noteq> 0 then ch\<lparr>ch_carried := (ch_carried ch)(side := wsub (ch_carried ch side) n)\<rparr> else ch)"

text \<open>The signals of one side, as \<open>refresh\<close> computes them.\<close>

definition ch_signals :: "Channel \<Rightarrow> nat \<Rightarrow> signals" where
  "ch_signals ch side =
     (let peer = 1 - side;
          s1 = (if ch_queues ch side \<noteq> [] then Signals_union S_NONE S_READABLE else S_NONE);
          s2 = (if ch_open ch peer \<and> length (ch_queues ch peer) < CHANNEL_DEPTH
                then Signals_union s1 S_WRITABLE else s1)
      in if \<not> ch_open ch peer then Signals_union s2 S_PEER_CLOSED else s2)"

definition ch_refresh :: "Channel \<Rightarrow> Channel" where
  "ch_refresh ch =
     ch\<lparr>ch_ends := (ch_ends ch)(0 := set_signals (ch_ends ch 0) (ch_signals ch 0),
                                1 := set_signals (ch_ends ch 1) (ch_signals ch 1))\<rparr>"

definition Endpoint_signaller :: "Channel \<Rightarrow> nat \<Rightarrow> Signaller" where
  "Endpoint_signaller ch side = ch_ends ch side"

definition Endpoint_carried :: "Channel \<Rightarrow> nat \<Rightarrow> usize" where
  "Endpoint_carried ch side = ch_carried ch side"

definition Endpoint_peer :: "nat \<Rightarrow> nat" where
  "Endpoint_peer side = 1 - side"

text \<open>
  \<open>Drop for Endpoint\<close>, up to where the lock is let go: the queued messages it hands on to be
  dropped, and the channel.
\<close>

definition Endpoint_drop :: "Channel \<Rightarrow> nat \<Rightarrow> Message list \<times> Channel" where
  "Endpoint_drop ch side =
     (let ch1 = ch\<lparr>ch_open := (ch_open ch)(side := False)\<rparr>;
          queued = ch_queues ch1 side;
          ch2 = ch1\<lparr>ch_queues := (ch_queues ch1)(side := [])\<rparr>;
          endpoints = sum_list (map msg_endpoints queued)
      in (queued, ch_refresh (uncarry ch2 side endpoints)))"

definition channel_new :: "held_charge \<Rightarrow> Channel" where
  "channel_new c =
     \<lparr>ch_queues = (\<lambda>_. []), ch_open = (\<lambda>_. True), ch_ends = (\<lambda>_. Signaller_new S_WRITABLE),
      ch_carried = (\<lambda>_. 0), ch_charge = c\<rparr>"

text \<open>The queueing of a message, and the taking of the front one (\<open>channel_write\<close>, \<open>channel_read\<close>).\<close>

definition ch_push :: "Channel \<Rightarrow> nat \<Rightarrow> Message \<Rightarrow> Channel" where
  "ch_push ch side m = ch_refresh (ch\<lparr>ch_queues := (ch_queues ch)(side := ch_queues ch side @ [m])\<rparr>)"

definition ch_pop :: "Channel \<Rightarrow> nat \<Rightarrow> Channel" where
  "ch_pop ch side =
     (case ch_queues ch side of
        [] \<Rightarrow> ch_refresh ch
      | m # rest \<Rightarrow>
          ch_refresh (uncarry (ch\<lparr>ch_queues := (ch_queues ch)(side := rest)\<rparr>) side (msg_endpoints m)))"

subsection \<open>A channel's own invariant\<close>

text \<open>
  Its queues are bounded, a closed end has none, the counters of carried endpoints are what the
  queues hold, and each end's signals say what the state is.
\<close>

definition message_ok :: "Message \<Rightarrow> bool" where
  "message_ok m \<longleftrightarrow> msg_endpoints m = length (handle_eps (msg_handles m)) \<and>
     length (msg_handles m) \<le> CHANNEL_MAX_HANDLES"

definition side_ok :: "Channel \<Rightarrow> nat \<Rightarrow> bool" where
  "side_ok ch s \<longleftrightarrow>
     length (ch_queues ch s) \<le> CHANNEL_DEPTH \<and> (\<forall>m \<in> set (ch_queues ch s). message_ok m) \<and>
     ch_carried ch s = sum_list (map msg_endpoints (ch_queues ch s)) \<and>
     (\<not> ch_open ch s \<longrightarrow> ch_queues ch s = [])"

definition chan_ok :: "Channel \<Rightarrow> bool" where
  "chan_ok ch \<longleftrightarrow> side_ok ch 0 \<and> side_ok ch 1 \<and>
     bits (ch_ends ch 0) = ch_signals ch 0 \<and> bits (ch_ends ch 1) = ch_signals ch 1"

definition queue_handles :: "Channel \<Rightarrow> nat \<Rightarrow> Handle list" where
  "queue_handles ch s = concat (map msg_handles (ch_queues ch s))"

lemma known_ch_signals [simp]: "known_bits (ch_signals ch s)"
  by (simp add: ch_signals_def Let_def)

lemma ch_refresh_fields [simp]:
  "ch_queues (ch_refresh ch) = ch_queues ch" "ch_open (ch_refresh ch) = ch_open ch"
  "ch_carried (ch_refresh ch) = ch_carried ch" "ch_charge (ch_refresh ch) = ch_charge ch"
  "ch_signals (ch_refresh ch) s = ch_signals ch s"
  by (simp_all add: ch_refresh_def ch_signals_def)

lemma uncarry_fields [simp]:
  "ch_queues (uncarry ch s n) = ch_queues ch" "ch_open (uncarry ch s n) = ch_open ch"
  "ch_ends (uncarry ch s n) = ch_ends ch" "ch_charge (uncarry ch s n) = ch_charge ch"
  by (simp_all add: uncarry_def)

lemma carry_fields [simp]:
  "ch_queues (carry ch s n) = ch_queues ch" "ch_open (carry ch s n) = ch_open ch"
  "ch_ends (carry ch s n) = ch_ends ch" "ch_charge (carry ch s n) = ch_charge ch"
  by (simp_all add: carry_def)

lemma queue_handles_refresh [simp]: "queue_handles (ch_refresh ch) s = queue_handles ch s"
  by (simp add: queue_handles_def)

lemma chan_ok_refresh:
  assumes "side_ok ch 0" "side_ok ch 1" "known_bits (bits (ch_ends ch 0))" "known_bits (bits (ch_ends ch 1))"
  shows "chan_ok (ch_refresh ch)"
  using assms by (simp add: chan_ok_def side_ok_def) (simp add: ch_refresh_def)

lemma chan_ok_known: "chan_ok ch \<Longrightarrow> known_bits (bits (ch_ends ch 0)) \<and> known_bits (bits (ch_ends ch 1))"
  by (simp add: chan_ok_def)

lemma chan_ok_side: "chan_ok ch \<Longrightarrow> s < 2 \<Longrightarrow> side_ok ch s"
  by (cases s) (auto simp: chan_ok_def less_Suc_eq numeral_2_eq_2)

text \<open>No counter wraps: a queue holds at most 64 messages of at most 64 handles.\<close>

lemma length_handle_eps: "length (handle_eps hs) \<le> length hs"
  by (simp add: handle_eps_def map_filter_def)

lemma endpoints_bound:
  "\<forall>m \<in> set ms. message_ok m \<Longrightarrow> sum_list (map msg_endpoints ms) \<le> length ms * 64"
proof (induction ms)
  case (Cons m ms)
  then have "msg_endpoints m \<le> 64"
    using length_handle_eps [of "msg_handles m"] by (simp add: message_ok_def CHANNEL_MAX_HANDLES_def)
  then show ?case using Cons by simp
qed simp

lemma side_ok_carried:
  assumes "side_ok ch s"
  shows "ch_carried ch s \<le> 4096"
proof -
  have "ch_carried ch s \<le> length (ch_queues ch s) * 64"
    using endpoints_bound [of "ch_queues ch s"] assms by (simp add: side_ok_def)
  also have "\<dots> \<le> 64 * 64" using assms by (simp add: side_ok_def CHANNEL_DEPTH_def)
  finally show ?thesis by simp
qed

lemma carried_none:
  assumes "side_ok ch s"
  shows "ch_carried ch s = 0 \<longleftrightarrow> handle_eps (queue_handles ch s) = []"
proof -
  have "\<forall>m \<in> set ms. message_ok m \<Longrightarrow>
      sum_list (map msg_endpoints ms) = length (handle_eps (concat (map msg_handles ms)))" for ms
    by (induction ms) (simp_all add: message_ok_def)
  then have "ch_carried ch s = length (handle_eps (queue_handles ch s))"
    using assms by (simp add: side_ok_def queue_handles_def)
  then show ?thesis by simp
qed

subsection \<open>Its operations\<close>

lemma side_cases: "(s::nat) < 2 \<Longrightarrow> s = 0 \<or> s = 1"
  by auto

lemma side_ok_cong:
  "ch_queues ch' s = ch_queues ch s \<Longrightarrow> ch_carried ch' s = ch_carried ch s \<Longrightarrow>
    ch_open ch' s = ch_open ch s \<Longrightarrow> side_ok ch' s = side_ok ch s"
  by (simp add: side_ok_def)

lemma chan_ok_change:
  assumes "chan_ok ch" "s < 2" "side_ok ch' s" "ch_ends ch' = ch_ends ch"
    and "\<And>t. t \<noteq> s \<Longrightarrow> ch_queues ch' t = ch_queues ch t \<and> ch_carried ch' t = ch_carried ch t \<and> ch_open ch' t = ch_open ch t"
  shows "chan_ok (ch_refresh ch')"
proof (rule chan_ok_refresh)
  have "side_ok ch' t" if "t < 2" for t
    using assms(3,5) chan_ok_side [OF assms(1) that] side_ok_cong [of ch' t ch] by (cases "t = s") auto
  then show "side_ok ch' 0" "side_ok ch' 1" by simp_all
qed (use chan_ok_known [OF assms(1)] assms(4) in simp_all)

lemma channel_new_ok: "chan_ok (channel_new c)"
  by (simp add: chan_ok_def side_ok_def channel_new_def Signaller_new_def ch_signals_def CHANNEL_DEPTH_def
      Signals_union_def S_NONE_def)

lemma Endpoint_drop_ok:
  assumes ok: "chan_ok ch" and s: "s < 2"
  shows "chan_ok (snd (Endpoint_drop ch s))"
proof -
  have side: "side_ok ch s" using chan_ok_side [OF ok s] .
  have "wsub (ch_carried ch s) (sum_list (map msg_endpoints (ch_queues ch s))) = 0"
    using side side_ok_carried [OF side] by (simp add: side_ok_def wsub_exact U64_def)
  then show ?thesis
    unfolding Endpoint_drop_def Let_def snd_conv using side
    by (intro chan_ok_change [OF ok s]) (auto simp: side_ok_def uncarry_def)
qed

lemma ch_push_ok:
  assumes ok: "chan_ok ch" and s: "s < 2" and m: "message_ok m" and o: "ch_open ch s"
    and room: "length (ch_queues ch s) < CHANNEL_DEPTH"
  shows "chan_ok (ch_push (if msg_endpoints m = 0 then ch else carry ch s (msg_endpoints m)) s m)"
proof -
  have side: "side_ok ch s" using chan_ok_side [OF ok s] .
  have "msg_endpoints m \<le> 64"
    using m length_handle_eps [of "msg_handles m"] by (simp add: message_ok_def CHANNEL_MAX_HANDLES_def)
  then have "wadd (ch_carried ch s) (msg_endpoints m) = ch_carried ch s + msg_endpoints m"
    using side_ok_carried [OF side] by (simp add: wadd_exact U64_def)
  then show ?thesis
    unfolding ch_push_def using side m o room
    by (intro chan_ok_change [OF ok s]) (auto simp: side_ok_def carry_def)
qed

lemma ch_pop_ok:
  assumes ok: "chan_ok ch" and s: "s < 2"
  shows "chan_ok (ch_pop ch s)"
proof (cases "ch_queues ch s")
  case Nil
  then show ?thesis using ok chan_ok_known [OF ok] by (simp add: ch_pop_def chan_ok_refresh chan_ok_side)
next
  case (Cons m rest)
  have side: "side_ok ch s" using chan_ok_side [OF ok s] .
  have "wsub (ch_carried ch s) (msg_endpoints m) = sum_list (map msg_endpoints rest)"
    using side side_ok_carried [OF side] Cons by (simp add: side_ok_def wsub_exact U64_def)
  moreover have "ch_pop ch s = ch_refresh (uncarry (ch\<lparr>ch_queues := (ch_queues ch)(s := rest)\<rparr>) s (msg_endpoints m))"
    using Cons by (simp add: ch_pop_def)
  moreover have "chan_ok \<dots>"
    using calculation(1) side Cons
    by (intro chan_ok_change [OF ok s]) (auto simp: side_ok_def uncarry_def)
  ultimately show ?thesis by simp
qed

lemma queue_handles_changed [simp]:
  "queue_handles (snd (Endpoint_drop ch s)) t = (if t = s then [] else queue_handles ch t)"
  "queue_handles (ch_push ch s m) t = (if t = s then queue_handles ch s @ msg_handles m else queue_handles ch t)"
  "ch_open (snd (Endpoint_drop ch s)) t = (if t = s then False else ch_open ch t)"
  "ch_open (ch_push ch s m) = ch_open ch" "ch_open (ch_pop ch s) = ch_open ch"
  "queue_handles (carry ch s n) t = queue_handles ch t"
  by (auto simp: queue_handles_def Endpoint_drop_def ch_push_def ch_pop_def Let_def split: list.split)

lemma queue_handles_pop:
  "ch_queues ch s = m # rest \<Longrightarrow>
    queue_handles ch t = (if t = s then msg_handles m @ queue_handles (ch_pop ch s) s else queue_handles (ch_pop ch s) t)"
  by (simp add: queue_handles_def ch_pop_def)

end
