(* ===== verification/Kernel.thy ===== *)
theory Kernel
  imports Channel
begin

text \<open>
  The state the handle and channel calls work on: the processes with their handle tables
  (\<open>kernel/core/src/process.rs\<close>), the channels and the accounts, each known by its number, and the
  dropping of handles. A handle is dropped by Rust when its last owner lets it go; an endpoint is
  closed when no handle to it is left in a table, in a queued message or among what is still to be
  dropped, which is when the count of its \<open>Arc\<close> falls to zero. Dropping a handle to any other
  object changes nothing here: those objects' own drops are not part of this state.
\<close>

datatype Exit = Exit_Code int | Exit_Fault string | Exit_Killed

datatype Life = Life_Created "u64 option" | Life_Running usize | Life_Ended

record Process =
  p_handles :: "Handle HandleTable"
  p_account :: nat
  p_table_charge :: u64
  p_life :: Life
  p_exit :: "Exit option"
  p_granted :: bool

fun life_created :: "Life \<Rightarrow> bool" where
  "life_created (Life_Created _) = True"
| "life_created _ = False"

definition is_created :: "Process \<Rightarrow> bool" where
  "is_created p \<longleftrightarrow> life_created (p_life p)"

definition ready_to_start :: "Process \<Rightarrow> bool" where
  "ready_to_start p \<longleftrightarrow> (case p_life p of Life_Created (Some _) \<Rightarrow> True | _ \<Rightarrow> False)"

record Kernel =
  k_procs :: "Process list"
  k_chans :: "Channel list"
  k_accounts :: "nat \<Rightarrow> Ledger"

subsection \<open>Charges\<close>

definition charge_new :: "Kernel \<Rightarrow> nat \<Rightarrow> u64 \<Rightarrow> unit res \<times> Kernel" where
  "charge_new k a bytes =
     (case ledger_charge (k_accounts k a) bytes of
        (r, l) \<Rightarrow> (r, k\<lparr>k_accounts := (k_accounts k)(a := l)\<rparr>))"

definition charge_drop :: "Kernel \<Rightarrow> held_charge \<Rightarrow> Kernel" where
  "charge_drop k c =
     (case c of (a, bytes) \<Rightarrow>
        k\<lparr>k_accounts := (k_accounts k)(a := snd (ledger_uncharge (k_accounts k a) bytes))\<rparr>)"

subsection \<open>Dropping handles\<close>

datatype drop_item = DropHandle Handle | DropCharge held_charge

definition message_items :: "Message \<Rightarrow> drop_item list" where
  "message_items m =
     map DropHandle (msg_handles m) @ (case msg_charge m of None \<Rightarrow> [] | Some c \<Rightarrow> [DropCharge c])"

fun item_handles :: "drop_item list \<Rightarrow> Handle list" where
  "item_handles [] = []"
| "item_handles (DropHandle h # ws) = h # item_handles ws"
| "item_handles (DropCharge c # ws) = item_handles ws"

definition kernel_handles :: "Kernel \<Rightarrow> Handle list" where
  "kernel_handles k =
     concat (map (\<lambda>p. table_handles (p_handles p)) (k_procs k)) @
     concat (map (\<lambda>ch. queue_handles ch 0 @ queue_handles ch 1) (k_chans k))"

definition endpoint_held :: "Kernel \<Rightarrow> drop_item list \<Rightarrow> Endpoint \<Rightarrow> bool" where
  "endpoint_held k ws e \<longleftrightarrow> e \<in> set (handle_eps (kernel_handles k @ item_handles ws))"

definition chan_weight :: "Channel \<Rightarrow> nat" where
  "chan_weight ch =
     (if ch_open ch 0 then 2 else 0) + (if ch_open ch 1 then 2 else 0) +
     length (concat (map message_items (ch_queues ch 0))) + length (concat (map message_items (ch_queues ch 1)))"

text \<open>What is left when an endpoint's \<open>Drop\<close> has run: its messages, and the channel with its charge
  once the other end is gone too.\<close>

definition closed_items :: "Message list \<Rightarrow> Channel \<Rightarrow> nat \<Rightarrow> drop_item list" where
  "closed_items queued ch side =
     concat (map message_items queued) @ (if ch_open ch (Endpoint_peer side) then [] else [DropCharge (ch_charge ch)])"

lemma Endpoint_drop_weight:
  assumes "ch_open ch s" "s < 2" "Endpoint_drop ch s = (queued, ch')"
  shows "length (closed_items queued ch' s) + chan_weight ch' < chan_weight ch"
  using side_cases [OF assms(2)] assms
  by (elim disjE)
    (auto simp: Endpoint_drop_def Let_def closed_items_def chan_weight_def Endpoint_peer_def)

lemma sum_list_update_less:
  fixes f :: "'a \<Rightarrow> nat"
  assumes "c < length xs" "n + f y < f (xs ! c)"
  shows "n + sum_list (map f (xs[c := y])) < sum_list (map f xs)"
  using assms
proof (induction xs arbitrary: c)
  case (Cons x xs)
  show ?case
  proof (cases c)
    case (Suc d)
    then show ?thesis using Cons.IH [of d] Cons.prems by simp
  qed (use Cons.prems in simp)
qed simp

function drop_items :: "drop_item list \<Rightarrow> Kernel \<Rightarrow> Kernel" where
  "drop_items [] k = k"
| "drop_items (DropCharge c # ws) k = drop_items ws (charge_drop k c)"
| "drop_items (DropHandle h # ws) k =
     (case handle_ep h of
        None \<Rightarrow> drop_items ws k
      | Some (c, s) \<Rightarrow>
          if endpoint_held k ws (c, s) \<or> \<not> (c < length (k_chans k) \<and> s < 2 \<and> ch_open (k_chans k ! c) s)
          then drop_items ws k
          else case Endpoint_drop (k_chans k ! c) s of
            (queued, ch) \<Rightarrow> drop_items (closed_items queued ch s @ ws) (k\<lparr>k_chans := (k_chans k)[c := ch]\<rparr>))"
  by pat_completeness auto
termination
proof (relation "measure (\<lambda>(ws, k). length ws + sum_list (map chan_weight (k_chans k)))", goal_cases)
  case (5 h ws k x c s queued ch)
  then have "length (closed_items queued ch s) + chan_weight ch < chan_weight (k_chans k ! c)"
    by (intro Endpoint_drop_weight) auto
  then have "length (closed_items queued ch s) + sum_list (map chan_weight ((k_chans k)[c := ch]))
      < sum_list (map chan_weight (k_chans k))"
    using 5 by (intro sum_list_update_less) auto
  then show ?case by simp
qed (auto simp: charge_drop_def split: prod.split)

subsection \<open>A process's table\<close>

definition set_proc :: "Kernel \<Rightarrow> nat \<Rightarrow> Process \<Rightarrow> Kernel" where
  "set_proc k pid p = k\<lparr>k_procs := (k_procs k)[pid := p]\<rparr>"

definition set_table :: "Kernel \<Rightarrow> nat \<Rightarrow> Handle HandleTable \<Rightarrow> Kernel" where
  "set_table k pid t = set_proc k pid ((k_procs k ! pid)\<lparr>p_handles := t\<rparr>)"

definition table_of :: "Kernel \<Rightarrow> nat \<Rightarrow> Handle HandleTable" where
  "table_of k pid = p_handles (k_procs k ! pid)"

text \<open>\<open>Process::insert_into\<close>; \<open>reserve_ok\<close> is whether the vector of slots could grow.\<close>

definition insert_into :: "bool \<Rightarrow> Kernel \<Rightarrow> nat \<Rightarrow> Handle \<Rightarrow> ((error \<times> Handle) + RawHandle) \<times> Kernel" where
  "insert_into reserve_ok k pid handle =
     (let p = k_procs k ! pid; t = p_handles p;
          put = (\<lambda>k. case insert_or_return reserve_ok t handle of (r, t') \<Rightarrow> (r, set_table k pid t'))
      in if HandleTable_grows t then
           let step = wmul charge_HANDLE_SLOTS charge_HANDLE_SLOT;
               need = wmul (table_steps (HandleTable_slots t + 1)) step;
               have' = p_table_charge p
           in if need > have' then
                (case charge_new k (p_account p) (need - have') of
                   (Inl e, k1) \<Rightarrow> (Inl (e, handle), k1)
                 | (Inr _, k1) \<Rightarrow> put (set_proc k1 pid (p\<lparr>p_table_charge := wadd have' (need - have')\<rparr>)))
              else put k
         else put k)"

text \<open>\<open>Process::insert\<close>: a handle refused is dropped.\<close>

definition process_insert :: "bool \<Rightarrow> Kernel \<Rightarrow> nat \<Rightarrow> Handle \<Rightarrow> RawHandle res \<times> Kernel" where
  "process_insert reserve_ok k pid handle =
     (case insert_into reserve_ok k pid handle of
        (Inl (e, refused), k1) \<Rightarrow> (Inl e, drop_items [DropHandle refused] k1)
      | (Inr v, k1) \<Rightarrow> (Inr v, k1))"

text \<open>The end of a process, as far as its handles go (\<open>terminate\<close>).\<close>

definition drain_handles :: "Kernel \<Rightarrow> nat \<Rightarrow> Kernel" where
  "drain_handles k pid =
     (case HandleTable_drain (table_of k pid) of
        (hs, t) \<Rightarrow> drop_items (map DropHandle hs) (set_table k pid t))"

subsection \<open>The invariant\<close>

text \<open>
  The endpoints that are open are those some handle names, be it in a table, in a queued message or
  about to be dropped (\<open>ws\<close>); and an endpoint that a message queued towards another one carries
  never leads back to that one.
\<close>

definition open_eps :: "Kernel \<Rightarrow> Endpoint set" where
  "open_eps k = {(c, s). c < length (k_chans k) \<and> s < 2 \<and> ch_open (k_chans k ! c) s}"

definition edges :: "Kernel \<Rightarrow> (Endpoint \<times> Endpoint) set" where
  "edges k = {((c, s), e). c < length (k_chans k) \<and> s < 2 \<and> e \<in> set (handle_eps (queue_handles (k_chans k ! c) s))}"

definition table_eps :: "Kernel \<Rightarrow> Endpoint set" where
  "table_eps k = (\<Union>p \<in> set (k_procs k). set (handle_eps (table_handles (p_handles p))))"

definition refs :: "Kernel \<Rightarrow> drop_item list \<Rightarrow> Endpoint set" where
  "refs k ws = table_eps k \<union> Range (edges k) \<union> set (handle_eps (item_handles ws))"

definition kinv :: "Kernel \<Rightarrow> drop_item list \<Rightarrow> bool" where
  "kinv k ws \<longleftrightarrow>
     (\<forall>p \<in> set (k_procs k). HandleTable_inv (p_handles p)) \<and> (\<forall>ch \<in> set (k_chans k). chan_ok ch) \<and>
     refs k ws = open_eps k \<and> acyclic (edges k)"

lemma set_eps_concat: "set (handle_eps (concat hss)) = (\<Union>hs \<in> set hss. set (handle_eps hs))"
  by (induction hss) simp_all

lemma Range_edges: "Range (edges k) = (\<Union>ch \<in> set (k_chans k). set (handle_eps (queue_handles ch 0 @ queue_handles ch 1)))"
  (is "?L = ?R")
proof (intro equalityI subsetI)
  fix e assume "e \<in> ?L"
  then obtain c s where c: "c < length (k_chans k)" "s < 2" "e \<in> set (handle_eps (queue_handles (k_chans k ! c) s))"
    by (auto simp: edges_def)
  then show "e \<in> ?R" using side_cases [OF c(2)] by (auto intro!: bexI [of _ "k_chans k ! c"])
next
  fix e assume "e \<in> ?R"
  then obtain ch where "ch \<in> set (k_chans k)"
      "e \<in> set (handle_eps (queue_handles ch 0)) \<or> e \<in> set (handle_eps (queue_handles ch 1))"
    by auto
  moreover from this(1) obtain c where "c < length (k_chans k)" "k_chans k ! c = ch"
    by (auto simp: in_set_conv_nth)
  ultimately have c: "c < length (k_chans k)"
      "e \<in> set (handle_eps (queue_handles (k_chans k ! c) 0)) \<or> e \<in> set (handle_eps (queue_handles (k_chans k ! c) 1))"
    by auto
  then obtain s where "s < 2" "e \<in> set (handle_eps (queue_handles (k_chans k ! c) s))"
    using that [of 0] that [of 1] by auto
  then have "((c, s), e) \<in> edges k" using c(1) by (simp add: edges_def)
  then show "e \<in> ?L" by blast
qed

lemma endpoint_held_refs: "endpoint_held k ws e \<longleftrightarrow> e \<in> refs k ws"
  by (simp add: endpoint_held_def kernel_handles_def refs_def set_eps_concat Range_edges table_eps_def)

subsection \<open>Dropping keeps it\<close>

lemma item_handles_append [simp]: "item_handles (xs @ ys) = item_handles xs @ item_handles ys"
  by (induction xs rule: item_handles.induct) simp_all

lemma item_handles_map [simp]: "item_handles (map DropHandle hs) = hs"
  by (induction hs) simp_all

lemma item_handles_message [simp]: "item_handles (message_items m) = msg_handles m"
  by (simp add: message_items_def split: option.split)

lemma item_handles_closed [simp]: "item_handles (closed_items queued ch s) = concat (map msg_handles queued)"
  by (induction queued) (simp_all add: closed_items_def)

lemma charge_drop_fields [simp]:
  "k_procs (charge_drop k c) = k_procs k" "k_chans (charge_drop k c) = k_chans k"
  by (simp_all add: charge_drop_def split: prod.split)

lemma charge_new_fields:
  "charge_new k a n = (r, k') \<Longrightarrow> k_procs k' = k_procs k \<and> k_chans k' = k_chans k"
  by (auto simp: charge_new_def split: prod.splits)

lemma kernel_cong:
  assumes "k_procs k' = k_procs k" "k_chans k' = k_chans k"
  shows "refs k' ws = refs k ws" "open_eps k' = open_eps k" "edges k' = edges k" "table_eps k' = table_eps k"
    "kinv k' ws = kinv k ws"
  using assms by (simp_all add: refs_def open_eps_def edges_def table_eps_def kinv_def)

lemma kinv_charge_drop [simp]: "kinv (charge_drop k c) ws = kinv k ws"
  by (rule kernel_cong) simp_all

lemma kinvD:
  assumes "kinv k ws"
  shows "p \<in> set (k_procs k) \<Longrightarrow> HandleTable_inv (p_handles p)"
    "ch \<in> set (k_chans k) \<Longrightarrow> chan_ok ch" "refs k ws = open_eps k" "acyclic (edges k)"
  using assms by (simp_all add: kinv_def)

lemma edges_drop:
  assumes "c < length (k_chans k)" "s < 2" "Endpoint_drop (k_chans k ! c) s = (queued, ch)"
  shows "edges k = edges (k\<lparr>k_chans := (k_chans k)[c := ch]\<rparr>) \<union>
    {(c, s)} \<times> set (handle_eps (queue_handles (k_chans k ! c) s))"
proof -
  have q: "queue_handles ch t = (if t = s then [] else queue_handles (k_chans k ! c) t)" for t
    using queue_handles_changed(1) [of "k_chans k ! c" s t] assms(3) by simp
  show ?thesis
    using assms(1,2) by (auto simp: edges_def nth_list_update q split: if_splits)
qed

lemma open_eps_drop:
  assumes "c < length (k_chans k)" "s < 2" "Endpoint_drop (k_chans k ! c) s = (queued, ch)"
  shows "open_eps (k\<lparr>k_chans := (k_chans k)[c := ch]\<rparr>) = open_eps k - {(c, s)}"
proof -
  have q: "ch_open ch t = (if t = s then False else ch_open (k_chans k ! c) t)" for t
    using queue_handles_changed(3) [of "k_chans k ! c" s t] assms(3) by simp
  show ?thesis
    using assms(1,2) by (auto simp: open_eps_def nth_list_update q split: if_splits)
qed

lemma close_inv:
  assumes inv: "kinv k (DropHandle h # ws)" and h: "handle_ep h = Some (c, s)"
    and held: "\<not> endpoint_held k ws (c, s)"
    and c: "c < length (k_chans k)" "s < 2" and d: "Endpoint_drop (k_chans k ! c) s = (queued, ch)"
  shows "kinv (k\<lparr>k_chans := (k_chans k)[c := ch]\<rparr>) (closed_items queued ch s @ ws)"
proof -
  let ?k = "k\<lparr>k_chans := (k_chans k)[c := ch]\<rparr>" and ?q = "handle_eps (queue_handles (k_chans k ! c) s)"
  have "queued = ch_queues (k_chans k ! c) s" using d by (auto simp: Endpoint_drop_def Let_def)
  then have ws: "handle_eps (item_handles (closed_items queued ch s @ ws)) = ?q @ handle_eps (item_handles ws)"
    by (simp add: queue_handles_def)
  have "refs k (DropHandle h # ws) = insert (c, s) (refs k ws)" using h by (simp add: refs_def)
  moreover have "(c, s) \<notin> refs k ws" using held by (simp add: endpoint_held_refs)
  moreover have "refs ?k (closed_items queued ch s @ ws) = refs k ws"
  proof -
    have "Range (edges k) = Range (edges ?k) \<union> set ?q" using edges_drop [OF c d] by auto
    moreover have "table_eps ?k = table_eps k" by (simp add: table_eps_def)
    ultimately show ?thesis unfolding refs_def ws by auto
  qed
  ultimately have "refs ?k (closed_items queued ch s @ ws) = open_eps ?k"
    using kinvD(3) [OF inv] open_eps_drop [OF c d] by simp
  moreover have "acyclic (edges ?k)"
    by (rule acyclic_subset [OF kinvD(4) [OF inv]]) (use edges_drop [OF c d] in blast)
  moreover have "chan_ok ch"
    using Endpoint_drop_ok [OF kinvD(2) [OF inv nth_mem [OF c(1)]] c(2)] d by simp
  then have "\<forall>ch' \<in> set ((k_chans k)[c := ch]). chan_ok ch'"
    using kinvD(2) [OF inv] set_update_subset_insert [of "k_chans k" c ch] by auto
  ultimately show ?thesis using kinvD(1) [OF inv] by (simp add: kinv_def)
qed

lemma skip_inv:
  assumes inv: "kinv k (DropHandle h # ws)" and h: "\<And>e. handle_ep h = Some e \<Longrightarrow> endpoint_held k ws e"
  shows "kinv k ws"
proof -
  have "refs k (DropHandle h # ws) = refs k ws"
  proof (cases "handle_ep h")
    case (Some e)
    then have "e \<in> refs k ws" using h by (simp add: endpoint_held_refs)
    then show ?thesis using Some by (auto simp: refs_def)
  qed (simp add: refs_def)
  then show ?thesis using inv by (simp add: kinv_def)
qed

lemma dropped_open:
  assumes "kinv k (DropHandle h # ws)" "handle_ep h = Some (c, s)"
  shows "c < length (k_chans k) \<and> s < 2 \<and> ch_open (k_chans k ! c) s"
proof -
  have "(c, s) \<in> refs k (DropHandle h # ws)" using assms(2) by (simp add: refs_def)
  then show ?thesis using kinvD(3) [OF assms(1)] by (simp add: open_eps_def)
qed

lemma drop_items_inv: "kinv k ws \<Longrightarrow> kinv (drop_items ws k) []"
proof (induction ws k rule: drop_items.induct)
  case (2 c ws k)
  have "kinv k ws" using 2(2) by (simp add: kinv_def refs_def)
  then show ?case using 2(1) by simp
next
  case (3 h ws k)
  show ?case
  proof (cases "handle_ep h")
    case None
    then have "kinv k ws" using skip_inv [OF 3(4)] by simp
    then show ?thesis using 3(1) None by simp
  next
    case (Some e)
    obtain c s where e: "e = (c, s)" by (cases e)
    have o: "c < length (k_chans k)" "s < 2" "ch_open (k_chans k ! c) s"
      using dropped_open [OF 3(4)] Some e by simp_all
    show ?thesis
    proof (cases "endpoint_held k ws (c, s)")
      case True
      then have "kinv k ws" using skip_inv [OF 3(4)] Some e by simp
      then show ?thesis using 3(2) [OF Some e [symmetric]] True Some e by simp
    next
      case False
      obtain queued ch where d: "Endpoint_drop (k_chans k ! c) s = (queued, ch)" by (cases "Endpoint_drop (k_chans k ! c) s")
      have "kinv (k\<lparr>k_chans := (k_chans k)[c := ch]\<rparr>) (closed_items queued ch s @ ws)"
        using close_inv [OF 3(4) _ False o(1,2) d] Some e by simp
      then show ?thesis using 3(3) [OF Some e [symmetric] _ d [symmetric]] False o d Some e by simp
    qed
  qed
qed simp

lemma drop_items_procs [simp]: "k_procs (drop_items ws k) = k_procs k"
  by (induction ws k rule: drop_items.induct) (auto split: option.splits prod.splits if_splits)

declare drop_items.simps(3) [simp del]

end
