(* ===== verification/Calls.thy ===== *)
theory Calls
  imports Kernel
begin

unbundle bit_operations_syntax

text \<open>
  The calls on handles, channels, resources and a new process's handles
  (\<open>kernel/core/src/syscall.rs\<close>), over the state of \<open>Kernel\<close>; \<open>pid\<close> is the calling process.
  Copies between the kernel and the caller's memory are OSTD's (\<open>usercopy.rs\<close> goes through its
  readers and writers): \<open>rd ptr len\<close> and \<open>wr ptr bytes\<close> are what such a copy gives. Whether
  memory is had for a vector to grow is an argument too.
\<close>

text \<open>\<open>Ret\<close>: the two result registers, or the error with what \<open>rdx\<close> carries.\<close>

type_synonym ret = "(error \<times> u64) + (u64 \<times> u64)"

definition fail :: "error \<Rightarrow> ret" where
  "fail e = Inl (e, 0)"

definition one :: "u64 \<Rightarrow> ret" where
  "one v = Inr (v, 0)"

subsection \<open>Looking handles up\<close>

definition raw :: "u64 \<Rightarrow> RawHandle res" where
  "raw v = (if v < 2 ^ 32 then Inr (of_nat v) else Inl BadHandle)"

definition lookup :: "Kernel \<Rightarrow> nat \<Rightarrow> u64 \<Rightarrow> rights \<Rightarrow> Handle res" where
  "lookup k pid v rights =
     andthen (raw v) (\<lambda>r. andthen (HandleTable_get (table_of k pid) r) (\<lambda>handle.
       if \<not> Rights_contains (h_rights handle) rights then Inl AccessDenied else Inr handle))"

definition call_insert :: "bool \<Rightarrow> Kernel \<Rightarrow> nat \<Rightarrow> Object \<Rightarrow> ret \<times> Kernel" where
  "call_insert reserve_ok k pid obj =
     (case process_insert reserve_ok k pid (Handle_new obj) of
        (Inl e, k1) \<Rightarrow> (fail e, k1)
      | (Inr v, k1) \<Rightarrow> (one (unat v), k1))"

definition as_channel :: "Handle \<Rightarrow> Endpoint res" where
  "as_channel h = (case h_object h of Obj_Channel e \<Rightarrow> Inr e | _ \<Rightarrow> Inl WrongType)"

definition as_process :: "Handle \<Rightarrow> nat res" where
  "as_process h = (case h_object h of Obj_Process p \<Rightarrow> Inr p | _ \<Rightarrow> Inl WrongType)"

definition as_memory :: "Handle \<Rightarrow> MemoryObject res" where
  "as_memory h = (case h_object h of Obj_Memory m \<Rightarrow> Inr m | _ \<Rightarrow> Inl WrongType)"

definition as_resource :: "ResourceKind \<Rightarrow> Handle \<Rightarrow> Resource res" where
  "as_resource kind h =
     (case h_object h of
        Obj_Resource r \<Rightarrow> if res_kind r = kind then Inr r else Inl AccessDenied
      | _ \<Rightarrow> Inl WrongType)"

definition typed :: "Kernel \<Rightarrow> nat \<Rightarrow> u64 \<Rightarrow> rights \<Rightarrow> (Handle \<Rightarrow> 'a res) \<Rightarrow> 'a res" where
  "typed k pid v rights cast =
     andthen (lookup k pid v R_NONE) (\<lambda>handle. andthen (cast handle) (\<lambda>obj.
       if \<not> Rights_contains (h_rights handle) rights then Inl AccessDenied else Inr obj))"

subsection \<open>Handles\<close>

definition handle_close :: "Kernel \<Rightarrow> nat \<Rightarrow> u64 \<Rightarrow> ret \<times> Kernel" where
  "handle_close k pid v =
     (case raw v of
        Inl e \<Rightarrow> (fail e, k)
      | Inr r \<Rightarrow>
          (case HandleTable_remove (table_of k pid) r of
             (Inl e, _) \<Rightarrow> (fail e, k)
           | (Inr handle, t) \<Rightarrow> (one 0, drop_items [DropHandle handle] (set_table k pid t))))"

definition rights_arg :: "u64 \<Rightarrow> rights res" where
  "rights_arg rights =
     (case (if rights < 2 ^ 32 then Rights_from_bits (of_nat rights) else None) of
        None \<Rightarrow> Inl InvalidArgs
      | Some r \<Rightarrow> Inr r)"

definition handle_duplicate :: "bool \<Rightarrow> Kernel \<Rightarrow> nat \<Rightarrow> u64 \<Rightarrow> u64 \<Rightarrow> ret \<times> Kernel" where
  "handle_duplicate reserve_ok k pid v rights =
     (case lookup k pid v R_DUPLICATE of
        Inl e \<Rightarrow> (fail e, k)
      | Inr handle \<Rightarrow>
          (case rights_arg rights of
             Inl e \<Rightarrow> (fail e, k)
           | Inr r \<Rightarrow>
               if \<not> Rights_contains (h_rights handle) r then (fail AccessDenied, k)
               else case process_insert reserve_ok k pid \<lparr>h_object = h_object handle, h_rights = r\<rparr> of
                 (Inl e, k1) \<Rightarrow> (fail e, k1)
               | (Inr new, k1) \<Rightarrow> (one (unat new), k1)))"

definition handle_info :: "Kernel \<Rightarrow> nat \<Rightarrow> u64 \<Rightarrow> ret" where
  "handle_info k pid v =
     (case lookup k pid v R_NONE of
        Inl e \<Rightarrow> fail e
      | Inr handle \<Rightarrow> one (ObjectType_raw (Object_kind (h_object handle)) * 2 ^ 32 + unat (h_rights handle)))"

subsection \<open>Channels\<close>

text \<open>\<open>channel::create\<close>: the channel is made with its charge, both its ends open.\<close>

definition channel_make :: "Kernel \<Rightarrow> nat \<Rightarrow> (Endpoint \<times> Endpoint) res \<times> Kernel" where
  "channel_make k payer =
     (case charge_new k payer charge_CHANNEL of
        (Inl e, k1) \<Rightarrow> (Inl e, k1)
      | (Inr _, k1) \<Rightarrow>
          let c = length (k_chans k1)
          in (Inr ((c, 0), (c, 1)), k1\<lparr>k_chans := k_chans k1 @ [channel_new (payer, charge_CHANNEL)]\<rparr>))"

definition channel_create :: "bool \<Rightarrow> bool \<Rightarrow> Kernel \<Rightarrow> nat \<Rightarrow> ret \<times> Kernel" where
  "channel_create ok1 ok2 k pid =
     (case channel_make k (p_account (k_procs k ! pid)) of
        (Inl e, k1) \<Rightarrow> (fail e, k1)
      | (Inr (a, b), k1) \<Rightarrow>
          let ha = Handle_new (Obj_Channel a); hb = Handle_new (Obj_Channel b)
          in if HandleTable_room (table_of k1 pid) < 2
             then (fail Limit, drop_items [DropHandle hb, DropHandle ha] k1)
             else case insert_into ok1 k1 pid ha of
               (Inl (e, refused), k2) \<Rightarrow> (fail e, drop_items [DropHandle refused, DropHandle hb] k2)
             | (Inr first, k2) \<Rightarrow>
                 (case insert_into ok2 k2 pid hb of
                    (Inr second, k3) \<Rightarrow> (Inr (unat first, unat second), k3)
                  | (Inl (e, refused), k3) \<Rightarrow>
                      (case HandleTable_remove (table_of k3 pid) first of
                         (undone, t) \<Rightarrow>
                           (fail e, drop_items (DropHandle refused #
                              (case undone of Inl _ \<Rightarrow> [] | Inr h \<Rightarrow> [DropHandle h])) (set_table k3 pid t)))))"

definition values_of :: "byte list \<Rightarrow> RawHandle list" where
  "values_of bytes =
     map of_nat (List.map_filter (\<lambda>i. read_u32 bytes (i * 4)) [0..<length bytes div 4])"

text \<open>
  The checks of the handles a message is to carry, in the caller's table: each is there with
  \<open>TRANSFER\<close>, none twice, and none an endpoint of the channel \<open>c\<close> itself. Gives the endpoints among
  them. \<open>mem i\<close> is whether the list of them could grow at the \<open>i\<close>-th handle.
\<close>

fun write_check ::
  "(nat \<Rightarrow> bool) \<Rightarrow> Handle HandleTable \<Rightarrow> nat \<Rightarrow> RawHandle list \<Rightarrow> RawHandle list \<Rightarrow> Endpoint list res"
where
  "write_check mem t c seen [] = Inr []"
| "write_check mem t c seen (v # vs) =
     andthen (HandleTable_get t v) (\<lambda>handle.
       if \<not> Rights_contains (h_rights handle) R_TRANSFER then Inl AccessDenied
       else case handle_ep handle of
         Some e \<Rightarrow>
           if fst e = c then Inl InvalidArgs
           else if \<not> mem (length seen) then Inl NoMemory
           else if v \<in> set seen then Inl InvalidArgs
           else andthen (write_check mem t c (seen @ [v]) vs) (\<lambda>es. Inr (e # es))
       | None \<Rightarrow>
           if v \<in> set seen then Inl InvalidArgs else write_check mem t c (seen @ [v]) vs)"

text \<open>Handles taken out of a table, one after the other, up to the first that is not there.\<close>

fun take_all :: "'a HandleTable \<Rightarrow> RawHandle list \<Rightarrow> error option \<times> 'a list \<times> 'a HandleTable" where
  "take_all t [] = (None, [], t)"
| "take_all t (v # vs) =
     (case HandleTable_remove t v of
        (Inl e, t1) \<Rightarrow> (Some e, [], t1)
      | (Inr h, t1) \<Rightarrow> (case take_all t1 vs of (r, hs, t2) \<Rightarrow> (r, h # hs, t2)))"

text \<open>\<open>channel_write\<close> from where the channel's lock is taken.\<close>

definition write_locked ::
  "bool \<Rightarrow> Kernel \<Rightarrow> nat \<Rightarrow> Endpoint \<Rightarrow> held_charge \<Rightarrow> byte list \<Rightarrow> RawHandle list \<Rightarrow> Endpoint list \<Rightarrow> ret \<times> Kernel"
where
  "write_locked moved_ok k pid ep charge payload vs carried =
     (let (c, side) = ep; ch = k_chans k ! c; peer = Endpoint_peer side;
          refuse = (\<lambda>e. (fail e, charge_drop k charge))
      in if \<not> ch_open ch peer then refuse PeerClosed
         else if length (ch_queues ch peer) \<ge> CHANNEL_DEPTH then refuse ShouldWait
         else if \<not> moved_ok then refuse NoMemory
         else if carried \<noteq> [] \<and> (\<exists>(c', s') \<in> set carried. Endpoint_carried (k_chans k ! c') s' \<noteq> 0)
         then refuse BadState
         else let ch1 = (if carried = [] then ch else carry ch peer (length carried))
              in case take_all (table_of k pid) vs of
                (Some e, moved, t) \<Rightarrow>
                  (fail e, charge_drop (drop_items (map DropHandle moved)
                     ((set_table k pid t)\<lparr>k_chans := (k_chans k)[c := ch1]\<rparr>)) charge)
              | (None, moved, t) \<Rightarrow>
                  (one 0, (set_table k pid t)\<lparr>k_chans := (k_chans k)[c := ch_push ch1 peer
                     \<lparr>msg_bytes = payload, msg_handles = moved, msg_endpoints = length carried,
                      msg_charge = Some charge\<rparr>]\<rparr>))"

definition channel_write ::
  "(nat \<Rightarrow> bool) \<Rightarrow> bool \<Rightarrow> (u64 \<Rightarrow> usize \<Rightarrow> byte list res) \<Rightarrow>
    Kernel \<Rightarrow> nat \<Rightarrow> u64 \<Rightarrow> u64 \<Rightarrow> u64 \<Rightarrow> u64 \<Rightarrow> u64 \<Rightarrow> ret \<times> Kernel"
where
  "channel_write mem moved_ok rd k pid v bytes nbytes handles nhandles =
     (case typed k pid v R_WRITE as_channel of
        Inl e \<Rightarrow> (fail e, k)
      | Inr ep \<Rightarrow>
          if nbytes > CHANNEL_MAX_BYTES \<or> nhandles > CHANNEL_MAX_HANDLES then (fail Limit, k)
          else let payer = p_account (k_procs k ! pid); cost = Message_cost nbytes nhandles
               in case charge_new k payer cost of
                 (Inl e, k1) \<Rightarrow> (fail e, k1)
               | (Inr _, k1) \<Rightarrow>
                   (case rd bytes nbytes of
                      Inl e \<Rightarrow> (fail e, charge_drop k1 (payer, cost))
                    | Inr payload \<Rightarrow>
                        (case rd handles (nhandles * 4) of
                           Inl e \<Rightarrow> (fail e, charge_drop k1 (payer, cost))
                         | Inr hbytes \<Rightarrow>
                             let vs = values_of hbytes
                             in (case write_check mem (table_of k1 pid) (fst ep) [] vs of
                                   Inl e \<Rightarrow> (fail e, charge_drop k1 (payer, cost))
                                 | Inr carried \<Rightarrow>
                                     write_locked moved_ok k1 pid ep (payer, cost) payload vs carried))))"

text \<open>
  The handles of the front message put into the reader's table, as clones, and the clones taken out
  of it again and dropped.
\<close>

fun read_insert :: "(nat \<Rightarrow> bool) \<Rightarrow> Kernel \<Rightarrow> nat \<Rightarrow> Handle list \<Rightarrow> RawHandle list \<Rightarrow> error option \<times> RawHandle list \<times> Kernel" where
  "read_insert ok k pid [] inserted = (None, inserted, k)"
| "read_insert ok k pid (h # hs) inserted =
     (case insert_into (ok (length inserted)) k pid h of
        (Inr v, k1) \<Rightarrow> read_insert ok k1 pid hs (inserted @ [v])
      | (Inl (e, _), k1) \<Rightarrow> (Some e, inserted, k1))"

fun remove_all :: "Kernel \<Rightarrow> nat \<Rightarrow> RawHandle list \<Rightarrow> Kernel" where
  "remove_all k pid [] = k"
| "remove_all k pid (v # vs) =
     (case HandleTable_remove (table_of k pid) v of
        (Inl _, _) \<Rightarrow> remove_all k pid vs
      | (Inr h, t) \<Rightarrow> remove_all (drop_items [DropHandle h] (set_table k pid t)) pid vs)"

definition le_bytes :: "RawHandle \<Rightarrow> byte list" where
  "le_bytes v = map (\<lambda>i. ucast (drop_bit (8 * i) v)) [0..<4]"

definition channel_read ::
  "(nat \<Rightarrow> bool) \<Rightarrow> (u64 \<Rightarrow> byte list \<Rightarrow> unit res) \<Rightarrow>
    Kernel \<Rightarrow> nat \<Rightarrow> u64 \<Rightarrow> u64 \<Rightarrow> u64 \<Rightarrow> u64 \<Rightarrow> u64 \<Rightarrow> ret \<times> Kernel"
where
  "channel_read ok wr k pid v bytes cap handles hcap =
     (case typed k pid v R_READ as_channel of
        Inl e \<Rightarrow> (fail e, k)
      | Inr (c, side) \<Rightarrow>
          (case ch_queues (k_chans k ! c) side of
             [] \<Rightarrow> (fail (if ch_open (k_chans k ! c) (Endpoint_peer side) then ShouldWait else PeerClosed), k)
           | front # _ \<Rightarrow>
               let nb = length (msg_bytes front); nh = length (msg_handles front)
               in if nb > cap \<or> nh > hcap then (Inl (BufferTooSmall, nh * 2 ^ 32 + nb), k)
                  else if HandleTable_room (table_of k pid) < nh then (fail Limit, k)
                  else (case wr bytes (msg_bytes front) of
                     Inl e \<Rightarrow> (fail e, k)
                   | Inr _ \<Rightarrow>
                       (case read_insert ok k pid (msg_handles front) [] of
                          (Some e, inserted, k1) \<Rightarrow> (fail e, remove_all k1 pid inserted)
                        | (None, inserted, k1) \<Rightarrow>
                            (case wr handles (concat (map le_bytes inserted)) of
                               Inl e \<Rightarrow> (fail e, remove_all k1 pid inserted)
                             | Inr _ \<Rightarrow>
                                 (Inr (nb, nh), drop_items (message_items front)
                                    (k1\<lparr>k_chans := (k_chans k1)[c := ch_pop (k_chans k1 ! c) side]\<rparr>)))))))"

subsection \<open>Accounts and resources\<close>

definition account_of :: "Kernel \<Rightarrow> nat \<Rightarrow> u64 \<Rightarrow> rights \<Rightarrow> nat res" where
  "account_of k pid v rights =
     (if v = 0 then Inr (p_account (k_procs k ! pid))
      else typed k pid v rights (\<lambda>h. case h_object h of
          Obj_Account a \<Rightarrow> Inr a
        | Obj_Process q \<Rightarrow> Inr (p_account (k_procs k ! q))
        | _ \<Rightarrow> Inl WrongType))"

definition resource_aligned :: "ResourceKind \<Rightarrow> u64 \<Rightarrow> u64 \<Rightarrow> bool res" where
  "resource_aligned kind base len =
     (if kind = RK_Process then Inl InvalidArgs
      else if kind = RK_DeviceMemory then Inr (aligned base \<and> aligned len)
      else Inr True)"

text \<open>A refused handle is the only one to the new resource, whose drop gives its charge back.\<close>

definition resource_narrow :: "bool \<Rightarrow> Kernel \<Rightarrow> nat \<Rightarrow> u64 \<Rightarrow> u64 \<Rightarrow> u64 \<Rightarrow> ret \<times> Kernel" where
  "resource_narrow reserve_ok k pid v base len =
     (case lookup k pid v R_NONE of
        Inl e \<Rightarrow> (fail e, k)
      | Inr handle \<Rightarrow>
          (case h_object handle of
             Obj_Resource source \<Rightarrow>
               if \<not> Rights_contains (h_rights handle) R_DUPLICATE then (fail AccessDenied, k)
               else (case resource_aligned (res_kind source) base len of
                  Inl e \<Rightarrow> (fail e, k)
                | Inr al \<Rightarrow>
                    if len = 0 \<or> \<not> al \<or> checked_add base len = None then (fail InvalidArgs, k)
                    else if \<not> covers source base len then (fail AccessDenied, k)
                    else let payer = p_account (k_procs k ! pid)
                         in (case charge_new k payer charge_OBJECT of
                               (Inl e, k1) \<Rightarrow> (fail e, k1)
                             | (Inr _, k1) \<Rightarrow>
                                 (case process_insert reserve_ok k1 pid
                                    \<lparr>h_object = Obj_Resource \<lparr>res_kind = res_kind source, res_start = base,
                                                             res_end = wadd base len\<rparr>,
                                     h_rights = h_rights handle\<rparr> of
                                    (Inl e, k2) \<Rightarrow> (fail e, charge_drop k2 (payer, charge_OBJECT))
                                  | (Inr new, k2) \<Rightarrow> (one (unat new), k2))))
           | _ \<Rightarrow> (fail WrongType, k)))"

subsection \<open>The handles a process is started with\<close>

definition start_entry_SIZE :: usize where "start_entry_SIZE = 40"
definition start_entry_HANDLE :: usize where "start_entry_HANDLE = 0"
definition start_entry_NAME :: usize where "start_entry_NAME = 8"

fun named_specs :: "byte list \<Rightarrow> nat list \<Rightarrow> (RawHandle \<times> byte list) list res" where
  "named_specs bytes [] = Inr []"
| "named_specs bytes (i # is) =
     (let at' = i * start_entry_SIZE in
      case read_u32 bytes (at' + start_entry_HANDLE) of
        None \<Rightarrow> Inl InvalidArgs
      | Some v \<Rightarrow>
          (case slice bytes (at' + start_entry_NAME) (at' + start_entry_NAME + NAME_MAX) of
             None \<Rightarrow> Inl InvalidArgs
           | Some field \<Rightarrow> andthen (named_specs bytes is) (\<lambda>specs. Inr ((of_nat v, fixed_name field) # specs))))"

fun named_check :: "Handle HandleTable \<Rightarrow> (RawHandle \<times> byte list) list \<Rightarrow> (RawHandle \<times> byte list) list \<Rightarrow> unit res" where
  "named_check t seen [] = Inr ()"
| "named_check t seen ((v, name) # specs) =
     andthen (HandleTable_get t v) (\<lambda>handle.
       if \<not> Rights_contains (h_rights handle) R_TRANSFER then Inl AccessDenied
       else if \<not> valid_name name \<or> (\<exists>(v', n') \<in> set seen. v' = v \<or> n' = name) then Inl InvalidArgs
       else named_check t (seen @ [(v, name)]) specs)"

definition take_named ::
  "(u64 \<Rightarrow> usize \<Rightarrow> byte list res) \<Rightarrow> Kernel \<Rightarrow> nat \<Rightarrow> u64 \<Rightarrow> u64 \<Rightarrow> (Handle \<times> byte list) list res \<times> Kernel"
where
  "take_named rd k pid entries n =
     (case andthen (rd entries (n * start_entry_SIZE)) (\<lambda>bytes. named_specs bytes [0..<n]) of
        Inl e \<Rightarrow> (Inl e, k)
      | Inr specs \<Rightarrow>
          (case named_check (table_of k pid) [] specs of
             Inl e \<Rightarrow> (Inl e, k)
           | Inr _ \<Rightarrow>
               (case take_all (table_of k pid) (map fst specs) of
                  (Some e, moved, t) \<Rightarrow> (Inl e, drop_items (map DropHandle moved) (set_table k pid t))
                | (None, moved, t) \<Rightarrow> (Inr (zip moved (map snd specs)), set_table k pid t))))"

text \<open>
  The handles put into the new process's table (\<open>map_start_page\<close>), giving the value of each; at
  the first refused, it and those after it are dropped, and those before it stay.
\<close>

fun start_insert :: "(nat \<Rightarrow> bool) \<Rightarrow> Kernel \<Rightarrow> nat \<Rightarrow> Handle list \<Rightarrow> RawHandle list \<Rightarrow> RawHandle list res \<times> Kernel" where
  "start_insert ok k child [] vs = (Inr vs, k)"
| "start_insert ok k child (h # hs) vs =
     (case insert_into (ok (length vs)) k child h of
        (Inr v, k1) \<Rightarrow> start_insert ok k1 child hs (vs @ [v])
      | (Inl (e, refused), k1) \<Rightarrow> (Inl e, drop_items (DropHandle refused # map DropHandle hs) k1))"

text \<open>
  \<open>Process::grant\<close>: \<open>mapped\<close> is what making and mapping the start page gives once the handles are
  in the table. The handles it is given are its own: one that returns early drops them.
\<close>

definition process_grant_to ::
  "(nat \<Rightarrow> bool) \<Rightarrow> u64 res \<Rightarrow> Kernel \<Rightarrow> nat \<Rightarrow> Handle list \<Rightarrow> u64 res \<times> Kernel"
where
  "process_grant_to ok mapped k child handles =
     (let p = k_procs k ! child; dropped = drop_items (map DropHandle handles) k
      in if \<not> is_created p then (Inl BadState, dropped)
         else if length handles > START_HANDLES_MAX then (Inl InvalidArgs, dropped)
         else if p_granted p then (Inl BadState, dropped)
         else case start_insert ok (set_proc k child (p\<lparr>p_granted := True\<rparr>)) child handles [] of
           (Inl e, k1) \<Rightarrow> (Inl e, k1)
         | (Inr _, k1) \<Rightarrow> (mapped, k1))"

definition process_grant ::
  "(u64 \<Rightarrow> usize \<Rightarrow> byte list res) \<Rightarrow> (nat \<Rightarrow> bool) \<Rightarrow> u64 res \<Rightarrow> Kernel \<Rightarrow> nat \<Rightarrow> u64 \<Rightarrow> u64 \<Rightarrow> u64 \<Rightarrow> ret \<times> Kernel"
where
  "process_grant rd ok mapped k pid process entries n =
     (case typed k pid process R_WRITE as_process of
        Inl e \<Rightarrow> (fail e, k)
      | Inr child \<Rightarrow>
          if n > START_HANDLES_MAX then (fail Limit, k)
          else if \<not> is_created (k_procs k ! child) then (fail BadState, k)
          else case take_named rd k pid entries n of
            (Inl e, k1) \<Rightarrow> (fail e, k1)
          | (Inr moved, k1) \<Rightarrow>
              (case process_grant_to ok mapped k1 child (map fst moved) of
                 (Inl e, k2) \<Rightarrow> (fail e, k2)
               | (Inr page, k2) \<Rightarrow> (one page, k2)))"

end
