(* ===== verification/CallsInv.thy ===== *)
theory CallsInv
  imports Calls
begin

text \<open>
  The calls of \<open>Calls\<close> keep the invariant of \<open>Kernel\<close>: the steps of one call are followed with the
  handles the call itself holds counted among those still to be dropped.
\<close>

subsection \<open>Changing one table\<close>

lemma table_eps_nth: "table_eps k = (\<Union>i < length (k_procs k). set (handle_eps (table_handles (table_of k i))))"
proof -
  have "set (k_procs k) = (\<lambda>i. k_procs k ! i) ` {..<length (k_procs k)}"
    by (auto simp: set_conv_nth)
  then show ?thesis by (simp add: table_eps_def table_of_def)
qed

lemma table_eps_split:
  assumes "pid < length (k_procs k)"
  shows "table_eps k = set (handle_eps (table_handles (table_of k pid))) \<union>
    (\<Union>i \<in> {i. i < length (k_procs k) \<and> i \<noteq> pid}. set (handle_eps (table_handles (table_of k i))))"
proof -
  have "{..<length (k_procs k)} = insert pid {i. i < length (k_procs k) \<and> i \<noteq> pid}" using assms by auto
  then show ?thesis by (simp add: table_eps_nth)
qed

lemma set_proc_fields [simp]:
  "k_chans (set_proc k pid p) = k_chans k" "length (k_procs (set_proc k pid p)) = length (k_procs k)"
  "k_accounts (set_proc k pid p) = k_accounts k"
  "pid < length (k_procs k) \<Longrightarrow> k_procs (set_proc k pid p) ! i = (if i = pid then p else k_procs k ! i)"
  by (simp_all add: set_proc_def nth_list_update_at)

lemma set_table_fields [simp]:
  "k_chans (set_table k pid t) = k_chans k" "length (k_procs (set_table k pid t)) = length (k_procs k)"
  "k_accounts (set_table k pid t) = k_accounts k"
  "pid < length (k_procs k) \<Longrightarrow> table_of (set_table k pid t) i = (if i = pid then t else table_of k i)"
  by (simp_all add: set_table_def table_of_def)

lemma edges_chans: "k_chans k' = k_chans k \<Longrightarrow> edges k' = edges k \<and> open_eps k' = open_eps k"
  by (simp add: edges_def open_eps_def)

lemma kinv_tables:
  "kinv k ws \<longleftrightarrow> (\<forall>i < length (k_procs k). HandleTable_inv (table_of k i)) \<and> (\<forall>ch \<in> set (k_chans k). chan_ok ch) \<and>
     refs k ws = open_eps k \<and> acyclic (edges k)"
  by (simp add: kinv_def table_of_def all_set_conv_all_nth)

text \<open>A process replaced by one with another table, and what is held with it.\<close>

lemma kinv_set_table:
  assumes inv: "kinv k ws" and pid: "pid < length (k_procs k)" and t: "HandleTable_inv t"
    and eps: "set (handle_eps (table_handles t)) \<union> set (handle_eps (item_handles ws')) =
      set (handle_eps (table_handles (table_of k pid))) \<union> set (handle_eps (item_handles ws))"
  shows "kinv (set_table k pid t) ws'"
proof -
  let ?k = "set_table k pid t"
  have e: "edges ?k = edges k" "open_eps ?k = open_eps k" using edges_chans [of ?k k] by simp_all
  let ?r = "\<Union>i \<in> {i. i < length (k_procs k) \<and> i \<noteq> pid}. set (handle_eps (table_handles (table_of k i)))"
  have "table_eps ?k = set (handle_eps (table_handles t)) \<union>
      (\<Union>i \<in> {i. i < length (k_procs k) \<and> i \<noteq> pid}. set (handle_eps (table_handles (table_of ?k i))))"
    using table_eps_split [of pid ?k] pid by simp
  also have "\<dots> = set (handle_eps (table_handles t)) \<union> ?r" using pid by auto
  finally have "refs ?k ws' = refs k ws"
    unfolding refs_def e table_eps_split [OF pid] using eps by blast
  then show ?thesis using inv t pid e by (simp add: kinv_tables)
qed

lemma kinv_same_tables:
  assumes "kinv k ws" "k_chans k' = k_chans k" "length (k_procs k') = length (k_procs k)"
    "\<And>i. i < length (k_procs k) \<Longrightarrow> table_of k' i = table_of k i"
  shows "kinv k' ws"
proof -
  have "table_eps k' = table_eps k" using assms(3,4) by (simp add: table_eps_nth)
  then show ?thesis
    using assms edges_chans [of k' k] by (simp add: kinv_tables refs_def)
qed

lemma kinv_hold:
  assumes inv: "kinv k ws" and h: "\<And>e. handle_ep h = Some e \<Longrightarrow> e \<in> refs k ws"
  shows "kinv k (DropHandle h # ws)"
proof -
  have "refs k (DropHandle h # ws) = refs k ws"
    using h by (cases "handle_ep h") (auto simp: refs_def)
  then show ?thesis using inv by (simp add: kinv_def)
qed

lemma in_table_refs:
  assumes "pid < length (k_procs k)" "h \<in> set (table_handles (table_of k pid))" "handle_ep h = Some e"
  shows "e \<in> refs k ws"
  using assms by (auto simp: refs_def table_eps_def table_of_def set_handle_eps)

lemma table_inv: "kinv k ws \<Longrightarrow> pid < length (k_procs k) \<Longrightarrow> HandleTable_inv (table_of k pid)"
  by (simp add: kinv_tables)

subsection \<open>Inserting\<close>

lemma put_inv:
  assumes inv: "kinv k (DropHandle h # ws)" and pid: "pid < length (k_procs k)"
    and ins: "insert_or_return ok (table_of k pid) h = (Inr v, t)"
  shows "kinv (set_table k pid t) ws"
proof (rule kinv_set_table [OF inv pid])
  note ti = table_inv [OF inv pid]
  show "HandleTable_inv t" using ti ins by (rule insert_or_return_ok)
  show "set (handle_eps (table_handles t)) \<union> set (handle_eps (item_handles ws)) =
      set (handle_eps (table_handles (table_of k pid))) \<union> set (handle_eps (item_handles (DropHandle h # ws)))"
    using table_handles_insert [OF ti ins] by (auto simp: set_handle_eps split: option.split)
qed

lemma insert_or_return_refused: "insert_or_return ok t h = (Inl (e, h'), t') \<Longrightarrow> h' = h \<and> t' = t"
  by (auto simp: insert_or_return_def Let_def split: if_splits option.splits prod.splits)

text \<open>The table of \<open>pid\<close> grows by the handle, or nothing does; what it is charged apart.\<close>

lemma insert_into_cases:
  assumes "pid < length (k_procs k)" "insert_into ok k pid h = (r, k')"
  obtains (stored) v k1 t where "r = Inr v" "insert_or_return ok (table_of k pid) h = (Inr v, t)"
      "k' = set_table k1 pid t" "k_chans k1 = k_chans k" "length (k_procs k1) = length (k_procs k)"
      "\<And>i. table_of k1 i = table_of k i"
  | (refused) e where "r = Inl (e, h)" "k_chans k' = k_chans k" "length (k_procs k') = length (k_procs k)"
      "\<And>i. table_of k' i = table_of k i"
proof -
  let ?p = "k_procs k ! pid"
  have put: thesis
    if *: "insert_or_return ok (table_of k pid) h = (r, t)" "k' = set_table k1 pid t"
      "k_chans k1 = k_chans k" "length (k_procs k1) = length (k_procs k)" "\<And>i. table_of k1 i = table_of k i" for k1 t
  proof (cases r)
    case (Inl x)
    obtain e h' where x: "x = (e, h')" by (cases x)
    then have "h' = h" "t = table_of k pid"
      using insert_or_return_refused [of ok "table_of k pid" h e h' t] *(1) Inl by simp_all
    then show thesis
      using refused [of e] * x Inl assms(1) by simp
  next
    case (Inr v)
    then show thesis using * stored by blast
  qed
  obtain r1 t where io: "insert_or_return ok (table_of k pid) h = (r1, t)" by fastforce
  note io' = io [unfolded table_of_def]
  define need where "need = wmul (table_steps (HandleTable_slots (p_handles ?p) + 1)) (wmul charge_HANDLE_SLOTS charge_HANDLE_SLOT)"
  define have' where "have' = p_table_charge ?p"
  show thesis
  proof (cases "HandleTable_grows (p_handles ?p) \<and> need > have'")
    case False
    then have "insert_into ok k pid h = (r1, set_table k pid t)"
      by (auto simp: insert_into_def Let_def io' need_def have'_def)
    then show thesis using put [of t k] io assms(2) by simp
  next
    case True
    obtain c k1 where c: "charge_new k (p_account ?p) (need - have') = (c, k1)" by fastforce
    note f = charge_new_fields [OF c]
    show thesis
    proof (cases c)
      case (Inl e)
      then have "insert_into ok k pid h = (Inl (e, h), k1)"
        using True c by (simp add: insert_into_def Let_def need_def have'_def)
      then show thesis using refused [of e] f assms(2) by (simp add: table_of_def)
    next
      case (Inr u)
      then have "insert_into ok k pid h =
          (r1, set_table (set_proc k1 pid (?p\<lparr>p_table_charge := wadd have' (need - have')\<rparr>)) pid t)"
        using True c io' by (simp add: insert_into_def Let_def need_def have'_def)
      then show thesis
        using put [of t "set_proc k1 pid (?p\<lparr>p_table_charge := wadd have' (need - have')\<rparr>)"] io f assms
        by (simp add: table_of_def)
    qed
  qed
qed

lemma insert_into_inv:
  assumes inv: "kinv k (DropHandle h # ws)" and pid: "pid < length (k_procs k)"
    and ins: "insert_into ok k pid h = (r, k')"
  shows "length (k_procs k') = length (k_procs k)" "k_chans k' = k_chans k"
    "case r of Inl (e, h') \<Rightarrow> h' = h \<and> kinv k' (DropHandle h # ws) | Inr v \<Rightarrow> kinv k' ws"
proof -
  have "length (k_procs k') = length (k_procs k) \<and> k_chans k' = k_chans k \<and>
    (case r of Inl (e, h') \<Rightarrow> h' = h \<and> kinv k' (DropHandle h # ws) | Inr v \<Rightarrow> kinv k' ws)"
    using pid ins
  proof (cases rule: insert_into_cases)
    case (stored v k1 t)
    have "kinv k1 (DropHandle h # ws)" using inv stored(4,5,6) by (rule kinv_same_tables)
    then have "kinv k' ws"
      unfolding stored(3) using pid stored by (intro put_inv [where h = h and ok = ok and v = v]) simp_all
    then show ?thesis using stored by simp
  next
    case (refused e)
    then have "kinv k' (DropHandle h # ws)" by (intro kinv_same_tables [OF inv])
    then show ?thesis using refused by simp
  qed
  then show "length (k_procs k') = length (k_procs k)" "k_chans k' = k_chans k"
    "case r of Inl (e, h') \<Rightarrow> h' = h \<and> kinv k' (DropHandle h # ws) | Inr v \<Rightarrow> kinv k' ws" by simp_all
qed

lemma process_insert_inv:
  assumes inv: "kinv k [DropHandle h]" and pid: "pid < length (k_procs k)"
  shows "kinv (snd (process_insert ok k pid h)) []"
proof -
  obtain r k' where ins: "insert_into ok k pid h = (r, k')" by fastforce
  note i = insert_into_inv [OF inv pid ins]
  show ?thesis
  proof (cases r)
    case (Inl x)
    then show ?thesis using i ins drop_items_inv [of k' "[DropHandle h]"] by (cases x) (simp add: process_insert_def)
  qed (use i ins in \<open>simp add: process_insert_def\<close>)
qed

subsection \<open>Removing\<close>

lemma remove_inv_k:
  assumes inv: "kinv k ws" and pid: "pid < length (k_procs k)" and g: "HandleTable_get (table_of k pid) v = Inr h"
  shows "kinv (set_table k pid (snd (HandleTable_remove (table_of k pid) v))) (DropHandle h # ws)"
proof (rule kinv_set_table [OF inv pid])
  note ti = table_inv [OF inv pid]
  show "HandleTable_inv (snd (HandleTable_remove (table_of k pid) v))" using ti by (rule remove_inv)
  show "set (handle_eps (table_handles (snd (HandleTable_remove (table_of k pid) v)))) \<union>
      set (handle_eps (item_handles (DropHandle h # ws))) =
      set (handle_eps (table_handles (table_of k pid))) \<union> set (handle_eps (item_handles ws))"
    using table_handles_remove [OF ti g] by (auto simp: set_handle_eps split: option.split)
qed

lemma take_all_ok:
  assumes "HandleTable_inv t" "distinct vs" "\<forall>v \<in> set vs. \<exists>h. HandleTable_get t v = Inr h"
  shows "\<exists>hs t'. take_all t vs = (None, hs, t') \<and> HandleTable_inv t' \<and> map Inr hs = map (HandleTable_get t) vs \<and>
    set (table_handles t) = set hs \<union> set (table_handles t') \<and>
    (\<forall>v \<in> set vs. HandleTable_get t' v = Inl BadHandle) \<and> (\<forall>w. w \<notin> set vs \<longrightarrow> HandleTable_get t' w = HandleTable_get t w)"
  using assms
proof (induction vs arbitrary: t)
  case (Cons v vs)
  obtain h where h: "HandleTable_get t v = Inr h" using Cons.prems(3) by auto
  obtain r t1 where r: "HandleTable_remove t v = (r, t1)" by fastforce
  note ok = ht.rem_ok [OF Cons.prems(1) h r]
  have others: "HandleTable_get t1 w = HandleTable_get t w" if "w \<noteq> v" for w using ok that by blast
  have "\<exists>h. HandleTable_get t1 w = Inr h" if "w \<in> set vs" for w
  proof -
    have "w \<noteq> v" using Cons.prems(2) that by auto
    then show ?thesis using Cons.prems(3) that others [of w] by simp
  qed
  then obtain hs t2 where t2: "take_all t1 vs = (None, hs, t2)" "HandleTable_inv t2"
      "map Inr hs = map (HandleTable_get t1) vs" "set (table_handles t1) = set hs \<union> set (table_handles t2)"
      "\<forall>v \<in> set vs. HandleTable_get t2 v = Inl BadHandle" "\<forall>w. w \<notin> set vs \<longrightarrow> HandleTable_get t2 w = HandleTable_get t1 w"
    using Cons.IH [of t1] Cons.prems(2) ok by auto
  have "map (HandleTable_get t1) vs = map (HandleTable_get t) vs"
    using Cons.prems(2) by (intro map_cong refl others) auto
  moreover have "set (table_handles t) = insert h (set (table_handles t1))"
    using table_handles_remove [OF Cons.prems(1) h] r by simp
  moreover have "HandleTable_get t2 v = Inl BadHandle" using t2(6) Cons.prems(2) ok by auto
  ultimately show ?case using t2 r ok h others by (intro exI [of _ "h # hs"] exI [of _ t2]) auto
qed simp


lemma take_all_inv:
  assumes inv: "kinv k ws" and pid: "pid < length (k_procs k)"
    and vs: "distinct vs" "\<forall>v \<in> set vs. \<exists>h. HandleTable_get (table_of k pid) v = Inr h"
    and take: "take_all (table_of k pid) vs = (r, hs, t)"
  shows "r = None" "map Inr hs = map (HandleTable_get (table_of k pid)) vs"
    "kinv (set_table k pid t) (map DropHandle hs @ ws)"
proof -
  have t: "r = None" "HandleTable_inv t" "map Inr hs = map (HandleTable_get (table_of k pid)) vs"
      "set (table_handles (table_of k pid)) = set hs \<union> set (table_handles t)"
    using take_all_ok [OF table_inv [OF inv pid] vs] take by auto
  show "r = None" "map Inr hs = map (HandleTable_get (table_of k pid)) vs" by fact+
  show "kinv (set_table k pid t) (map DropHandle hs @ ws)"
    by (rule kinv_set_table [OF inv pid t(2)]) (use t(4) in \<open>auto simp: set_handle_eps\<close>)
qed

lemma remove_all_inv: "kinv k [] \<Longrightarrow> pid < length (k_procs k) \<Longrightarrow> kinv (remove_all k pid vs) []"
proof (induction vs arbitrary: k)
  case (Cons v vs)
  show ?case
  proof (cases "HandleTable_get (table_of k pid) v")
    case (Inl e)
    then show ?thesis using Cons ht.rem_refused [of "table_of k pid" v e] by simp
  next
    case (Inr h)
    obtain r t where r: "HandleTable_remove (table_of k pid) v = (r, t)" by fastforce
    have "r = Inr h" using ht.rem_ok [OF table_inv [OF Cons.prems] Inr r] by simp
    moreover have "kinv (drop_items [DropHandle h] (set_table k pid t)) []"
      using remove_inv_k [OF Cons.prems Inr] r by (intro drop_items_inv) simp
    ultimately show ?thesis using r Cons by simp
  qed
qed simp

subsection \<open>Channels\<close>

text \<open>Edges from one node to nodes with none close no cycle.\<close>

lemma acyclic_add_leaves:
  assumes r: "acyclic r" and leaves: "\<And>y. y \<in> Y \<Longrightarrow> y \<notin> Domain r" and x: "x \<notin> Y"
  shows "acyclic (r \<union> {x} \<times> Y)"
proof (rule acyclicI, rule allI, rule notI)
  let ?r = "r \<union> {x} \<times> Y"
  have stuck: "(y, z) \<notin> ?r" if "y \<in> Y" for y z using leaves [OF that] x that by auto
  have reach: "(a, b) \<in> r\<^sup>+ \<or> b \<in> Y" if "(a, b) \<in> ?r\<^sup>+" for a b
    using that
  proof (induction rule: trancl_induct)
    case (step b c)
    then show ?case using stuck [of b c] by (auto intro: trancl_into_trancl)
  qed auto
  fix a assume a: "(a, a) \<in> ?r\<^sup>+"
  then obtain z where "(a, z) \<in> ?r" by (meson tranclD)
  then have "a \<notin> Y" using stuck [of a z] by blast
  then show False using reach [OF a] r by (auto simp: acyclic_def)
qed

lemma edges_push:
  assumes "c < length (k_chans k)" "s < 2" "\<And>t. queue_handles ch t = queue_handles (k_chans k ! c) t"
  shows "edges (k\<lparr>k_chans := (k_chans k)[c := ch_push ch s m]\<rparr>) =
    edges k \<union> {(c, s)} \<times> set (handle_eps (msg_handles m))"
  using assms by (auto simp: edges_def nth_list_update split: if_splits)

lemma open_eps_push:
  assumes "c < length (k_chans k)" "ch_open ch = ch_open (k_chans k ! c)"
  shows "open_eps (k\<lparr>k_chans := (k_chans k)[c := ch]\<rparr>) = open_eps k"
  using assms by (auto simp: open_eps_def nth_list_update split: if_splits)

lemma chans_update_ok:
  "\<forall>ch \<in> set chs. chan_ok ch \<Longrightarrow> chan_ok ch' \<Longrightarrow> \<forall>ch \<in> set (chs[c := ch']). chan_ok ch"
  using set_update_subset_insert [of chs c ch'] by auto

lemma push_inv:
  assumes inv: "kinv k (map DropHandle (msg_handles m) @ ws)" and c: "c < length (k_chans k)" "s < 2"
    and o: "ch_open (k_chans k ! c) s" "length (ch_queues (k_chans k ! c) s) < CHANNEL_DEPTH"
    and m: "message_ok m" "\<And>e. e \<in> set (handle_eps (msg_handles m)) \<Longrightarrow> e \<notin> Domain (edges k) \<and> e \<noteq> (c, s)"
    and ch: "ch = (if msg_endpoints m = 0 then k_chans k ! c else carry (k_chans k ! c) s (msg_endpoints m))"
  shows "kinv (k\<lparr>k_chans := (k_chans k)[c := ch_push ch s m]\<rparr>) ws"
proof -
  let ?k = "k\<lparr>k_chans := (k_chans k)[c := ch_push ch s m]\<rparr>"
  have e: "edges ?k = edges k \<union> {(c, s)} \<times> set (handle_eps (msg_handles m))"
    using c by (intro edges_push) (simp_all add: ch)
  have "chan_ok (ch_push ch s m)"
    unfolding ch using ch_push_ok [OF kinvD(2) [OF inv nth_mem [OF c(1)]] c(2) m(1) o] .
  then have "\<forall>ch \<in> set (k_chans ?k). chan_ok ch"
    using kinvD(2) [OF inv] chans_update_ok [of "k_chans k" "ch_push ch s m" c] by simp
  moreover have "acyclic (edges ?k)"
    unfolding e using kinvD(4) [OF inv] m(2) by (intro acyclic_add_leaves) auto
  moreover have "open_eps ?k = open_eps k" using c(1) by (intro open_eps_push) (simp_all add: ch)
  moreover have "Range (edges ?k) = Range (edges k) \<union> set (handle_eps (msg_handles m))" unfolding e by auto
  then have "refs ?k ws = refs k (map DropHandle (msg_handles m) @ ws)"
    by (auto simp: refs_def table_eps_def)
  ultimately show ?thesis using kinvD(1,3) [OF inv] by (simp add: kinv_def)
qed

lemma pop_inv:
  assumes inv: "kinv k ws" and c: "c < length (k_chans k)" "s < 2" and q: "ch_queues (k_chans k ! c) s = m # rest"
  shows "kinv (k\<lparr>k_chans := (k_chans k)[c := ch_pop (k_chans k ! c) s]\<rparr>) (message_items m @ ws)"
proof -
  let ?k = "k\<lparr>k_chans := (k_chans k)[c := ch_pop (k_chans k ! c) s]\<rparr>"
  have e: "edges k = edges ?k \<union> {(c, s)} \<times> set (handle_eps (msg_handles m))"
    using c by (auto simp: edges_def nth_list_update queue_handles_pop [OF q] split: if_splits)
  have "chan_ok (ch_pop (k_chans k ! c) s)"
    using ch_pop_ok [OF kinvD(2) [OF inv nth_mem [OF c(1)]] c(2)] .
  then have "\<forall>ch \<in> set (k_chans ?k). chan_ok ch"
    using kinvD(2) [OF inv] chans_update_ok [of "k_chans k" "ch_pop (k_chans k ! c) s" c] by simp
  moreover have "acyclic (edges ?k)" by (rule acyclic_subset [OF kinvD(4) [OF inv]]) (use e in blast)
  moreover have "open_eps ?k = open_eps k" using c(1) by (intro open_eps_push) simp_all
  moreover have "Range (edges k) = Range (edges ?k) \<union> set (handle_eps (msg_handles m))"
    unfolding e by (subst Range_Un_eq) auto
  then have "refs ?k (message_items m @ ws) = refs k ws"
    by (auto simp: refs_def table_eps_def)
  ultimately show ?thesis using kinvD(1,3) [OF inv] by (simp add: kinv_def)
qed

subsection \<open>The calls\<close>

lemma lookup_Inr:
  assumes "lookup k pid v r = Inr h"
  shows "h \<in> set (table_handles (table_of k pid))" "Rights_contains (h_rights h) r"
  using assms by (auto simp: lookup_def andthen_Inr split: if_splits dest: get_in_table)

lemma typed_Inr:
  assumes "typed k pid v r cast = Inr x"
  obtains h where "h \<in> set (table_handles (table_of k pid))" "cast h = Inr x" "Rights_contains (h_rights h) r"
proof -
  obtain h where "lookup k pid v R_NONE = Inr h" "cast h = Inr x" "Rights_contains (h_rights h) r"
    using assms by (auto simp: typed_def andthen_Inr split: if_splits)
  then show ?thesis using that lookup_Inr(1) by blast
qed

lemma as_channel_Inr: "as_channel h = Inr e \<longleftrightarrow> handle_ep h = Some e"
  by (auto simp: as_channel_def handle_ep_def split: Object.splits)

lemma typed_channel_open:
  assumes "kinv k []" "pid < length (k_procs k)" "typed k pid v r as_channel = Inr (c, s)"
  shows "c < length (k_chans k)" "s < 2" "ch_open (k_chans k ! c) s"
proof -
  obtain h where "h \<in> set (table_handles (table_of k pid))" "handle_ep h = Some (c, s)"
    using assms(3) by (rule typed_Inr) (simp add: as_channel_Inr)
  then have "(c, s) \<in> open_eps k"
    using in_table_refs [OF assms(2), of h "(c, s)" "[]"] kinvD(3) [OF assms(1)] by simp
  then show "c < length (k_chans k)" "s < 2" "ch_open (k_chans k ! c) s" by (simp_all add: open_eps_def)
qed

lemma handle_close_inv:
  assumes inv: "kinv k []" and pid: "pid < length (k_procs k)"
  shows "kinv (snd (handle_close k pid v)) []"
proof (cases "raw v")
  case (Inr w)
  show ?thesis
  proof (cases "HandleTable_get (table_of k pid) w")
    case (Inl e)
    then show ?thesis using inv Inr ht.rem_refused [of "table_of k pid" w e] by (simp add: handle_close_def)
  next
    case get: (Inr h)
    obtain r t where r: "HandleTable_remove (table_of k pid) w = (r, t)" by fastforce
    have "r = Inr h" using ht.rem_ok [OF table_inv [OF inv pid] get r] by simp
    moreover have "kinv (drop_items [DropHandle h] (set_table k pid t)) []"
      using remove_inv_k [OF inv pid get] r by (intro drop_items_inv) simp
    ultimately show ?thesis using Inr r by (simp add: handle_close_def)
  qed
qed (use inv in \<open>simp add: handle_close_def\<close>)

lemma handle_duplicate_inv:
  assumes inv: "kinv k []" and pid: "pid < length (k_procs k)"
  shows "kinv (snd (handle_duplicate ok k pid v rights)) []"
proof -
  have *: "kinv (snd (process_insert ok k pid \<lparr>h_object = h_object h, h_rights = r\<rparr>)) []"
    if "lookup k pid v R_DUPLICATE = Inr h" for h r
  proof (rule process_insert_inv [OF kinv_hold [OF inv] pid])
    fix e assume "handle_ep \<lparr>h_object = h_object h, h_rights = r\<rparr> = Some e"
    then have "handle_ep h = Some e" by (simp add: handle_ep_def)
    then show "e \<in> refs k []" using in_table_refs [OF pid lookup_Inr(1) [OF that]] by simp
  qed
  show ?thesis
  proof (cases "lookup k pid v R_DUPLICATE")
    case (Inr h)
    show ?thesis
      using inv * [OF Inr, of "projr (rights_arg rights)"] Inr
      by (cases "rights_arg rights") (auto simp: handle_duplicate_def split: sum.split prod.split)
  qed (use inv in \<open>simp add: handle_duplicate_def\<close>)
qed

lemma charge_new_inv: "kinv k ws \<Longrightarrow> charge_new k a n = (r, k') \<Longrightarrow> kinv k' ws"
  using charge_new_fields [of k a n r k'] kernel_cong(5) [of k' k ws] by simp

lemma make_inv:
  assumes inv: "kinv k []" and make: "channel_make k payer = (Inr (a, b), k')"
  shows "kinv k' [DropHandle (Handle_new (Obj_Channel a)), DropHandle (Handle_new (Obj_Channel b))]"
    "k_procs k' = k_procs k"
proof -
  obtain r k1 where c: "charge_new k payer charge_CHANNEL = (r, k1)" by fastforce
  note f = charge_new_fields [OF c] and i1 = charge_new_inv [OF inv c]
  let ?c = "length (k_chans k1)"
  have m: "a = (?c, 0)" "b = (?c, 1)" "k' = k1\<lparr>k_chans := k_chans k1 @ [channel_new (payer, charge_CHANNEL)]\<rparr>"
    using make c by (auto simp: channel_make_def Let_def split: sum.splits)
  show "k_procs k' = k_procs k" using m f by simp
  have "edges k' = edges k1"
    by (auto simp: m(3) edges_def nth_append queue_handles_def channel_new_def split: if_splits)
  moreover have "open_eps k' = open_eps k1 \<union> {a, b}"
    by (auto simp: m open_eps_def nth_append channel_new_def split: if_splits)
  moreover have "table_eps k' = table_eps k1" by (simp add: m(3) table_eps_def)
  ultimately have "refs k' [DropHandle (Handle_new (Obj_Channel a)), DropHandle (Handle_new (Obj_Channel b))] = open_eps k'"
    using kinvD(3) [OF i1] by (auto simp: refs_def Handle_new_def handle_ep_def)
  then show "kinv k' [DropHandle (Handle_new (Obj_Channel a)), DropHandle (Handle_new (Obj_Channel b))]"
    using i1 \<open>edges k' = edges k1\<close> channel_new_ok by (simp add: kinv_def m(3))
qed

lemma kinv_swap: "kinv k (x # y # ws) = kinv k (y # x # ws)"
proof -
  have "set (handle_eps (item_handles (x # y # ws))) = set (handle_eps (item_handles (y # x # ws)))"
    by (cases x; cases y) (auto split: option.split)
  then show ?thesis by (simp only: kinv_def refs_def)
qed

lemma channel_create_inv:
  assumes inv: "kinv k []" and pid: "pid < length (k_procs k)"
  shows "kinv (snd (channel_create ok1 ok2 k pid)) []"
proof -
  obtain r k1 where make: "channel_make k (p_account (k_procs k ! pid)) = (r, k1)" by fastforce
  show ?thesis
  proof (cases r)
    case (Inl e)
    then have "kinv k1 []" using make charge_new_inv [OF inv] by (auto simp: channel_make_def Let_def split: sum.splits prod.splits)
    then show ?thesis using Inl make by (simp add: channel_create_def)
  next
    case (Inr ab)
    obtain a b where ab: "ab = (a, b)" by (cases ab)
    define ha where "ha = Handle_new (Obj_Channel a)"
    define hb where "hb = Handle_new (Obj_Channel b)"
    have i1: "kinv k1 [DropHandle ha, DropHandle hb]" and p1: "pid < length (k_procs k1)"
      using make_inv [OF inv, of _ a b k1] make Inr ab pid by (simp_all add: ha_def hb_def)
    obtain r2 k2 where ins: "insert_into ok1 k1 pid ha = (r2, k2)" by fastforce
    note j = insert_into_inv [OF i1 p1 ins]
    have p2: "pid < length (k_procs k2)" using j(1) p1 by simp
    obtain r3 k3 where ins2: "insert_into ok2 k2 pid hb = (r3, k3)" by fastforce
    consider (full) "HandleTable_room (table_of k1 pid) < 2"
      | (first) e where "\<not> HandleTable_room (table_of k1 pid) < 2" "r2 = Inl (e, ha)"
      | (second) v where "\<not> HandleTable_room (table_of k1 pid) < 2" "r2 = Inr v"
      using j(3) by (cases r2) auto
    then show ?thesis
    proof cases
      case full
      then show ?thesis
        using drop_items_inv [of k1 "[DropHandle hb, DropHandle ha]"] i1 make Inr ab
        by (simp add: channel_create_def ha_def hb_def kinv_swap)
    next
      case first
      then show ?thesis
        using drop_items_inv [of k2 "[DropHandle ha, DropHandle hb]"] j(3) ins make Inr ab
        by (simp add: channel_create_def Let_def ha_def hb_def)
    next
      case second
      then have "kinv k2 [DropHandle hb]" using j(3) by simp
      note l = insert_into_inv [OF this p2 ins2]
      have p3: "pid < length (k_procs k3)" using l(1) p2 by simp
      show ?thesis
      proof (cases r3)
        case (Inr w)
        then show ?thesis using l(3) second ins ins2 make \<open>r = Inr ab\<close> ab
          by (simp add: channel_create_def Let_def ha_def hb_def)
      next
        case (Inl x)
        then obtain e where x: "x = (e, hb)" using l(3) by (cases x) simp
        then have i3: "kinv k3 [DropHandle hb]" using l(3) Inl by simp
        obtain u t where rem: "HandleTable_remove (table_of k3 pid) v = (u, t)" by fastforce
        have "kinv (set_table k3 pid t) (DropHandle hb # (case u of Inl _ \<Rightarrow> [] | Inr h \<Rightarrow> [DropHandle h]))"
        proof (cases "HandleTable_get (table_of k3 pid) v")
          case g: (Inl e')
          then have "u = Inl e'" "t = table_of k3 pid"
            using ht.rem_refused [of "table_of k3 pid" v e'] rem by simp_all
          then show ?thesis using i3 p3 by (auto intro: kinv_same_tables)
        next
          case g: (Inr h)
          have "u = Inr h" using ht.rem_ok [OF table_inv [OF i3 p3] g rem] by simp
          then show ?thesis using remove_inv_k [OF i3 p3 g] rem by (simp add: kinv_swap)
        qed
        then show ?thesis
          using drop_items_inv second ins ins2 rem make Inl x \<open>r = Inr ab\<close> ab
          by (simp add: channel_create_def Let_def ha_def hb_def)
      qed
    qed
  qed
qed

lemma write_check_ok:
  "write_check mem t c seen vs = Inr es \<Longrightarrow>
    distinct vs \<and> set vs \<inter> set seen = {} \<and> (\<forall>v \<in> set vs. \<exists>h. HandleTable_get t v = Inr h) \<and>
    (\<forall>e \<in> set es. fst e \<noteq> c) \<and> (\<forall>hs. map Inr hs = map (HandleTable_get t) vs \<longrightarrow> es = handle_eps hs)"
proof (induction vs arbitrary: seen es)
  case (Cons v vs)
  obtain h where h: "HandleTable_get t v = Inr h" using Cons.prems by (auto simp: andthen_Inr)
  have v: "v \<notin> set seen" using Cons.prems h by (auto simp: andthen_Inr split: if_splits option.splits)
  obtain es' where es': "write_check mem t c (seen @ [v]) vs = Inr es'"
      "es = (case handle_ep h of None \<Rightarrow> es' | Some e \<Rightarrow> e # es')" "\<forall>e. handle_ep h = Some e \<longrightarrow> fst e \<noteq> c"
    using Cons.prems h by (auto simp: andthen_Inr split: if_splits option.splits)
  note ih = Cons.IH [OF es'(1)]
  have "es = handle_eps hs" if "map Inr hs = map (HandleTable_get t) (v # vs)" for hs
  proof (cases hs)
    case (Cons x xs)
    then show ?thesis using that ih es'(2) h by auto
  qed (use that in simp)
  moreover have "\<forall>e \<in> set es. fst e \<noteq> c" using ih es'(2,3) by (cases "handle_ep h") auto
  ultimately show ?case using ih h v by auto
qed simp

lemma no_edges_from:
  assumes inv: "kinv k ws" and e: "Endpoint_carried (k_chans k ! c) s = 0"
  shows "(c, s) \<notin> Domain (edges k)"
proof
  assume "(c, s) \<in> Domain (edges k)"
  then have c: "c < length (k_chans k)" "s < 2" "handle_eps (queue_handles (k_chans k ! c) s) \<noteq> []"
    by (auto simp: edges_def)
  have "side_ok (k_chans k ! c) s" using chan_ok_side [OF kinvD(2) [OF inv nth_mem [OF c(1)]] c(2)] .
  then show False using carried_none e c(3) by (simp add: Endpoint_carried_def)
qed

lemma write_locked_inv:
  assumes inv: "kinv k []" and pid: "pid < length (k_procs k)"
    and ep: "c < length (k_chans k)" "s < 2"
    and chk: "write_check mem (table_of k pid) c [] vs = Inr carried" and len: "length vs \<le> CHANNEL_MAX_HANDLES"
  shows "kinv (snd (write_locked moved_ok k pid (c, s) charge payload vs carried)) []"
proof -
  note w = write_check_ok [OF chk]
  let ?ch = "k_chans k ! c" and ?peer = "Endpoint_peer s"
  obtain r hs t where take: "take_all (table_of k pid) vs = (r, hs, t)" by (metis prod.exhaust)
  have "distinct vs" "\<forall>v \<in> set vs. \<exists>h. HandleTable_get (table_of k pid) v = Inr h" using w by simp_all
  note t = take_all_inv [OF inv pid this take]
  have eps: "carried = handle_eps hs" using w t(2) by blast
  have "length hs = length vs" using arg_cong [OF t(2), of length] by simp
  define m where "m = \<lparr>msg_bytes = payload, msg_handles = hs, msg_endpoints = length carried, msg_charge = Some charge\<rparr>"
  define ch where "ch = (if carried = [] then ?ch else carry ?ch ?peer (length carried))"
  show ?thesis
  proof (cases "\<not> ch_open ?ch ?peer \<or> length (ch_queues ?ch ?peer) \<ge> CHANNEL_DEPTH \<or> \<not> moved_ok \<or>
      carried \<noteq> [] \<and> (\<exists>(c', s') \<in> set carried. Endpoint_carried (k_chans k ! c') s' \<noteq> 0)")
    case True
    then have "snd (write_locked moved_ok k pid (c, s) charge payload vs carried) = charge_drop k charge"
      by (auto simp: write_locked_def Let_def)
    then show ?thesis using inv by simp
  next
    case False
    then have eq: "snd (write_locked moved_ok k pid (c, s) charge payload vs carried) =
        (set_table k pid t)\<lparr>k_chans := (k_chans (set_table k pid t))[c := ch_push ch ?peer m]\<rparr>"
      using take t(1) unfolding write_locked_def Let_def m_def ch_def by auto
    have leaf: "e \<notin> Domain (edges (set_table k pid t)) \<and> e \<noteq> (c, ?peer)" if "e \<in> set carried" for e
    proof -
      obtain c' s' where e: "e = (c', s')" by (cases e)
      have "Endpoint_carried (k_chans k ! c') s' = 0" using False that e by auto
      then have "e \<notin> Domain (edges k)" using no_edges_from [OF inv] e by simp
      moreover have "edges (set_table k pid t) = edges k" using edges_chans [of "set_table k pid t" k] by simp
      moreover have "fst e \<noteq> c" using w that by blast
      ultimately show ?thesis by auto
    qed
    have "message_ok m" using eps len \<open>length hs = length vs\<close> by (simp add: message_ok_def m_def)
    moreover have "kinv (set_table k pid t) (map DropHandle (msg_handles m) @ [])"
      using t(3) by (simp add: m_def)
    ultimately show ?thesis
      unfolding eq using False ep leaf eps
      by (intro push_inv) (auto simp: m_def ch_def Endpoint_peer_def)
  qed
qed

lemma length_values_of: "length (values_of bytes) \<le> length bytes div 4"
  using length_filter_le [of "\<lambda>i. read_u32 bytes (i * 4) \<noteq> None" "[0..<length bytes div 4]"]
  by (simp add: values_of_def map_filter_def)

text \<open>A copy from the caller's memory gives the number of bytes asked for.\<close>

definition reads_exactly :: "(u64 \<Rightarrow> usize \<Rightarrow> byte list res) \<Rightarrow> bool" where
  "reads_exactly rd \<longleftrightarrow> (\<forall>ptr n bs. rd ptr n = Inr bs \<longrightarrow> length bs = n)"

lemma channel_write_inv:
  assumes inv: "kinv k []" and pid: "pid < length (k_procs k)" and rd: "reads_exactly rd"
  shows "kinv (snd (channel_write mem moved_ok rd k pid v bytes nbytes handles nhandles)) []"
proof -
  define payer where "payer = p_account (k_procs k ! pid)"
  define cost where "cost = Message_cost nbytes nhandles"
  obtain r k1 where c: "charge_new k payer cost = (r, k1)" by fastforce
  note i1 = charge_new_inv [OF inv c] and f = charge_new_fields [OF c]
  show ?thesis
  proof (cases "typed k pid v R_WRITE as_channel")
    case (Inr ep)
    obtain ch s where ep: "ep = (ch, s)" by (cases ep)
    have o: "ch < length (k_chans k1)" "s < 2"
      using typed_channel_open [OF inv pid] Inr ep f by simp_all
    show ?thesis
    proof (cases "nbytes > CHANNEL_MAX_BYTES \<or> nhandles > CHANNEL_MAX_HANDLES \<or> (\<exists>e. r = Inl e) \<or>
        (\<exists>e. rd bytes nbytes = Inl e) \<or> (\<exists>e. rd handles (nhandles * 4) = Inl e)")
      case True
      then show ?thesis
        using Inr inv i1 c by (auto simp: channel_write_def Let_def payer_def cost_def split: sum.splits)
    next
      case False
      then obtain u p h where ok: "r = Inr u" "rd bytes nbytes = Inr p" "rd handles (nhandles * 4) = Inr h"
        by (cases r; cases "rd bytes nbytes"; cases "rd handles (nhandles * 4)") auto
      have "length (values_of h) \<le> CHANNEL_MAX_HANDLES"
        using length_values_of [of h] False rd ok(3) by (auto simp: reads_exactly_def)
      then have w: "kinv (snd (write_locked moved_ok k1 pid (ch, s) (payer, cost) p (values_of h) carried)) []"
        if "write_check mem (table_of k1 pid) ch [] (values_of h) = Inr carried" for carried
        using write_locked_inv [OF i1 _ o that] pid f by simp
      have "snd (channel_write mem moved_ok rd k pid v bytes nbytes handles nhandles) =
          snd (case write_check mem (table_of k1 pid) ch [] (values_of h) of
             Inl e \<Rightarrow> (fail e, charge_drop k1 (payer, cost))
           | Inr carried \<Rightarrow> write_locked moved_ok k1 pid (ch, s) (payer, cost) p (values_of h) carried)"
        unfolding payer_def cost_def
        using False Inr ep ok c [unfolded payer_def cost_def] by (simp add: channel_write_def Let_def)
      then show ?thesis
        using w i1 by (cases "write_check mem (table_of k1 pid) ch [] (values_of h)") simp_all
    qed
  qed (use inv in \<open>simp add: channel_write_def\<close>)
qed

lemma read_insert_inv:
  assumes "kinv k []" "pid < length (k_procs k)" "\<forall>h \<in> set hs. \<forall>e. handle_ep h = Some e \<longrightarrow> e \<in> Range (edges k)"
    "read_insert ok k pid hs vs = (r, vs', k')"
  shows "kinv k' [] \<and> k_chans k' = k_chans k \<and> length (k_procs k') = length (k_procs k)"
  using assms
proof (induction hs arbitrary: k vs)
  case (Cons h hs)
  have "kinv k [DropHandle h]" using Cons.prems(3) by (intro kinv_hold [OF Cons.prems(1)]) (auto simp: refs_def)
  obtain r1 k1 where ins: "insert_into (ok (length vs)) k pid h = (r1, k1)" by fastforce
  note j = insert_into_inv [OF \<open>kinv k [DropHandle h]\<close> Cons.prems(2) ins]
  have e: "edges k1 = edges k" using edges_chans [of k1 k] j(2) by simp
  show ?case
  proof (cases r1)
    case (Inl x)
    obtain er h' where x: "x = (er, h')" by (cases x)
    then have "kinv k1 [DropHandle h]" "k' = k1" using j(3) Inl ins Cons.prems(4) by simp_all
    moreover have "kinv k1 []"
    proof (rule skip_inv [OF \<open>kinv k1 [DropHandle h]\<close>])
      fix e assume "handle_ep h = Some e"
      then have "e \<in> Range (edges k1)" using Cons.prems(3) e by (metis list.set_intros(1))
      then show "endpoint_held k1 [] e" by (simp add: endpoint_held_refs refs_def)
    qed
    ultimately show ?thesis using j(1,2) by simp
  next
    case (Inr v)
    then have "kinv k1 []" "read_insert ok k1 pid hs (vs @ [v]) = (r, vs', k')" using j(3) ins Cons.prems(4) by simp_all
    moreover have "pid < length (k_procs k1)" using j(1) Cons.prems(2) by simp
    moreover have "\<forall>h \<in> set hs. \<forall>e. handle_ep h = Some e \<longrightarrow> e \<in> Range (edges k1)" using Cons.prems(3) e by simp
    ultimately show ?thesis using Cons.IH [of k1 "vs @ [v]"] j(1,2) by simp
  qed
qed simp

lemma channel_read_inv:
  assumes inv: "kinv k []" and pid: "pid < length (k_procs k)"
  shows "kinv (snd (channel_read ok wr k pid v bytes cap handles hcap)) []"
proof (cases "typed k pid v R_READ as_channel")
  case (Inr ep)
  obtain c s where ep: "ep = (c, s)" by (cases ep)
  have o: "c < length (k_chans k)" "s < 2" using typed_channel_open [OF inv pid] Inr ep by simp_all
  show ?thesis
  proof (cases "ch_queues (k_chans k ! c) s")
    case (Cons m rest)
    have eps: "\<forall>h \<in> set (msg_handles m). \<forall>e. handle_ep h = Some e \<longrightarrow> e \<in> Range (edges k)"
    proof (intro ballI allI impI)
      fix h e assume "h \<in> set (msg_handles m)" "handle_ep h = Some e"
      then have "e \<in> set (handle_eps (queue_handles (k_chans k ! c) s))"
        using Cons by (auto simp: queue_handles_def set_handle_eps)
      then have "((c, s), e) \<in> edges k" using o by (simp add: edges_def)
      then show "e \<in> Range (edges k)" by blast
    qed
    obtain r vs k1 where ins: "read_insert ok k pid (msg_handles m) [] = (r, vs, k1)" by (metis prod.exhaust)
    note j = read_insert_inv [OF inv pid eps ins]
    have undone: "kinv (remove_all k1 pid vs) []" using j pid by (intro remove_all_inv) simp_all
    have pop: "kinv (drop_items (message_items m) (k1\<lparr>k_chans := (k_chans k1)[c := ch_pop (k_chans k1 ! c) s]\<rparr>)) []"
      using pop_inv [of k1 "[]" c s m rest] j o Cons by (intro drop_items_inv) simp
    show ?thesis
      using inv undone pop Inr ep Cons ins
      by (simp add: channel_read_def Let_def split: sum.split option.split)
  qed (use inv Inr ep in \<open>simp add: channel_read_def\<close>)
qed (use inv in \<open>simp add: channel_read_def\<close>)

lemma resource_narrow_inv:
  assumes inv: "kinv k []" and pid: "pid < length (k_procs k)"
  shows "kinv (snd (resource_narrow ok k pid v base len)) []"
proof (cases "lookup k pid v R_NONE")
  case (Inr handle)
  show ?thesis
  proof (cases "\<exists>r. h_object handle = Obj_Resource r")
    case True
    then obtain r where r: "h_object handle = Obj_Resource r" by blast
    define payer where "payer = p_account (k_procs k ! pid)"
    obtain u k1 where c: "charge_new k payer charge_OBJECT = (u, k1)" by fastforce
    let ?h = "\<lparr>h_object = Obj_Resource \<lparr>res_kind = res_kind r, res_start = base, res_end = wadd base len\<rparr>,
        h_rights = h_rights handle\<rparr>"
    have i1: "kinv k1 []" using charge_new_inv [OF inv c] .
    moreover have "kinv k1 [DropHandle ?h]" using i1 by (intro kinv_hold) (simp_all add: handle_ep_def)
    then have "kinv (snd (process_insert ok k1 pid ?h)) []"
      using process_insert_inv pid charge_new_fields [OF c] by simp
    moreover obtain x k2 where "process_insert ok k1 pid ?h = (x, k2)" by fastforce
    ultimately show ?thesis
      using inv c [unfolded payer_def] Inr r by (simp add: resource_narrow_def Let_def del: wadd_exact split: sum.split)
  next
    case False
    then have "snd (resource_narrow ok k pid v base len) = k"
      using Inr by (simp add: resource_narrow_def split: Object.split)
    then show ?thesis using inv by simp
  qed
qed (use inv in \<open>simp add: resource_narrow_def\<close>)

lemma named_check_ok:
  "named_check t seen specs = Inr () \<Longrightarrow>
    distinct (map fst specs) \<and> fst ` set specs \<inter> fst ` set seen = {} \<and>
    (\<forall>v \<in> set (map fst specs). \<exists>h. HandleTable_get t v = Inr h)"
proof (induction specs arbitrary: seen)
  case (Cons sp specs)
  obtain v name where sp: "sp = (v, name)" by (cases sp)
  obtain h where h: "HandleTable_get t v = Inr h" "named_check t (seen @ [(v, name)]) specs = Inr ()"
      "\<not> (\<exists>(v', n') \<in> set seen. v' = v \<or> n' = name)"
    using Cons.prems sp by (auto simp: andthen_Inr split: if_splits)
  have "v \<notin> fst ` set seen" using h(3) by force
  then show ?case using Cons.IH [OF h(2)] h(1) sp by auto
qed simp

lemma take_named_inv:
  assumes inv: "kinv k []" and pid: "pid < length (k_procs k)" and take: "take_named rd k pid entries n = (r, k')"
  shows "length (k_procs k') = length (k_procs k) \<and>
    (case r of Inl e \<Rightarrow> k' = k | Inr moved \<Rightarrow> kinv k' (map DropHandle (map fst moved)))"
proof (cases "andthen (rd entries (n * start_entry_SIZE)) (\<lambda>bytes. named_specs bytes [0..<n])")
  case (Inl e)
  then show ?thesis using inv take by (auto simp: take_named_def)
next
  case specs: (Inr specs)
  show ?thesis
  proof (cases "named_check (table_of k pid) [] specs")
    case (Inl e)
    then show ?thesis using inv take specs by (auto simp: take_named_def)
  next
    case (Inr u)
    obtain r1 hs t where t1: "take_all (table_of k pid) (map fst specs) = (r1, hs, t)" by (metis prod.exhaust)
    have ok: "distinct (map fst specs)" "\<forall>v \<in> set (map fst specs). \<exists>h. HandleTable_get (table_of k pid) v = Inr h"
      using named_check_ok Inr by simp_all
    note t = take_all_inv [OF inv pid ok t1]
    have "length hs = length specs" using arg_cong [OF t(2), of length] by simp
    then have "map fst (zip hs (map snd specs)) = hs" by simp
    moreover have "r = Inr (zip hs (map snd specs))" "k' = set_table k pid t"
      using take specs Inr t1 t(1) by (simp_all add: take_named_def)
    ultimately show ?thesis using t(3) by simp
  qed
qed

lemma start_insert_inv:
  assumes "kinv k (map DropHandle hs)" "child < length (k_procs k)"
  shows "kinv (snd (start_insert ok k child hs vs)) [] \<and>
    length (k_procs (snd (start_insert ok k child hs vs))) = length (k_procs k)"
  using assms
proof (induction hs arbitrary: k vs)
  case (Cons h hs)
  obtain r1 k1 where ins: "insert_into (ok (length vs)) k child h = (r1, k1)" by fastforce
  have "kinv k (DropHandle h # map DropHandle hs)" using Cons.prems(1) by simp
  note j = insert_into_inv [OF this Cons.prems(2) ins]
  show ?case
  proof (cases r1)
    case (Inl x)
    then show ?thesis using j ins drop_items_inv by (cases x) simp
  next
    case (Inr v)
    then show ?thesis using Cons.IH [of k1 "vs @ [v]"] Cons.prems(2) j ins by simp
  qed
qed simp

lemma grant_to_inv:
  assumes inv: "kinv k (map DropHandle hs)" and child: "child < length (k_procs k)"
  shows "kinv (snd (process_grant_to ok mapped k child hs)) []"
proof -
  define p where "p = k_procs k ! child"
  let ?k = "set_proc k child (p\<lparr>p_granted := True\<rparr>)"
  have "kinv ?k (map DropHandle hs)"
    using child by (intro kinv_same_tables [OF inv]) (simp_all add: table_of_def p_def)
  then have "kinv (snd (start_insert ok ?k child hs [])) []" using start_insert_inv child by simp
  moreover obtain r k1 where "start_insert ok ?k child hs [] = (r, k1)" by fastforce
  ultimately show ?thesis
    using drop_items_inv [OF inv] by (simp add: process_grant_to_def Let_def split: sum.split flip: p_def)
qed

text \<open>Every handle to a process names one.\<close>

definition all_handles :: "Kernel \<Rightarrow> Handle set" where
  "all_handles k = set (kernel_handles k)"

definition procs_known :: "Kernel \<Rightarrow> bool" where
  "procs_known k \<longleftrightarrow> (\<forall>h \<in> all_handles k. \<forall>q. h_object h = Obj_Process q \<longrightarrow> q < length (k_procs k))"

lemma table_in_all: "pid < length (k_procs k) \<Longrightarrow> set (table_handles (table_of k pid)) \<subseteq> all_handles k"
  by (auto simp: all_handles_def kernel_handles_def table_of_def)

lemma as_process_Inr: "as_process h = Inr q \<longleftrightarrow> h_object h = Obj_Process q"
  by (auto simp: as_process_def split: Object.splits)

lemma process_grant_inv:
  assumes inv: "kinv k []" and pid: "pid < length (k_procs k)" and known: "procs_known k"
  shows "kinv (snd (process_grant rd ok mapped k pid process entries n)) []"
proof (cases "typed k pid process R_WRITE as_process")
  case (Inr child)
  obtain h where "h \<in> set (table_handles (table_of k pid))" "h_object h = Obj_Process child"
    using Inr by (rule typed_Inr) (simp add: as_process_Inr)
  then have child: "child < length (k_procs k)"
    using known table_in_all [OF pid] by (auto simp: procs_known_def)
  obtain r k1 where take: "take_named rd k pid entries n = (r, k1)" by fastforce
  note t = take_named_inv [OF inv pid take]
  show ?thesis
  proof (cases r)
    case (Inl e)
    then show ?thesis using inv Inr take t by (simp add: process_grant_def)
  next
    case moved: (Inr moved)
    have "kinv (snd (process_grant_to ok mapped k1 child (map fst moved))) []"
      using t moved child by (intro grant_to_inv) simp_all
    moreover obtain x k2 where "process_grant_to ok mapped k1 child (map fst moved) = (x, k2)" by fastforce
    ultimately show ?thesis
      using inv Inr take moved by (simp add: process_grant_def split: sum.split)
  qed
qed (use inv in \<open>simp add: process_grant_def\<close>)

lemma drain_handles_inv:
  assumes inv: "kinv k []" and pid: "pid < length (k_procs k)"
  shows "kinv (drain_handles k pid) []"
proof -
  obtain hs t where d: "HandleTable_drain (table_of k pid) = (hs, t)" by fastforce
  have "hs = table_handles (table_of k pid)" "table_handles t = []"
    using fst_drain [of "table_of k pid"] table_handles_drain [of "table_of k pid"] d by simp_all
  moreover have "HandleTable_inv t" using drain_inv [OF table_inv [OF inv pid]] d by simp
  ultimately have "kinv (set_table k pid t) (map DropHandle hs)"
    by (intro kinv_set_table [OF inv pid]) simp_all
  then show ?thesis using d by (simp add: drain_handles_def drop_items_inv)
qed

end
