(* ===== verification/Caps.thy ===== *)
theory Caps
  imports CallsInv
begin

unbundle bit_operations_syntax

text \<open>
  The system the calls of \<open>Calls\<close> make up: any process makes any of them at any time, or ends. What
  holds in every state of it, and what one call does.
\<close>

subsection \<open>Where handles come from\<close>

lemma all_handles_split:
  "all_handles k = (\<Union>p \<in> set (k_procs k). set (table_handles (p_handles p))) \<union>
    (\<Union>ch \<in> set (k_chans k). set (queue_handles ch 0) \<union> set (queue_handles ch 1))"
  by (auto simp: all_handles_def kernel_handles_def)

lemma all_handles_nth:
  "all_handles k = (\<Union>i < length (k_procs k). set (table_handles (table_of k i))) \<union>
    (\<Union>ch \<in> set (k_chans k). set (queue_handles ch 0) \<union> set (queue_handles ch 1))"
proof -
  have "set (k_procs k) = (\<lambda>i. k_procs k ! i) ` {..<length (k_procs k)}" by (auto simp: set_conv_nth)
  then show ?thesis by (simp add: all_handles_split table_of_def)
qed

lemma all_handles_cong:
  "k_chans k' = k_chans k \<Longrightarrow> length (k_procs k') = length (k_procs k) \<Longrightarrow>
    (\<And>i. table_of k' i = table_of k i) \<Longrightarrow> all_handles k' = all_handles k"
  by (simp add: all_handles_nth)

lemma all_handles_charge [simp]: "all_handles (charge_drop k c) = all_handles k"
  by (rule all_handles_cong) (simp_all add: table_of_def)

lemma all_handles_charge_new: "charge_new k a n = (r, k') \<Longrightarrow> all_handles k' = all_handles k"
  using charge_new_fields [of k a n r k'] by (intro all_handles_cong) (simp_all add: table_of_def)

lemma all_handles_set_table: "all_handles (set_table k pid t) \<subseteq> all_handles k \<union> set (table_handles t)"
  using set_update_subset_insert [of "k_procs k" pid "(k_procs k ! pid)\<lparr>p_handles := t\<rparr>"]
  by (auto simp: all_handles_split set_table_def set_proc_def)

lemma all_handles_chan:
  "all_handles (k\<lparr>k_chans := (k_chans k)[c := ch]\<rparr>) \<subseteq>
    all_handles k \<union> set (queue_handles ch 0) \<union> set (queue_handles ch 1)"
  using set_update_subset_insert [of "k_chans k" c ch] by (auto simp: all_handles_split)

lemma queue_in_all: "c < length (k_chans k) \<Longrightarrow> s < 2 \<Longrightarrow> set (queue_handles (k_chans k ! c) s) \<subseteq> all_handles k"
  using side_cases [of s] nth_mem [of c "k_chans k"] by (auto simp: all_handles_split)

lemma drop_items_handles: "all_handles (drop_items ws k) \<subseteq> all_handles k"
proof (induction ws k rule: drop_items.induct)
  case (3 h ws k)
  show ?case
  proof (cases "handle_ep h")
    case None
    then show ?thesis using 3(1) by (simp add: drop_items.simps)
  next
    case (Some e)
    obtain c s where e: "e = (c, s)" by (cases e)
    show ?thesis
    proof (cases "endpoint_held k ws (c, s) \<or> \<not> (c < length (k_chans k) \<and> s < 2 \<and> ch_open (k_chans k ! c) s)")
      case True
      then show ?thesis using 3(2) [OF Some e [symmetric]] Some e by (simp add: drop_items.simps)
    next
      case False
      obtain queued ch where d: "Endpoint_drop (k_chans k ! c) s = (queued, ch)" by fastforce
      have q: "set (queue_handles ch t) \<subseteq> all_handles k" if "t < 2" for t
        using queue_handles_changed(1) [of "k_chans k ! c" s t] d queue_in_all [of c k t] False that by auto
      have "all_handles (k\<lparr>k_chans := (k_chans k)[c := ch]\<rparr>) \<subseteq> all_handles k"
        using all_handles_chan [of k c ch] q [of 0] q [of 1] by auto
      then show ?thesis
        using 3(3) [OF Some e [symmetric] False d [symmetric]] False d Some e by (simp add: drop_items.simps)
    qed
  qed
qed simp_all

lemma insert_into_handles:
  assumes pid: "pid < length (k_procs k)" and inv: "HandleTable_inv (table_of k pid)"
    and ins: "insert_into ok k pid h = (r, k')"
  shows "all_handles k' \<subseteq> insert h (all_handles k)"
  using pid ins
proof (cases rule: insert_into_cases)
  case (stored v k1 t)
  have "all_handles k1 = all_handles k" using stored(4-6) by (rule all_handles_cong)
  moreover have "set (table_handles t) \<subseteq> insert h (all_handles k)"
    using table_handles_insert [OF inv stored(2)] table_in_all [OF pid] by auto
  ultimately show ?thesis using all_handles_set_table [of k1 pid t] stored(3) by auto
next
  case (refused e)
  then have "all_handles k' = all_handles k" by (intro all_handles_cong)
  then show ?thesis by auto
qed

lemma process_insert_handles:
  assumes "pid < length (k_procs k)" "HandleTable_inv (table_of k pid)"
  shows "all_handles (snd (process_insert ok k pid h)) \<subseteq> insert h (all_handles k)"
proof -
  obtain r k' where ins: "insert_into ok k pid h = (r, k')" by fastforce
  have "all_handles k' \<subseteq> insert h (all_handles k)" by (rule insert_into_handles [OF assms ins])
  then have "all_handles (snd (process_insert ok k pid h)) \<subseteq> insert h (all_handles k)" if "r = Inl x" for x
    using that ins drop_items_handles [of "[DropHandle (snd x)]" k'] by (cases x) (auto simp: process_insert_def)
  then show ?thesis using \<open>all_handles k' \<subseteq> _\<close> ins by (cases r) (simp_all add: process_insert_def)
qed

lemma remove_handles:
  "set (table_handles (snd (HandleTable_remove t v))) \<subseteq> set (table_handles t)" if "HandleTable_inv t"
  using table_handles_remove [OF that, of v] ht.rem_refused [of t v] by (cases "HandleTable_get t v") auto

lemma take_all_handles:
  assumes "HandleTable_inv t" "distinct vs" "\<forall>v \<in> set vs. \<exists>h. HandleTable_get t v = Inr h" "take_all t vs = (r, hs, t')"
  shows "set hs \<subseteq> set (table_handles t)" "set (table_handles t') \<subseteq> set (table_handles t)"
  using take_all_ok [OF assms(1-3)] assms(4) by auto

lemma handle_close_handles:
  assumes "kinv k []" "pid < length (k_procs k)"
  shows "all_handles (snd (handle_close k pid v)) \<subseteq> all_handles k"
proof -
  have *: "all_handles (drop_items [DropHandle h] (set_table k pid t)) \<subseteq> all_handles k"
    if "HandleTable_remove (table_of k pid) w = (r, t)" for h w r t
    using remove_handles [OF table_inv [OF assms], of w] that drop_items_handles [of "[DropHandle h]" "set_table k pid t"]
      all_handles_set_table [of k pid t] table_in_all [OF assms(2)] by auto
  show ?thesis
  proof (cases "raw v")
    case (Inr w)
    obtain r t where r: "HandleTable_remove (table_of k pid) w = (r, t)" by fastforce
    then show ?thesis using Inr * [OF r] by (cases r) (simp_all add: handle_close_def)
  qed (simp add: handle_close_def)
qed

lemma remove_all_handles:
  "kinv k [] \<Longrightarrow> pid < length (k_procs k) \<Longrightarrow> all_handles (remove_all k pid vs) \<subseteq> all_handles k"
proof (induction vs arbitrary: k)
  case (Cons v vs)
  obtain r t where r: "HandleTable_remove (table_of k pid) v = (r, t)" by fastforce
  show ?case
  proof (cases r)
    case (Inl e)
    then show ?thesis using Cons r by simp
  next
    case (Inr h)
    have h: "HandleTable_get (table_of k pid) v = Inr h"
      using r Inr ht.rem_refused [of "table_of k pid" v] ht.rem_ok [OF table_inv [OF Cons.prems] _ r]
      by (cases "HandleTable_get (table_of k pid) v") auto
    let ?k = "drop_items [DropHandle h] (set_table k pid t)"
    have "kinv ?k []" using remove_inv_k [OF Cons.prems h] r by (intro drop_items_inv) simp
    moreover have "all_handles ?k \<subseteq> all_handles k"
      using remove_handles [OF table_inv [OF Cons.prems], of v] r drop_items_handles [of "[DropHandle h]" "set_table k pid t"]
        all_handles_set_table [of k pid t] table_in_all [OF Cons.prems(2)] by auto
    ultimately show ?thesis using Cons.IH [of ?k] Cons.prems(2) r Inr by auto
  qed
qed simp

lemma write_locked_handles:
  assumes inv: "kinv k []" and pid: "pid < length (k_procs k)" and ep: "c < length (k_chans k)" "s < 2"
    and chk: "write_check mem (table_of k pid) c [] vs = Inr carried"
  shows "all_handles (snd (write_locked moved_ok k pid (c, s) charge payload vs carried)) \<subseteq> all_handles k"
proof -
  note w = write_check_ok [OF chk]
  obtain r hs t where take: "take_all (table_of k pid) vs = (r, hs, t)" by (metis prod.exhaust)
  have d: "distinct vs" "\<forall>v \<in> set vs. \<exists>h. HandleTable_get (table_of k pid) v = Inr h" using w by simp_all
  note h = take_all_handles [OF table_inv [OF inv pid] d take]
  have r: "r = None" using take_all_inv(1) [OF inv pid d take] .
  let ?ch = "if carried = [] then k_chans k ! c else carry (k_chans k ! c) (Endpoint_peer s) (length carried)"
  let ?m = "\<lparr>msg_bytes = payload, msg_handles = hs, msg_endpoints = length carried, msg_charge = Some charge\<rparr>"
  let ?k = "(set_table k pid t)\<lparr>k_chans := (k_chans (set_table k pid t))[c := ch_push ?ch (Endpoint_peer s) ?m]\<rparr>"
  have tab: "all_handles (set_table k pid t) \<subseteq> all_handles k"
    using all_handles_set_table [of k pid t] h(2) table_in_all [OF pid] by auto
  have "set (queue_handles (ch_push ?ch (Endpoint_peer s) ?m) t') \<subseteq> all_handles k" if "t' < 2" for t'
    using h(1) table_in_all [OF pid] queue_in_all [OF ep(1) that] queue_in_all [OF ep(1), of "Endpoint_peer s"]
    by (auto simp: Endpoint_peer_def)
  from this [of 0] this [of 1] have "all_handles ?k \<subseteq> all_handles k"
    using all_handles_chan [of "set_table k pid t" c "ch_push ?ch (Endpoint_peer s) ?m"] tab by auto
  moreover have "snd (write_locked moved_ok k pid (c, s) charge payload vs carried) \<in> {charge_drop k charge, ?k}"
    using take r by (auto simp: write_locked_def Let_def)
  ultimately show ?thesis by auto
qed

lemma channel_write_handles:
  assumes inv: "kinv k []" and pid: "pid < length (k_procs k)"
  shows "all_handles (snd (channel_write mem moved_ok rd k pid v bytes nbytes handles nhandles)) \<subseteq> all_handles k"
proof -
  define payer where "payer = p_account (k_procs k ! pid)"
  define cost where "cost = Message_cost nbytes nhandles"
  obtain r k1 where c: "charge_new k payer cost = (r, k1)" by fastforce
  note i1 = charge_new_inv [OF inv c] and f = charge_new_fields [OF c] and a1 = all_handles_charge_new [OF c]
  show ?thesis
  proof (cases "typed k pid v R_WRITE as_channel")
    case (Inr ep)
    obtain ch s where ep: "ep = (ch, s)" by (cases ep)
    have o: "ch < length (k_chans k1)" "s < 2" and p1: "pid < length (k_procs k1)"
      using typed_channel_open [OF inv pid] Inr ep f pid by simp_all
    note w = write_locked_handles [OF i1 p1 o]
    show ?thesis
      using c [unfolded payer_def cost_def] Inr ep a1 w by (auto simp: channel_write_def Let_def split: sum.split)
  qed (simp add: channel_write_def)
qed

lemma read_insert_handles:
  assumes "kinv k []" "pid < length (k_procs k)" "\<forall>h \<in> set hs. \<forall>e. handle_ep h = Some e \<longrightarrow> e \<in> Range (edges k)"
    "read_insert ok k pid hs vs = (r, vs', k')" "set hs \<subseteq> all_handles k"
  shows "all_handles k' \<subseteq> all_handles k"
  using assms
proof (induction hs arbitrary: k vs)
  case (Cons h hs)
  obtain r1 k1 where ins: "insert_into (ok (length vs)) k pid h = (r1, k1)" by fastforce
  have a1: "all_handles k1 \<subseteq> all_handles k"
    using insert_into_handles [OF Cons.prems(2) table_inv [OF Cons.prems(1,2)] ins] Cons.prems(5) by auto
  have "kinv k [DropHandle h]" using Cons.prems(3) by (intro kinv_hold [OF Cons.prems(1)]) (auto simp: refs_def)
  note j = insert_into_inv [OF this Cons.prems(2) ins]
  have e: "edges k1 = edges k" using edges_chans [of k1 k] j(2) by simp
  show ?case
  proof (cases r1)
    case (Inl x)
    then show ?thesis using a1 ins Cons.prems(4) by (cases x) simp
  next
    case (Inr v)
    have "all_handles k \<subseteq> all_handles k1"
      using Cons.prems(2) ins
    proof (cases rule: insert_into_cases)
      case (stored v' k2 t)
      have t: "set (table_handles (table_of k pid)) \<subseteq> set (table_handles t)"
        using table_handles_insert [OF table_inv [OF Cons.prems(1,2)] stored(2)] by auto
      have "k_chans k1 = k_chans k" by (rule j(2))
      moreover have "set (table_handles (table_of k i)) \<subseteq> set (table_handles (table_of k1 i))" for i
        using t stored(3,5,6) Cons.prems(2) by (cases "i = pid") simp_all
      ultimately show ?thesis
        using j(1) unfolding all_handles_nth by (intro Un_mono UN_mono) simp_all
    next
      case (refused e')
      then show ?thesis using Inr by simp
    qed
    then have "set hs \<subseteq> all_handles k1" using Cons.prems(5) by auto
    then have "all_handles k' \<subseteq> all_handles k1"
      using Cons.IH [of k1 "vs @ [v]"] Cons.prems(2,3,4) j ins Inr e by simp
    then show ?thesis using a1 by blast
  qed
qed simp

lemma queue_eps_edges:
  assumes "c < length (k_chans k)" "s < 2" "h \<in> set (queue_handles (k_chans k ! c) s)" "handle_ep h = Some e"
  shows "e \<in> Range (edges k)"
proof -
  have "e \<in> set (handle_eps (queue_handles (k_chans k ! c) s))" using assms(3,4) by (auto simp: set_handle_eps)
  then have "((c, s), e) \<in> edges k" using assms(1,2) by (simp add: edges_def)
  then show ?thesis by blast
qed

lemma channel_read_handles:
  assumes inv: "kinv k []" and pid: "pid < length (k_procs k)"
  shows "all_handles (snd (channel_read ok wr k pid v bytes cap handles hcap)) \<subseteq> all_handles k"
proof (cases "typed k pid v R_READ as_channel")
  case (Inr ep)
  obtain c s where ep: "ep = (c, s)" by (cases ep)
  have o: "c < length (k_chans k)" "s < 2" using typed_channel_open [OF inv pid] Inr ep by simp_all
  show ?thesis
  proof (cases "ch_queues (k_chans k ! c) s")
    case (Cons m rest)
    have m: "set (msg_handles m) \<subseteq> set (queue_handles (k_chans k ! c) s)" using Cons by (auto simp: queue_handles_def)
    have eps: "\<forall>h \<in> set (msg_handles m). \<forall>e. handle_ep h = Some e \<longrightarrow> e \<in> Range (edges k)"
      using queue_eps_edges [OF o] m by blast
    obtain r vs k1 where ins: "read_insert ok k pid (msg_handles m) [] = (r, vs, k1)" by (metis prod.exhaust)
    note j = read_insert_inv [OF inv pid eps ins]
    have a1: "all_handles k1 \<subseteq> all_handles k"
      using read_insert_handles [OF inv pid eps ins] m queue_in_all [OF o] by blast
    have undone: "all_handles (remove_all k1 pid vs) \<subseteq> all_handles k"
      using remove_all_handles [of k1 pid vs] j pid a1 by auto
    let ?k = "k1\<lparr>k_chans := (k_chans k1)[c := ch_pop (k_chans k1 ! c) s]\<rparr>"
    have "set (queue_handles (ch_pop (k_chans k1 ! c) s) t) \<subseteq> all_handles k" if "t < 2" for t
      using queue_handles_pop [of "k_chans k ! c" s m rest t] Cons queue_in_all [OF o(1) that] j by (auto split: if_splits)
    from this [of 0] this [of 1] have "all_handles ?k \<subseteq> all_handles k"
      using all_handles_chan [of k1 c "ch_pop (k_chans k1 ! c) s"] a1 by auto
    then have "all_handles (drop_items (message_items m) ?k) \<subseteq> all_handles k"
      using drop_items_handles [of "message_items m" ?k] by auto
    then show ?thesis
      using undone Inr ep Cons ins
      by (simp add: channel_read_def Let_def split: sum.split option.split)
  qed (use Inr ep in \<open>simp add: channel_read_def\<close>)
qed (simp add: channel_read_def)

lemma start_insert_handles:
  assumes "kinv k (map DropHandle hs)" "child < length (k_procs k)"
  shows "all_handles (snd (start_insert ok k child hs vs)) \<subseteq> all_handles k \<union> set hs"
  using assms
proof (induction hs arbitrary: k vs)
  case (Cons h hs)
  obtain r1 k1 where ins: "insert_into (ok (length vs)) k child h = (r1, k1)" by fastforce
  have k: "kinv k (DropHandle h # map DropHandle hs)" using Cons.prems(1) by simp
  note j = insert_into_inv [OF this Cons.prems(2) ins]
  have a1: "all_handles k1 \<subseteq> insert h (all_handles k)"
    by (rule insert_into_handles [OF Cons.prems(2) table_inv [OF k Cons.prems(2)] ins])
  show ?case
  proof (cases r1)
    case (Inl x)
    then show ?thesis
      using a1 ins drop_items_handles [of "DropHandle (snd x) # map DropHandle hs" k1] by (cases x) auto
  next
    case (Inr v)
    then show ?thesis using Cons.IH [of k1 "vs @ [v]"] Cons.prems(2) j ins a1 by auto
  qed
qed simp

lemma take_named_handles:
  assumes inv: "kinv k []" and pid: "pid < length (k_procs k)" and take: "take_named rd k pid entries n = (r, k')"
  shows "all_handles k' \<union> (case r of Inl _ \<Rightarrow> {} | Inr moved \<Rightarrow> set (map fst moved)) \<subseteq> all_handles k"
proof (cases r)
  case (Inl e)
  then show ?thesis using take_named_inv [OF inv pid take] by simp
next
  case (Inr moved)
  then obtain specs where specs: "named_check (table_of k pid) [] specs = Inr ()"
      "take_named rd k pid entries n = (case take_all (table_of k pid) (map fst specs) of
         (Some e, moved, t) \<Rightarrow> (Inl e, drop_items (map DropHandle moved) (set_table k pid t))
       | (None, moved, t) \<Rightarrow> (Inr (zip moved (map snd specs)), set_table k pid t))"
    using take by (auto simp: take_named_def split: sum.splits)
  obtain r1 hs t where t1: "take_all (table_of k pid) (map fst specs) = (r1, hs, t)" by (metis prod.exhaust)
  have d: "distinct (map fst specs)" "\<forall>v \<in> set (map fst specs). \<exists>h. HandleTable_get (table_of k pid) v = Inr h"
    using named_check_ok specs(1) by simp_all
  note h = take_all_handles [OF table_inv [OF inv pid] d t1] and r1 = take_all_inv(1) [OF inv pid d t1]
  have k': "moved = zip hs (map snd specs)" "k' = set_table k pid t"
    using specs(2) t1 r1 take Inr by simp_all
  have "set (map fst moved) \<subseteq> set hs" unfolding k'(1) by (auto dest: set_zip_leftD)
  then show ?thesis
    using h table_in_all [OF pid] all_handles_set_table [of k pid t] k'(2) Inr by auto
qed

lemma grant_to_handles:
  assumes inv: "kinv k (map DropHandle hs)" and child: "child < length (k_procs k)"
  shows "all_handles (snd (process_grant_to ok mapped k child hs)) \<subseteq> all_handles k \<union> set hs"
proof -
  define p where "p = k_procs k ! child"
  let ?k = "set_proc k child (p\<lparr>p_granted := True\<rparr>)"
  have tab: "table_of ?k i = table_of k i" for i using child by (simp add: table_of_def p_def)
  have "kinv ?k (map DropHandle hs)" using tab by (intro kinv_same_tables [OF inv]) simp_all
  then have "all_handles (snd (start_insert ok ?k child hs [])) \<subseteq> all_handles ?k \<union> set hs"
    using start_insert_handles child by simp
  moreover have "all_handles ?k = all_handles k" using tab by (intro all_handles_cong) simp_all
  moreover obtain r k1 where "start_insert ok ?k child hs [] = (r, k1)" by fastforce
  ultimately show ?thesis
    using drop_items_handles [of "map DropHandle hs" k]
    by (auto simp: process_grant_to_def Let_def simp flip: p_def split: sum.split)
qed

lemma process_grant_handles:
  assumes inv: "kinv k []" and pid: "pid < length (k_procs k)" and known: "procs_known k"
  shows "all_handles (snd (process_grant rd ok mapped k pid process entries n)) \<subseteq> all_handles k"
proof (cases "typed k pid process R_WRITE as_process")
  case (Inr child)
  obtain h where "h \<in> set (table_handles (table_of k pid))" "h_object h = Obj_Process child"
    using Inr by (rule typed_Inr) (simp add: as_process_Inr)
  then have child: "child < length (k_procs k)"
    using known table_in_all [OF pid] by (auto simp: procs_known_def)
  obtain r k1 where take: "take_named rd k pid entries n = (r, k1)" by fastforce
  note t = take_named_inv [OF inv pid take]
  have a1: "all_handles k1 \<union> (case r of Inl _ \<Rightarrow> {} | Inr moved \<Rightarrow> set (map fst moved)) \<subseteq> all_handles k"
    by (rule take_named_handles [OF inv pid take])
  show ?thesis
  proof (cases r)
    case (Inl e)
    then show ?thesis using Inr take t by (simp add: process_grant_def)
  next
    case moved: (Inr moved)
    have i1: "kinv k1 (map DropHandle (map fst moved))" and c1: "child < length (k_procs k1)"
      using t moved child by simp_all
    have "all_handles (snd (process_grant_to ok mapped k1 child (map fst moved))) \<subseteq> all_handles k"
      using grant_to_handles [OF i1 c1, of ok mapped] a1 moved by auto
    moreover obtain x k2 where "process_grant_to ok mapped k1 child (map fst moved) = (x, k2)" by fastforce
    ultimately show ?thesis
      using Inr take moved by (simp add: process_grant_def split: sum.split)
  qed
qed (simp add: process_grant_def)

lemma drain_handles_handles: "all_handles (drain_handles k pid) \<subseteq> all_handles k"
proof -
  obtain hs t where d: "HandleTable_drain (table_of k pid) = (hs, t)" by fastforce
  have "table_handles t = []" using table_handles_drain [of "table_of k pid"] d by simp
  then have "all_handles (set_table k pid t) \<subseteq> all_handles k" using all_handles_set_table [of k pid t] by simp
  then show ?thesis
    using d drop_items_handles [of "map DropHandle hs" "set_table k pid t"] by (auto simp: drain_handles_def)
qed

lemma channel_create_handles:
  assumes inv: "kinv k []" and pid: "pid < length (k_procs k)"
  shows "all_handles (snd (channel_create ok1 ok2 k pid)) \<subseteq>
    all_handles k \<union> {Handle_new (Obj_Channel (length (k_chans k), 0)), Handle_new (Obj_Channel (length (k_chans k), 1))}"
proof -
  let ?c = "length (k_chans k)"
  define ha where "ha = Handle_new (Obj_Channel (?c, 0))"
  define hb where "hb = Handle_new (Obj_Channel (?c, 1))"
  obtain r k1 where make: "channel_make k (p_account (k_procs k ! pid)) = (r, k1)" by fastforce
  obtain u k0 where c: "charge_new k (p_account (k_procs k ! pid)) charge_CHANNEL = (u, k0)" by fastforce
  note f = charge_new_fields [OF c] and a0 = all_handles_charge_new [OF c]
  show ?thesis
  proof (cases r)
    case (Inl e)
    then have "k1 = k0" using make c by (auto simp: channel_make_def Let_def split: sum.splits)
    then show ?thesis using Inl make a0 by (auto simp: channel_create_def)
  next
    case (Inr ab)
    have m: "ab = ((?c, 0), (?c, 1))"
        "k1 = k0\<lparr>k_chans := k_chans k0 @ [channel_new (p_account (k_procs k ! pid), charge_CHANNEL)]\<rparr>"
      using make c Inr f by (auto simp: channel_make_def Let_def split: sum.splits)
    have a1: "all_handles k1 = all_handles k"
      using a0 by (simp add: m(2) all_handles_split queue_handles_def channel_new_def)
    have i1: "kinv k1 [DropHandle ha, DropHandle hb]" and p1: "pid < length (k_procs k1)"
      using make_inv [OF inv, of _ "(?c, 0)" "(?c, 1)" k1] make Inr m(1) pid by (simp_all add: ha_def hb_def)
    obtain r2 k2 where ins: "insert_into ok1 k1 pid ha = (r2, k2)" by fastforce
    note j = insert_into_inv [OF i1 p1 ins]
    have a2: "all_handles k2 \<subseteq> insert ha (all_handles k)"
      using insert_into_handles [OF p1 table_inv [OF i1 p1] ins] a1 by simp
    have p2: "pid < length (k_procs k2)" using j(1) p1 by simp
    obtain r3 k3 where ins2: "insert_into ok2 k2 pid hb = (r3, k3)" by fastforce
    have t2: "HandleTable_inv (table_of k2 pid)"
      using j(3) table_inv [OF _ p2] by (cases r2) auto
    have a3: "all_handles k3 \<subseteq> insert hb (insert ha (all_handles k))"
      using insert_into_handles [OF p2 t2 ins2] a2 by auto
    obtain w t where rem: "HandleTable_remove (table_of k3 pid) (projr r2) = (w, t)" by fastforce
    have p3: "pid < length (k_procs k3)" and t3: "HandleTable_inv (table_of k3 pid)"
    proof -
      have "length (k_procs k3) = length (k_procs k2) \<and> HandleTable_inv (table_of k3 pid)"
        using p2 ins2
      proof (cases rule: insert_into_cases)
        case (stored v k' t')
        then show ?thesis using insert_or_return_ok [OF t2 stored(2)] p2 by auto
      next
        case (refused e)
        then show ?thesis using t2 by simp
      qed
      then show "pid < length (k_procs k3)" "HandleTable_inv (table_of k3 pid)" using p2 by simp_all
    qed
    have a4: "all_handles (set_table k3 pid t) \<subseteq> insert hb (insert ha (all_handles k))"
      using all_handles_set_table [of k3 pid t] remove_handles [OF t3, of "projr r2"] rem a3 table_in_all [OF p3] by auto
    have dr: "all_handles (drop_items ws k') \<subseteq> insert hb (insert ha (all_handles k))"
      if "all_handles k' \<subseteq> insert hb (insert ha (all_handles k))" for ws k'
      using drop_items_handles [of ws k'] that by blast
    let ?S = "{drop_items [DropHandle hb, DropHandle ha] k1} \<union> (\<lambda>ws. drop_items ws k2) ` UNIV \<union> {k3} \<union>
        (\<lambda>ws. drop_items ws (set_table k3 pid t)) ` UNIV"
    have "snd (channel_create ok1 ok2 k pid) \<in> ?S"
      using make Inr m(1) ins ins2 rem
      by (auto simp: channel_create_def Let_def simp del: One_nat_def simp flip: ha_def hb_def split: sum.split prod.split)
    moreover have "all_handles k' \<subseteq> insert hb (insert ha (all_handles k))" if "k' \<in> ?S" for k'
    proof -
      have "all_handles k1 \<subseteq> insert hb (insert ha (all_handles k))" "all_handles k2 \<subseteq> insert hb (insert ha (all_handles k))"
        using a1 a2 by blast+
      note d = dr [OF this(1)] dr [OF this(2)] dr [OF a4]
      show ?thesis using that d a3 by (elim UnE imageE singletonE) simp_all
    qed
    ultimately show ?thesis by (auto simp: ha_def hb_def)
  qed
qed

subsection \<open>Authority\<close>

text \<open>
  A handle derives from another when it is to the same object, or to a resource of the same kind
  within the other's range, with no right the other has not.
\<close>

definition derives :: "Handle \<Rightarrow> Handle \<Rightarrow> bool" where
  "derives h' h \<longleftrightarrow> Rights_contains (h_rights h) (h_rights h') \<and>
     (h_object h' = h_object h \<or>
      (\<exists>r' r. h_object h' = Obj_Resource r' \<and> h_object h = Obj_Resource r \<and> res_kind r' = res_kind r \<and>
         res_start r \<le> res_start r' \<and> res_end r' \<le> res_end r))"

lemma derives_refl [simp]: "derives h h"
  by (simp add: derives_def Rights_contains_def)

lemma derives_trans:
  assumes "derives h1 h2" "derives h2 h3"
  shows "derives h1 h3"
proof -
  have "h_rights h3 AND h_rights h1 = (h_rights h3 AND h_rights h2) AND h_rights h1"
    using assms(1) by (simp add: derives_def Rights_contains_def and.assoc)
  then have "Rights_contains (h_rights h3) (h_rights h1)"
    using assms by (simp add: derives_def Rights_contains_def)
  then show ?thesis using assms by (auto simp: derives_def)
qed

definition derived :: "Handle set \<Rightarrow> Handle \<Rightarrow> bool" where
  "derived H h' \<longleftrightarrow> (\<exists>h \<in> H. derives h' h)"

lemma derived_refl: "h \<in> H \<Longrightarrow> derived H h"
  unfolding derived_def by (rule bexI [where x = h]) simp_all

lemma handle_duplicate_handles:
  assumes inv: "kinv k []" and pid: "pid < length (k_procs k)" and h: "h \<in> all_handles (snd (handle_duplicate ok k pid v rights))"
  shows "derived (all_handles k) h"
proof (cases "h \<in> all_handles k")
  case False
  obtain src r where s: "lookup k pid v R_DUPLICATE = Inr src" "Rights_contains (h_rights src) r"
      "h \<in> all_handles (snd (process_insert ok k pid \<lparr>h_object = h_object src, h_rights = r\<rparr>))"
    using h False by (auto simp: handle_duplicate_def split: sum.splits prod.splits if_splits)
  have "h = \<lparr>h_object = h_object src, h_rights = r\<rparr>"
    using process_insert_handles [OF pid table_inv [OF inv pid], of ok "\<lparr>h_object = h_object src, h_rights = r\<rparr>"] s(3) False by auto
  then have "derives h src" using s(2) by (simp add: derives_def)
  moreover have "src \<in> all_handles k" using lookup_Inr(1) [OF s(1)] table_in_all [OF pid] by blast
  ultimately show ?thesis by (auto simp: derived_def)
qed (rule derived_refl)

lemma resource_narrow_handles:
  assumes inv: "kinv k []" and pid: "pid < length (k_procs k)" and h: "h \<in> all_handles (snd (resource_narrow ok k pid v base len))"
  shows "derived (all_handles k) h"
proof (cases "h \<in> all_handles k")
  case False
  define payer where "payer = p_account (k_procs k ! pid)"
  obtain u k1 where c: "charge_new k payer charge_OBJECT = (u, k1)" by fastforce
  note a1 = all_handles_charge_new [OF c]
  obtain src r where s: "lookup k pid v R_NONE = Inr src" "h_object src = Obj_Resource r" "covers r base len"
      "h \<in> all_handles (snd (process_insert ok k1 pid
         \<lparr>h_object = Obj_Resource \<lparr>res_kind = res_kind r, res_start = base, res_end = wadd base len\<rparr>, h_rights = h_rights src\<rparr>))"
    using h False c [unfolded payer_def] a1
    by (auto simp: resource_narrow_def Let_def simp del: wadd_exact split: sum.splits prod.splits if_splits Object.splits)
  let ?h = "\<lparr>h_object = Obj_Resource \<lparr>res_kind = res_kind r, res_start = base, res_end = wadd base len\<rparr>, h_rights = h_rights src\<rparr>"
  have "pid < length (k_procs k1)" "HandleTable_inv (table_of k1 pid)"
    using pid charge_new_fields [OF c] table_inv [OF inv pid] by (simp_all add: table_of_def)
  then have "h = ?h" using process_insert_handles [of pid k1 ok ?h] s(4) False a1 by auto
  moreover have "res_start r \<le> base" "wadd base len \<le> res_end r"
    using s(3) by (auto simp: covers_def checked_add_def split: if_splits)
  ultimately have "derives h src" using s(2) by (simp add: derives_def Rights_contains_def)
  moreover have "src \<in> all_handles k" using lookup_Inr(1) [OF s(1)] table_in_all [OF pid] by blast
  ultimately show ?thesis by (auto simp: derived_def)
qed (rule derived_refl)

subsection \<open>The system\<close>

inductive call_step :: "Kernel \<Rightarrow> Kernel \<Rightarrow> bool" where
  close: "pid < length (k_procs k) \<Longrightarrow> call_step k (snd (handle_close k pid v))"
| duplicate: "pid < length (k_procs k) \<Longrightarrow> call_step k (snd (handle_duplicate ok k pid v rights))"
| create: "pid < length (k_procs k) \<Longrightarrow> call_step k (snd (channel_create ok1 ok2 k pid))"
| wr: "pid < length (k_procs k) \<Longrightarrow> reads_exactly rd \<Longrightarrow>
    call_step k (snd (channel_write mem moved_ok rd k pid v bytes nbytes handles nhandles))"
| read: "pid < length (k_procs k) \<Longrightarrow> call_step k (snd (channel_read oks wrt k pid v bytes cap handles hcap))"
| narrow: "pid < length (k_procs k) \<Longrightarrow> call_step k (snd (resource_narrow ok k pid v base len))"
| grant: "pid < length (k_procs k) \<Longrightarrow> reads_exactly rd \<Longrightarrow>
    call_step k (snd (process_grant rd oks mapped k pid process entries n))"
| ended: "pid < length (k_procs k) \<Longrightarrow> call_step k (drain_handles k pid)"

text \<open>At the start there is no channel, the tables are well formed and process handles name processes.\<close>

definition kernel_start :: "Kernel \<Rightarrow> bool" where
  "kernel_start k \<longleftrightarrow> k_chans k = [] \<and> procs_known k \<and>
     (\<forall>p \<in> set (k_procs k). HandleTable_inv (p_handles p) \<and> handle_eps (table_handles (p_handles p)) = [])"

definition kernel_good :: "Kernel \<Rightarrow> bool" where
  "kernel_good k \<longleftrightarrow> kinv k [] \<and> procs_known k"

lemma kernel_start_good:
  assumes "kernel_start k"
  shows "kernel_good k"
proof -
  have "edges k = {}" using assms by (auto simp: edges_def kernel_start_def)
  then show ?thesis
    using assms by (simp add: kernel_start_def kernel_good_def kinv_def refs_def open_eps_def table_eps_def
        acyclic_def)
qed

text \<open>The number of processes never changes and the channels never go away.\<close>

definition grows :: "Kernel \<Rightarrow> Kernel \<Rightarrow> bool" where
  "grows k k' \<longleftrightarrow> length (k_procs k') = length (k_procs k) \<and> length (k_chans k) \<le> length (k_chans k')"

lemma grows_simps [simp]:
  "grows k k" "grows k (charge_drop k c)" "grows k (set_table k pid t)" "grows k (set_proc k pid p)"
  "grows k (k\<lparr>k_chans := (k_chans k)[c' := ch]\<rparr>)"
  by (simp_all add: grows_def)

lemma grows_trans: "grows k1 k2 \<Longrightarrow> grows k2 k3 \<Longrightarrow> grows k1 k3"
  by (simp add: grows_def)

lemma grows_drop [simp]: "grows k (drop_items ws k)"
proof (induction ws k rule: drop_items.induct)
  case (2 c ws k)
  then show ?case by (simp add: grows_def)
next
  case (3 h ws k)
  show ?case
  proof (cases "handle_ep h")
    case None
    then show ?thesis using 3(1) by (simp add: drop_items.simps)
  next
    case (Some e)
    obtain c s where e: "e = (c, s)" by (cases e)
    obtain queued ch where d: "Endpoint_drop (k_chans k ! c) s = (queued, ch)" by fastforce
    show ?thesis
      using 3(2,3) [OF Some e [symmetric]] d Some e by (auto simp: drop_items.simps grows_def)
  qed
qed simp

lemma grows_drop_after: "grows k k' \<Longrightarrow> grows k (drop_items ws k')" "grows k k' \<Longrightarrow> grows k (set_table k' pid t)"
  "grows k k' \<Longrightarrow> grows k (charge_drop k' c)" "grows k k' \<Longrightarrow> grows k (k'\<lparr>k_chans := (k_chans k')[c' := ch]\<rparr>)"
  using grows_drop [of k' ws] by (simp_all add: grows_def)

lemma grows_insert: "pid < length (k_procs k) \<Longrightarrow> insert_into ok k pid h = (r, k') \<Longrightarrow> grows k k'"
  by (erule (1) insert_into_cases) (simp_all add: grows_def)

lemma grows_charge: "charge_new k a n = (r, k') \<Longrightarrow> grows k k'"
  using charge_new_fields [of k a n r k'] by (simp add: grows_def)

lemma grows_process_insert: "pid < length (k_procs k) \<Longrightarrow> process_insert ok k pid h = (r, k') \<Longrightarrow> grows k k'"
  using grows_insert [of pid k ok h] by (auto simp: process_insert_def grows_drop_after split: prod.splits sum.splits)

lemma grows_read_insert: "pid < length (k_procs k) \<Longrightarrow> read_insert ok k pid hs vs = (r, vs', k') \<Longrightarrow> grows k k'"
proof (induction hs arbitrary: k vs)
  case (Cons h hs)
  obtain r1 k1 where ins: "insert_into (ok (length vs)) k pid h = (r1, k1)" by fastforce
  have g: "grows k k1" using grows_insert [OF Cons.prems(1) ins] .
  show ?case
  proof (cases r1)
    case (Inl x)
    then show ?thesis using Cons.prems(2) ins g by (cases x) simp
  next
    case (Inr v)
    have "grows k1 k'" using Cons.IH [of k1 "vs @ [v]"] Cons.prems ins Inr g by (simp add: grows_def)
    then show ?thesis using g grows_trans by blast
  qed
qed simp

lemma grows_remove_all: "grows k k' \<Longrightarrow> grows k (remove_all k' pid vs)"
proof (induction vs arbitrary: k')
  case (Cons v vs)
  obtain r t where "HandleTable_remove (table_of k' pid) v = (r, t)" by fastforce
  then show ?case using Cons by (cases r) (simp_all add: grows_drop_after)
qed simp

lemma grows_start_insert: "child < length (k_procs k) \<Longrightarrow> start_insert ok k child hs vs = (r, k') \<Longrightarrow> grows k k'"
proof (induction hs arbitrary: k vs)
  case (Cons h hs)
  obtain r1 k1 where ins: "insert_into (ok (length vs)) k child h = (r1, k1)" by fastforce
  have g: "grows k k1" using grows_insert [OF Cons.prems(1) ins] .
  show ?case
  proof (cases r1)
    case (Inl x)
    then show ?thesis using Cons.prems(2) ins g by (cases x) (auto simp: grows_drop_after)
  next
    case (Inr v)
    have "grows k1 k'" using Cons.IH [of k1 "vs @ [v]"] Cons.prems ins Inr g by (simp add: grows_def)
    then show ?thesis using g grows_trans by blast
  qed
qed simp

lemma grows_write_locked: "grows k (snd (write_locked moved_ok k pid ep charge payload vs carried))"
proof -
  obtain r hs t where "take_all (table_of k pid) vs = (r, hs, t)" by (metis prod.exhaust)
  moreover obtain c s where "ep = (c, s)" by (cases ep)
  moreover have "grows k ((set_table k pid t)\<lparr>k_chans := (k_chans k)[c := ch]\<rparr>)" for ch by (simp add: grows_def)
  ultimately show ?thesis
    by (cases r) (simp_all add: write_locked_def Let_def grows_drop_after)
qed

lemma grows_take_named: "take_named rd k pid entries n = (r, k') \<Longrightarrow> grows k k'"
  by (auto simp: take_named_def grows_drop_after split: sum.splits prod.splits option.splits)

lemma grows_grant_to:
  assumes "child < length (k_procs k)"
  shows "grows k (snd (process_grant_to ok mapped k child hs))"
proof -
  define p where "p = k_procs k ! child"
  let ?k = "set_proc k child (p\<lparr>p_granted := True\<rparr>)"
  obtain r k1 where ins: "start_insert ok ?k child hs [] = (r, k1)" by fastforce
  have "grows ?k k1" using grows_start_insert [OF _ ins] assms by simp
  then have "grows k k1" using grows_trans [of k ?k k1] by simp
  then show ?thesis
    using ins by (simp add: process_grant_to_def Let_def split: sum.split flip: p_def)
qed

lemma call_step_grows:
  assumes "call_step k k'" "kernel_good k"
  shows "grows k k'"
  using assms
proof (cases rule: call_step.cases)
  case (close pid v)
  then show ?thesis by (auto simp: handle_close_def grows_drop_after split: sum.split prod.split)
next
  case (duplicate pid ok v rights)
  then show ?thesis
    by (auto simp: handle_duplicate_def intro: grows_process_insert split: sum.split prod.split)
next
  case (create pid ok1 ok2)
  have ins: "grows k k2" if "insert_into ok k1 pid h = (r, k2)" "grows k k1" for k1 k2 ok h r
    using grows_insert [OF _ that(1)] that(2) create(2) by (auto simp: grows_def)
  have mk: "grows k k1" if "channel_make k a = (r, k1)" for k1 a r
    using that charge_new_fields by (fastforce simp: channel_make_def Let_def grows_def split: sum.splits prod.splits)
  show ?thesis
    unfolding create(1) channel_create_def
    by (auto simp: Let_def intro!: grows_drop_after intro: ins mk split: sum.split prod.split)
      (blast intro: ins mk)+
next
  case (wr pid rd mem moved_ok v bytes nbytes handles nhandles)
  have w: "grows k (snd (write_locked moved_ok k1 pid ep charge payload vs carried))" if "grows k k1" for k1 ep charge payload vs carried
    using grows_trans [OF that grows_write_locked] .
  show ?thesis
    unfolding wr(1) channel_write_def
    by (auto simp: Let_def grows_drop_after w dest: grows_charge split: sum.split prod.split)
next
  case (read pid oks wrt v bytes cap handles hcap)
  have "grows k k1" if "read_insert oks k pid hs vs = (r, vs', k1)" for hs vs r vs' k1
    using grows_read_insert [OF read(2) that] .
  then show ?thesis
    unfolding read(1) channel_read_def
    by (auto simp: Let_def grows_drop_after grows_remove_all split: sum.split prod.split list.split option.split)
next
  case (narrow pid ok v base len)
  have "grows k k2" if "charge_new k a n = (u, k1)" "process_insert ok k1 pid h = (r, k2)" for a n u k1 h r k2
    using grows_charge [OF that(1)] grows_process_insert [OF _ that(2)] narrow(2) by (auto simp: grows_def)
  then show ?thesis
    unfolding narrow(1) resource_narrow_def
    by (auto simp: Let_def grows_drop_after dest: grows_charge split: sum.split prod.split Object.split)
next
  case (grant pid rd oks mapped process entries n)
  have "grows k (snd (process_grant_to oks mapped k1 child hs))"
    if ty: "typed k pid process R_WRITE as_process = Inr child" and tk: "take_named rd k pid entries n = (r, k1)" for child r k1 hs
  proof -
    obtain h where "h \<in> set (table_handles (table_of k pid))" "h_object h = Obj_Process child"
      using ty by (rule typed_Inr) (simp add: as_process_Inr)
    then have "child < length (k_procs k)"
      using assms(2) table_in_all [OF grant(2)] by (auto simp: procs_known_def kernel_good_def)
    then show ?thesis
      using grows_take_named [OF tk] grows_grant_to [of child k1 oks mapped hs] by (auto simp: grows_def)
  qed
  then show ?thesis
    unfolding grant(1) process_grant_def
    by (auto dest: grows_take_named split: sum.split prod.split) (metis snd_conv)+
next
  case (ended pid)
  then show ?thesis by (simp add: drain_handles_def grows_drop_after split: prod.split)
qed

lemma call_step_inv:
  assumes "call_step k k'" "kernel_good k"
  shows "kinv k' []"
  using assms(1)
proof cases
qed (use assms(2) in \<open>simp_all add: kernel_good_def handle_close_inv handle_duplicate_inv channel_create_inv
    channel_write_inv channel_read_inv resource_narrow_inv process_grant_inv drain_handles_inv\<close>)

text \<open>A handle of the next state derives from one of this state, or is an end of a channel made by the step.\<close>

lemma call_step_handles:
  assumes "call_step k k'" "kernel_good k" "h \<in> all_handles k'"
  shows "derived (all_handles k) h \<or>
    (\<exists>s. h = Handle_new (Obj_Channel (length (k_chans k), s)) \<and> length (k_chans k) < length (k_chans k'))"
  using assms(1)
proof cases
  case (create pid ok1 ok2)
  have i: "kinv k []" using assms(2) by (simp add: kernel_good_def)
  have "h \<in> all_handles k \<or> (\<exists>s. h = Handle_new (Obj_Channel (length (k_chans k), s)))"
    using channel_create_handles [OF i create(2), of ok1 ok2] assms(3) create(1) by auto
  moreover have "length (k_chans k) < length (k_chans k')" if "h = Handle_new (Obj_Channel (length (k_chans k), s))" for s
  proof -
    have "(length (k_chans k), s) \<in> set (handle_eps (kernel_handles k'))"
      using assms(3) by (auto simp: all_handles_def set_handle_eps that Handle_new_def handle_ep_def intro!: bexI [of _ h])
    then have "(length (k_chans k), s) \<in> refs k' []"
      using endpoint_held_refs [of k' "[]"] by (simp add: endpoint_held_def)
    then show ?thesis
      using kinvD(3) [OF call_step_inv [OF assms(1,2)]] by (auto simp: open_eps_def)
  qed
  ultimately show ?thesis using derived_refl by blast
qed (use assms(2,3) in \<open>simp_all add: kernel_good_def\<close>,
    (blast intro: derived_refl dest: subsetD [OF handle_close_handles] handle_duplicate_handles
      subsetD [OF channel_write_handles] subsetD [OF channel_read_handles] resource_narrow_handles
      subsetD [OF process_grant_handles] subsetD [OF drain_handles_handles])+)

lemma call_step_good:
  assumes "kernel_good k" "call_step k k'"
  shows "kernel_good k'"
proof -
  have "q < length (k_procs k')" if "h \<in> all_handles k'" "h_object h = Obj_Process q" for h q
  proof -
    have "derived (all_handles k) h" using call_step_handles [OF assms(2,1) that(1)] that(2) by (auto simp: Handle_new_def)
    then have "\<exists>h' \<in> all_handles k. h_object h' = Obj_Process q" using that(2) by (auto simp: derived_def derives_def)
    then show ?thesis
      using assms(1) call_step_grows [OF assms(2,1)] by (auto simp: kernel_good_def procs_known_def grows_def)
  qed
  then show ?thesis using call_step_inv [OF assms(2,1)] by (simp add: kernel_good_def procs_known_def)
qed

interpretation kcalls: transition_system kernel_start call_step kernel_good
  by unfold_locales (auto intro: kernel_start_good call_step_good)

end
