(* ===== verification/CallProps.thy ===== *)
theory CallProps
  imports Caps
begin

unbundle bit_operations_syntax

text \<open>
  What the calls on handles and channels guarantee, with a small run of them to apply it to: one
  process that makes two channels and sends an end of the second through the first.
\<close>

subsection \<open>A run\<close>

definition run_proc :: Process where
  "run_proc = \<lparr>p_handles = HandleTable_new 0, p_account = 0, p_table_charge = 0, p_life = Life_Running 1,
     p_exit = None, p_granted = False\<rparr>"

definition run_kernel :: Kernel where
  "run_kernel = \<lparr>k_procs = [run_proc], k_chans = [], k_accounts = (\<lambda>_. Ledger_new 1048576)\<rparr>"

definition ep_handle :: "nat \<Rightarrow> nat \<Rightarrow> Handle" where
  "ep_handle c s = Handle_new (Obj_Channel (c, s))"

definition run_table :: "Handle list \<Rightarrow> Handle HandleTable" where
  "run_table hs = \<lparr>slots = map (\<lambda>h. \<lparr>generation = 0, entry = Some h\<rparr>) hs, free = [], salt = 0, count = length hs\<rparr>"

definition run_state :: "Handle HandleTable \<Rightarrow> Channel list \<Rightarrow> u64 \<Rightarrow> Kernel" where
  "run_state t chs n = \<lparr>k_procs = [run_proc\<lparr>p_handles := t, p_table_charge := 6144\<rparr>], k_chans = chs,
     k_accounts = (\<lambda>_. Ledger_new 1048576)(0 := \<lparr>limit = 1048576, used = n, peak = n, reserved = 0\<rparr>)\<rparr>"

lemmas run_simps = run_kernel_def run_proc_def run_state_def run_table_def channel_create_def channel_make_def
  charge_new_def ledger_charge_def Ledger_charge_def Ledger_fits_def Ledger_new_def checked_add_def abi_consts
  insert_into_def insert_or_return_def HandleTable_new_def HandleTable_room_def HandleTable_grows_def
  HandleTable_slots_def take_slot_def table_of_def set_table_def set_proc_def table_steps_def div_ceil_def Let_def
  encode_def U64_def wadd_def wsub_def wmul_def

lemma run_one_is:
  "channel_create True True run_kernel 0 =
    (Inr (1, 2), run_state (run_table [ep_handle 0 0, ep_handle 0 1]) [channel_new (0, 16384)] 22528)"
  by (simp add: run_simps ep_handle_def)

lemma run_two_is:
  "channel_create True True (run_state (run_table [ep_handle 0 0, ep_handle 0 1]) [channel_new (0, 16384)] 22528) 0 =
    (Inr (3, 4), run_state (run_table [ep_handle 0 0, ep_handle 0 1, ep_handle 1 0, ep_handle 1 1])
       [channel_new (0, 16384), channel_new (0, 16384)] 38912)"
  by (simp add: run_simps ep_handle_def)

definition run_rd :: "u64 \<Rightarrow> usize \<Rightarrow> byte list res" where
  "run_rd ptr n = Inr (if ptr = 8 \<and> n = 4 then [4, 0, 0, 0] else replicate n 7)"

definition run_message :: Message where
  "run_message = \<lparr>msg_bytes = replicate 3 7, msg_handles = [ep_handle 1 1], msg_endpoints = 1, msg_charge = Some (0, 163)\<rparr>"

definition run_sent :: Kernel where
  "run_sent = run_state \<lparr>slots = map (\<lambda>h. \<lparr>generation = 0, entry = Some h\<rparr>) [ep_handle 0 0, ep_handle 0 1, ep_handle 1 0] @
      [\<lparr>generation = 1, entry = None\<rparr>], free = [3], salt = 0, count = 3\<rparr>
    [ch_push (carry (channel_new (0, 16384)) 1 1) 1 run_message, channel_new (0, 16384)] 39075"

lemma run_sent_is:
  "channel_write (\<lambda>_. True) True run_rd
     (run_state (run_table [ep_handle 0 0, ep_handle 0 1, ep_handle 1 0, ep_handle 1 1])
       [channel_new (0, 16384), channel_new (0, 16384)] 38912) 0 1 0 3 8 1 = (one 0, run_sent)"
  by (simp add: run_sent_def run_message_def run_rd_def run_simps ep_handle_def Handle_new_def channel_write_def
      typed_def lookup_def raw_def HandleTable_get_def decode_def as_channel_def Message_cost_def values_of_def
      map_filter_def read_u32_def slice_def Rights_contains_def default_rights_def R_NONE_def handle_ep_def
      write_locked_def Endpoint_peer_def channel_new_def Endpoint_carried_def HandleTable_remove_def)

lemma run_start: "kernel_start run_kernel"
  by (simp add: kernel_start_def run_kernel_def run_proc_def procs_known_def all_handles_def kernel_handles_def new_inv)

lemma run_two_reached:
  "call_step\<^sup>*\<^sup>* run_kernel (run_state (run_table [ep_handle 0 0, ep_handle 0 1, ep_handle 1 0, ep_handle 1 1])
     [channel_new (0, 16384), channel_new (0, 16384)] 38912)" (is "call_step\<^sup>*\<^sup>* _ ?two")
proof -
  let ?one = "run_state (run_table [ep_handle 0 0, ep_handle 0 1]) [channel_new (0, 16384)] 22528"
  have "call_step run_kernel ?one"
    using call_step.create [of 0 run_kernel True True] run_one_is by (simp add: run_kernel_def)
  moreover have "call_step ?one ?two"
    using call_step.create [of 0 ?one True True] run_two_is by (simp add: run_state_def)
  ultimately show ?thesis by (meson r_into_rtranclp rtranclp.rtrancl_into_rtrancl)
qed

lemma run_sent_reached: "call_step\<^sup>*\<^sup>* run_kernel run_sent"
proof -
  let ?two = "run_state (run_table [ep_handle 0 0, ep_handle 0 1, ep_handle 1 0, ep_handle 1 1])
     [channel_new (0, 16384), channel_new (0, 16384)] 38912"
  have "reads_exactly run_rd" by (auto simp: reads_exactly_def run_rd_def)
  then have "call_step ?two run_sent"
    using call_step.wr [of 0 ?two run_rd "\<lambda>_. True" True 1 0 3 8 1] run_sent_is by (simp add: run_state_def)
  then show ?thesis using run_two_reached by (meson rtranclp.rtrancl_into_rtrancl)
qed

subsection \<open>What holds in every state\<close>

text \<open>
  C3. In every state that calls and processes ending can reach, each end of each channel has at most
  64 messages queued towards it, none once it is closed; the counter the cycle rule reads is the
  number of endpoints those messages carry; and its signals say what the state is: readable exactly
  when a message waits, writable exactly when the other end is open with room, peer closed exactly
  when the other end is closed.\<close>
theorem channels_stay_consistent:
  assumes "kernel_start k0" and "call_step\<^sup>*\<^sup>* k0 k" and "ch \<in> set (k_chans k)" and "s < 2"
  shows "length (ch_queues ch s) \<le> CHANNEL_DEPTH \<and> (\<not> ch_open ch s \<longrightarrow> ch_queues ch s = []) \<and>
    Endpoint_carried ch s = length (handle_eps (concat (map msg_handles (ch_queues ch s)))) \<and>
    (Signals_intersects (bits (Endpoint_signaller ch s)) S_READABLE \<longleftrightarrow> ch_queues ch s \<noteq> []) \<and>
    (Signals_intersects (bits (Endpoint_signaller ch s)) S_WRITABLE \<longleftrightarrow>
       ch_open ch (Endpoint_peer s) \<and> length (ch_queues ch (Endpoint_peer s)) < CHANNEL_DEPTH) \<and>
    (Signals_intersects (bits (Endpoint_signaller ch s)) S_PEER_CLOSED \<longleftrightarrow> \<not> ch_open ch (Endpoint_peer s))"
proof -
  have "kinv k []" using kcalls.reachable_good [OF assms(1,2)] by (simp add: kernel_good_def)
  then have ok: "chan_ok ch" using assms(3) by (simp add: kinv_def)
  note side = chan_ok_side [OF ok assms(4)]
  have "bits (Endpoint_signaller ch s) = ch_signals ch s"
    using ok side_cases [OF assms(4)] by (auto simp: chan_ok_def Endpoint_signaller_def)
  moreover have "sum_list (map msg_endpoints ms) = length (handle_eps (concat (map msg_handles ms)))"
    if "\<forall>m \<in> set ms. message_ok m" for ms
    using that by (induction ms) (simp_all add: message_ok_def)
  ultimately show ?thesis
    using side
    by (auto simp: side_ok_def Endpoint_carried_def ch_signals_def Endpoint_peer_def Let_def Signals_intersects_def
        Signals_union_def S_NONE_def S_READABLE_def S_WRITABLE_def S_PEER_CLOSED_def)
qed

theorem channels_stay_consistent_witness:
  "length (ch_queues (hd (k_chans run_sent)) 1) \<le> CHANNEL_DEPTH \<and>
   Endpoint_carried (hd (k_chans run_sent)) 1 =
     length (handle_eps (concat (map msg_handles (ch_queues (hd (k_chans run_sent)) 1)))) \<and>
   (Signals_intersects (bits (Endpoint_signaller (hd (k_chans run_sent)) 1)) S_READABLE \<longleftrightarrow>
     ch_queues (hd (k_chans run_sent)) 1 \<noteq> [])"
  using channels_stay_consistent [OF run_start run_sent_reached, of "hd (k_chans run_sent)" 1]
  by (simp add: run_sent_def run_state_def)

text \<open>
  C2. No endpoint is kept alive by messages that no process can reach. In every reachable state an
  open endpoint either has a handle in some process's table, or is carried by a message queued
  towards an endpoint that has one, or by one queued towards an endpoint such a message carries,
  and so on: the chain always starts in a table. This is what the cycle rule of \<open>channel_write\<close> is
  for.\<close>
theorem no_endpoint_is_stranded:
  assumes "kernel_start k0" and "call_step\<^sup>*\<^sup>* k0 k" and "e \<in> open_eps k"
  shows "\<exists>e0 \<in> table_eps k. (e0, e) \<in> (edges k)\<^sup>*"
proof -
  have inv: "kinv k []" using kcalls.reachable_good [OF assms(1,2)] by (simp add: kernel_good_def)
  have refs: "open_eps k = table_eps k \<union> Range (edges k)" using kinvD(3) [OF inv] by (simp add: refs_def)
  have "finite (edges k)"
  proof (rule finite_subset)
    show "edges k \<subseteq> Sigma ({..<length (k_chans k)} \<times> {..<2}) (\<lambda>(c, s). set (handle_eps (queue_handles (k_chans k ! c) s)))"
      by (auto simp: edges_def)
  qed auto
  then have "wf (edges k)" using kinvD(4) [OF inv] by (rule finite_acyclic_wf)
  then show ?thesis using assms(3)
  proof (induction e rule: wf_induct_rule)
    case (less e)
    show ?case
    proof (cases "e \<in> table_eps k")
      case False
      then obtain e1 where e1: "(e1, e) \<in> edges k" using less.prems refs by auto
      then obtain c s where c: "e1 = (c, s)" "c < length (k_chans k)" "s < 2"
          "e \<in> set (handle_eps (queue_handles (k_chans k ! c) s))" by (auto simp: edges_def)
      have "side_ok (k_chans k ! c) s" using chan_ok_side [OF kinvD(2) [OF inv nth_mem [OF c(2)]] c(3)] .
      then have "ch_open (k_chans k ! c) s" using c(4) by (auto simp: side_ok_def queue_handles_def)
      then have "e1 \<in> open_eps k" using c by (simp add: open_eps_def)
      then obtain e0 where "e0 \<in> table_eps k" "(e0, e1) \<in> (edges k)\<^sup>*" using less.IH [OF e1] by blast
      then show ?thesis using e1 by (meson rtrancl_into_rtrancl)
    qed blast
  qed
qed

text \<open>The end that was sent has no handle in a table: it is reached through the first channel's queue.\<close>

theorem no_endpoint_is_stranded_witness:
  "\<exists>e0. e0 \<in> table_eps run_sent \<and> (e0, (1, 1)) \<in> (edges run_sent)\<^sup>*"
  using no_endpoint_is_stranded [OF run_start run_sent_reached, of "(1, 1)"]
  by (auto simp: open_eps_def run_sent_def run_state_def channel_new_def)

text \<open>
  C1. Authority is never made out of nothing. Whatever the calls do, every handle in a table or in a
  queued message derives from one that was there before: it is to the same object, or to a resource
  of the same kind over part of the range, and has no right the other had not. The only others are
  derived from the two ends of channels made since.\<close>
theorem authority_never_grows:
  assumes "kernel_start k0" and "call_step\<^sup>*\<^sup>* k0 k" and "call_step\<^sup>*\<^sup>* k k'" and "h' \<in> all_handles k'"
  shows "(\<exists>h \<in> all_handles k. derives h' h) \<or>
    (\<exists>c s. length (k_chans k) \<le> c \<and> derives h' (Handle_new (Obj_Channel (c, s))))"
proof -
  have good: "kernel_good k" using kcalls.reachable_good [OF assms(1,2)] .
  from assms(3,4) show ?thesis
  proof (induction arbitrary: h' rule: rtranclp_induct)
    case base
    then show ?case using derives_refl by blast
  next
    case (step k1 k2)
    have g1: "kernel_good k1" using kcalls.steps_good [OF step.hyps(1) good] .
    have "length (k_chans k) \<le> length (k_chans k1)"
      using step.hyps(1) good
    proof (induction rule: rtranclp_induct)
      case (step a b)
      then show ?case
        using call_step_grows [OF step.hyps(2) kcalls.steps_good [OF step.hyps(1) good]] by (auto simp: grows_def)
    qed simp
    then show ?case
      using call_step_handles [OF step.hyps(2) g1 step.prems] step.IH derives_trans derives_refl
      unfolding derived_def by metis
  qed
qed

theorem authority_never_grows_witness:
  "(\<exists>h. h \<in> all_handles run_kernel \<and> derives (ep_handle 1 1) h) \<or>
   (\<exists>c s. length (k_chans run_kernel) \<le> c \<and> derives (ep_handle 1 1) (Handle_new (Obj_Channel (c, s))))"
proof -
  have "ep_handle 1 1 \<in> all_handles run_sent"
    by (simp add: all_handles_def kernel_handles_def run_sent_def run_state_def run_message_def
        ch_push_def queue_handles_def)
  then show ?thesis
    using authority_never_grows [OF run_start _ run_sent_reached, of "ep_handle 1 1"] by blast
qed

subsection \<open>Delivery\<close>

lemma drop_items_held:
  "\<forall>h \<in> set (item_handles ws). \<forall>e. handle_ep h = Some e \<longrightarrow> e \<in> table_eps k \<Longrightarrow>
    k_chans (drop_items ws k) = k_chans k"
proof (induction ws k rule: drop_items.induct)
  case (2 c ws k)
  moreover have "table_eps (charge_drop k c) = table_eps k" by (rule kernel_cong) simp_all
  ultimately show ?case by simp
next
  case (3 h ws k)
  show ?case
  proof (cases "handle_ep h")
    case None
    then show ?thesis using 3 by (simp add: drop_items.simps)
  next
    case (Some e)
    obtain c s where e: "e = (c, s)" by (cases e)
    have "endpoint_held k ws (c, s)" using 3(4) Some e by (auto simp: endpoint_held_refs refs_def)
    then show ?thesis using 3(2) [OF Some e [symmetric]] 3(4) Some e by (auto simp: drop_items.simps)
  qed
qed simp

text \<open>The handles of a message read are in the reader's table under the values it is told.\<close>

lemma read_insert_gets:
  assumes "HandleTable_inv (table_of k pid)" "pid < length (k_procs k)" "read_insert ok k pid hs vs = (None, vs', k')"
  shows "\<exists>new. vs' = vs @ new \<and> map (HandleTable_get (table_of k' pid)) new = map Inr hs \<and>
    (\<forall>w h. HandleTable_get (table_of k pid) w = Inr h \<longrightarrow> HandleTable_get (table_of k' pid) w = Inr h)"
  using assms
proof (induction hs arbitrary: k vs)
  case (Cons h hs)
  obtain v k1 where ins: "insert_into (ok (length vs)) k pid h = (Inr v, k1)"
      "read_insert ok k1 pid hs (vs @ [v]) = (None, vs', k')"
    using Cons.prems(3) by (auto split: prod.splits sum.splits)
  have "insert_or_return (ok (length vs)) (table_of k pid) h = (Inr v, table_of k1 pid) \<and> pid < length (k_procs k1)"
    using Cons.prems(2) ins(1) by (cases rule: insert_into_cases) (use Cons.prems(2) in auto)
  then have t: "insert_or_return (ok (length vs)) (table_of k pid) h = (Inr v, table_of k1 pid)"
      "pid < length (k_procs k1)" by simp_all
  from t(1) have "HandleTable_insert (ok (length vs)) (table_of k pid) h = (Inr v, table_of k1 pid)"
    by (simp add: HandleTable_insert_Inr)
  note o = ht.ins_ok [OF Cons.prems(1) this]
  have keep: "HandleTable_get (table_of k1 pid) w = Inr x" if "HandleTable_get (table_of k pid) w = Inr x" for w x
    using o that by (cases "w = v") auto
  obtain new where new: "vs' = (vs @ [v]) @ new" "map (HandleTable_get (table_of k' pid)) new = map Inr hs"
      "\<forall>w x. HandleTable_get (table_of k1 pid) w = Inr x \<longrightarrow> HandleTable_get (table_of k' pid) w = Inr x"
    using Cons.IH [OF _ t(2) ins(2)] o by auto
  then show ?case using o keep by (intro exI [of _ "v # new"]) auto
qed simp

text \<open>
  C24. A \<open>channel_read\<close> that succeeds delivers the oldest message and nothing else: it was the front
  of the queue towards the end read and the queue is now the rest of it, its bytes were copied out
  whole, and each of its handles is now in the reader's table under the value copied out for it. The
  call returns the numbers of bytes and of handles.\<close>
theorem read_delivers_message:
  assumes "kernel_start k0" and "call_step\<^sup>*\<^sup>* k0 k" and "pid < length (k_procs k)"
    and "channel_read oks wrt k pid v bytes cap handles hcap = (Inr (nb, nh), k')"
  shows "\<exists>c s m rest vs. typed k pid v R_READ as_channel = Inr (c, s) \<and>
    ch_queues (k_chans k ! c) s = m # rest \<and> ch_queues (k_chans k' ! c) s = rest \<and>
    wrt bytes (msg_bytes m) = Inr () \<and> wrt handles (concat (map le_bytes vs)) = Inr () \<and>
    map (HandleTable_get (table_of k' pid)) vs = map Inr (msg_handles m) \<and>
    nb = length (msg_bytes m) \<and> nh = length (msg_handles m) \<and> nb \<le> cap \<and> nh \<le> hcap"
proof -
  have inv: "kinv k []" using kcalls.reachable_good [OF assms(1,2)] by (simp add: kernel_good_def)
  obtain c s where ep: "typed k pid v R_READ as_channel = Inr (c, s)"
    using assms(4) by (cases "typed k pid v R_READ as_channel") (auto simp: channel_read_def fail_def)
  have o: "c < length (k_chans k)" "s < 2" using typed_channel_open [OF inv assms(3) ep] by simp_all
  obtain m rest where q: "ch_queues (k_chans k ! c) s = m # rest"
    using assms(4) ep by (cases "ch_queues (k_chans k ! c) s") (auto simp: channel_read_def fail_def)
  obtain r vs k1 where ins: "read_insert oks k pid (msg_handles m) [] = (r, vs, k1)" by (metis prod.exhaust)
  let ?k = "k1\<lparr>k_chans := (k_chans k1)[c := ch_pop (k_chans k1 ! c) s]\<rparr>"
  have ok: "length (msg_bytes m) \<le> cap" "length (msg_handles m) \<le> hcap" "wrt bytes (msg_bytes m) = Inr ()" "r = None"
      "wrt handles (concat (map le_bytes vs)) = Inr ()" "nb = length (msg_bytes m)" "nh = length (msg_handles m)"
      "k' = drop_items (message_items m) ?k"
    using assms(4) ep q ins
    by (auto simp: channel_read_def Let_def fail_def split: if_splits sum.splits option.splits)
  have m: "set (msg_handles m) \<subseteq> set (queue_handles (k_chans k ! c) s)" using q by (auto simp: queue_handles_def)
  then have "\<forall>h \<in> set (msg_handles m). \<forall>e. handle_ep h = Some e \<longrightarrow> e \<in> Range (edges k)"
    using queue_eps_edges [OF o] by blast
  note j = read_insert_inv [OF inv assms(3) this ins]
  obtain new where new: "vs = [] @ new" "map (HandleTable_get (table_of k1 pid)) new = map Inr (msg_handles m)"
    using read_insert_gets [OF table_inv [OF inv assms(3)] assms(3)] ins ok(4) by blast
  have "h \<in> set (table_handles (table_of k1 pid))" if "h \<in> set (msg_handles m)" for h
  proof -
    have "Inr h \<in> set (map (HandleTable_get (table_of k1 pid)) new)" using that new(2) by simp
    then show ?thesis by (auto dest: sym get_in_table)
  qed
  then have "\<forall>h \<in> set (item_handles (message_items m)). \<forall>e. handle_ep h = Some e \<longrightarrow> e \<in> table_eps ?k"
    using j assms(3) by (auto simp: table_eps_def table_of_def set_handle_eps intro!: bexI [of _ "k_procs k1 ! pid"])
  then have "k_chans k' = k_chans ?k" unfolding ok(8) by (rule drop_items_held)
  moreover have "ch_queues (ch_pop (k_chans k1 ! c) s) s = rest" using j q by (simp add: ch_pop_def)
  ultimately have "ch_queues (k_chans k' ! c) s = rest" using j o by simp
  moreover have "table_of k' pid = table_of k1 pid" unfolding ok(8) by (simp add: table_of_def)
  ultimately show ?thesis using ep q ok new by auto
qed

definition run_wr :: "u64 \<Rightarrow> byte list \<Rightarrow> unit res" where
  "run_wr ptr bytes = Inr ()"

text \<open>The message with the second channel's end, read at the other end of the first channel.\<close>

lemma run_read_ok: "fst (channel_read (\<lambda>_. True) run_wr run_sent 0 2 0 64 8 4) = Inr (3, 1)"
  by (simp add: run_sent_def run_message_def run_wr_def run_simps ep_handle_def Handle_new_def channel_read_def
      typed_def lookup_def raw_def HandleTable_get_def decode_def as_channel_def Rights_contains_def
      default_rights_def R_NONE_def ch_push_def carry_def channel_new_def)

theorem read_delivers_message_witness:
  "\<exists>c s m rest. typed run_sent 0 2 R_READ as_channel = Inr (c, s) \<and>
    ch_queues (k_chans run_sent ! c) s = m # rest \<and> 3 = length (msg_bytes m) \<and> 1 = length (msg_handles m)"
proof -
  have p: "0 < length (k_procs run_sent)" by (simp add: run_sent_def run_state_def)
  have "channel_read (\<lambda>_. True) run_wr run_sent 0 2 0 64 8 4 =
      (Inr (3, 1), snd (channel_read (\<lambda>_. True) run_wr run_sent 0 2 0 64 8 4))"
    using run_read_ok by (metis prod.collapse)
  from read_delivers_message [OF run_start run_sent_reached p this] show ?thesis by blast
qed

lemma write_check_handles:
  "write_check mem t c seen vs = Inr es \<Longrightarrow> map Inr hs = map (HandleTable_get t) vs \<Longrightarrow> h \<in> set hs \<Longrightarrow>
    Rights_contains (h_rights h) R_TRANSFER \<and> (\<forall>t. handle_ep h \<noteq> Some (c, t))"
proof (induction vs arbitrary: seen es hs)
  case (Cons v vs)
  obtain x xs where hs: "hs = x # xs" "HandleTable_get t v = Inr x" "map Inr xs = map (HandleTable_get t) vs"
    using Cons.prems(2) by (cases hs) auto
  have x: "Rights_contains (h_rights x) R_TRANSFER \<and> (\<forall>t. handle_ep x \<noteq> Some (c, t))"
    using Cons.prems(1) hs(2) by (auto split: if_splits option.splits)
  obtain es' where "write_check mem t c (seen @ [v]) vs = Inr es'"
    using Cons.prems(1) hs(2) by (auto simp: andthen_Inr split: if_splits option.splits)
  then show ?case using Cons.IH [OF _ hs(3)] Cons.prems(3) hs(1) x by auto
qed simp

text \<open>
  C25. A \<open>channel_write\<close> that succeeds puts one message at the back of the queue towards the other
  end: the bytes copied in, and the handles the caller's values named, in that order. Each of those
  values is dead in the caller's table from then on, no other value is, and every handle carried had
  \<open>TRANSFER\<close>; none is an end of the channel itself.\<close>
theorem write_queues_message:
  assumes "kernel_start k0" and "call_step\<^sup>*\<^sup>* k0 k" and "pid < length (k_procs k)" and "reads_exactly rd"
    and "channel_write mem moved_ok rd k pid v bytes nbytes handles nhandles = (Inr r, k')"
  shows "\<exists>c s m hbytes. typed k pid v R_WRITE as_channel = Inr (c, s) \<and>
    ch_queues (k_chans k' ! c) (Endpoint_peer s) = ch_queues (k_chans k ! c) (Endpoint_peer s) @ [m] \<and>
    rd bytes nbytes = Inr (msg_bytes m) \<and> rd handles (nhandles * 4) = Inr hbytes \<and>
    map Inr (msg_handles m) = map (HandleTable_get (table_of k pid)) (values_of hbytes) \<and>
    (\<forall>w. HandleTable_get (table_of k' pid) w =
       (if w \<in> set (values_of hbytes) then Inl BadHandle else HandleTable_get (table_of k pid) w)) \<and>
    (\<forall>h \<in> set (msg_handles m). Rights_contains (h_rights h) R_TRANSFER \<and> (\<forall>t. handle_ep h \<noteq> Some (c, t)))"
proof -
  have inv: "kinv k []" using kcalls.reachable_good [OF assms(1,2)] by (simp add: kernel_good_def)
  define payer where "payer = p_account (k_procs k ! pid)"
  define cost where "cost = Message_cost nbytes nhandles"
  obtain u k1 where ch: "charge_new k payer cost = (u, k1)" by fastforce
  note f = charge_new_fields [OF ch]
  have t1: "table_of k1 pid = table_of k pid" using f by (simp add: table_of_def)
  obtain c s where ep: "typed k pid v R_WRITE as_channel = Inr (c, s)"
    using assms(5) by (cases "typed k pid v R_WRITE as_channel") (auto simp: channel_write_def fail_def)
  have o: "c < length (k_chans k1)" "s < 2" using typed_channel_open [OF inv assms(3) ep] f by simp_all
  obtain p hb carried where ok: "rd bytes nbytes = Inr p" "rd handles (nhandles * 4) = Inr hb"
      "write_check mem (table_of k pid) c [] (values_of hb) = Inr carried"
      "write_locked moved_ok k1 pid (c, s) (payer, cost) p (values_of hb) carried = (Inr r, k')"
    using assms(5) ch [unfolded payer_def cost_def] ep t1 unfolding payer_def cost_def
    by (auto simp: channel_write_def Let_def fail_def split: if_splits sum.splits)
  obtain x hs t where take: "take_all (table_of k pid) (values_of hb) = (x, hs, t)" by (metis prod.exhaust)
  note w = write_check_ok [OF ok(3)]
  have g: "x = None" "map Inr hs = map (HandleTable_get (table_of k pid)) (values_of hb)"
      "\<forall>v \<in> set (values_of hb). HandleTable_get t v = Inl BadHandle"
      "\<forall>w. w \<notin> set (values_of hb) \<longrightarrow> HandleTable_get t w = HandleTable_get (table_of k pid) w"
    using take_all_ok [OF table_inv [OF inv assms(3)], of "values_of hb"] w take by auto
  define m where "m = \<lparr>msg_bytes = p, msg_handles = hs, msg_endpoints = length carried, msg_charge = Some (payer, cost)\<rparr>"
  define ch1 where "ch1 = (if carried = [] then k_chans k1 ! c else carry (k_chans k1 ! c) (Endpoint_peer s) (length carried))"
  have k': "k' = (set_table k1 pid t)\<lparr>k_chans := (k_chans k1)[c := ch_push ch1 (Endpoint_peer s) m]\<rparr>"
    using ok(4) take t1 g(1)
    by (auto simp: write_locked_def Let_def fail_def m_def ch1_def split: if_splits)
  have "ch_queues (k_chans k' ! c) (Endpoint_peer s) = ch_queues (k_chans k ! c) (Endpoint_peer s) @ [m]"
    using o f by (simp add: k' ch_push_def ch1_def)
  moreover have "table_of k' pid = t" using assms(3) f by (simp add: k' table_of_def set_table_def)
  moreover have "Rights_contains (h_rights h) R_TRANSFER \<and> (\<forall>t. handle_ep h \<noteq> Some (c, t))" if "h \<in> set hs" for h
    using write_check_handles [OF ok(3) g(2) that] .
  ultimately show ?thesis
    using ep ok(1,2) g by (intro exI [of _ c] exI [of _ s] exI [of _ m] exI [of _ hb]) (simp add: m_def)
qed

theorem write_queues_message_witness:
  "\<exists>c s m. typed (run_state (run_table [ep_handle 0 0, ep_handle 0 1, ep_handle 1 0, ep_handle 1 1])
       [channel_new (0, 16384), channel_new (0, 16384)] 38912) 0 1 R_WRITE as_channel = Inr (c, s) \<and>
     ch_queues (k_chans run_sent ! c) (Endpoint_peer s) =
     ch_queues ([channel_new (0, 16384), channel_new (0, 16384)] ! c) (Endpoint_peer s) @ [m] \<and>
     run_rd 0 3 = Inr (msg_bytes m)"
proof -
  let ?two = "run_state (run_table [ep_handle 0 0, ep_handle 0 1, ep_handle 1 0, ep_handle 1 1])
     [channel_new (0, 16384), channel_new (0, 16384)] 38912"
  have p: "0 < length (k_procs ?two)" by (simp add: run_state_def)
  have r: "reads_exactly run_rd" by (auto simp: reads_exactly_def run_rd_def)
  have ch: "k_chans ?two = [channel_new (0, 16384), channel_new (0, 16384)]" by (simp add: run_state_def)
  from write_queues_message [OF run_start run_two_reached p r run_sent_is [unfolded one_def]] show ?thesis
    unfolding ch by blast
qed

subsection \<open>Types and rights\<close>


subsection \<open>Granting\<close>

lemma named_specs_length: "named_specs bytes is = Inr specs \<Longrightarrow> length specs = length is"
  by (induction "is" arbitrary: specs) (auto simp: Let_def andthen_Inr split: option.splits)

text \<open>
  C39. Granting handles to a process that has already been granted some is refused with \<open>BadState\<close>,
  but only after the handles were taken out of the caller's table: they are neither in the caller's
  table nor in the process's any more. The documentation of the call promises that a grant moves every
  handle it names or none.\<close>
theorem second_grant_loses_handles:
  assumes "pid < length (k_procs k)" and "HandleTable_inv (table_of k pid)" and "n \<le> START_HANDLES_MAX"
    and "typed k pid process R_WRITE as_process = Inr child" and "child \<noteq> pid"
    and "is_created (k_procs k ! child)" and "p_granted (k_procs k ! child)"
    and "andthen (rd entries (n * start_entry_SIZE)) (\<lambda>bytes. named_specs bytes [0..<n]) = Inr specs"
    and "named_check (table_of k pid) [] specs = Inr ()"
  shows "fst (process_grant rd oks mapped k pid process entries n) = fail BadState \<and>
    (\<forall>v \<in> set (map fst specs). (\<exists>h. HandleTable_get (table_of k pid) v = Inr h) \<and>
       HandleTable_get (table_of (snd (process_grant rd oks mapped k pid process entries n)) pid) v = Inl BadHandle) \<and>
    table_of (snd (process_grant rd oks mapped k pid process entries n)) child = table_of k child"
proof -
  note c = named_check_ok [OF assms(9)]
  obtain x hs t where take: "take_all (table_of k pid) (map fst specs) = (x, hs, t)" by (metis prod.exhaust)
  have g: "x = None" "length hs = length specs" "\<forall>v \<in> set (map fst specs). HandleTable_get t v = Inl BadHandle"
    using take_all_ok [OF assms(2), of "map fst specs"] c take by (auto dest: map_eq_imp_length_eq)
  then have tn: "take_named rd k pid entries n = (Inr (zip hs (map snd specs)), set_table k pid t)"
    using assms(8,9) take by (simp add: take_named_def)
  have len: "length (map fst (zip hs (map snd specs))) = length specs" using g by simp
  let ?k = "drop_items (map DropHandle (map fst (zip hs (map snd specs)))) (set_table k pid t)"
  have child: "k_procs (set_table k pid t) ! child = k_procs k ! child"
    using assms(1,5) by (simp add: set_table_def)
  have "length specs \<le> START_HANDLES_MAX" using named_specs_length [of _ "[0..<n]" specs] assms(3,8) by (auto simp: andthen_Inr)
  then have "process_grant_to oks mapped (set_table k pid t) child (map fst (zip hs (map snd specs))) = (Inl BadState, ?k)"
    using len assms(6,7) child by (simp add: process_grant_to_def Let_def del: map_fst_zip)
  then have "process_grant rd oks mapped k pid process entries n = (fail BadState, ?k)"
    using assms(3,4,6) tn by (simp add: process_grant_def)
  moreover have "table_of ?k i = table_of (set_table k pid t) i" for i by (simp add: table_of_def)
  ultimately show ?thesis using g c assms(1,5) by simp
qed

definition grant_kernel :: Kernel where
  "grant_kernel = \<lparr>k_procs =
     [run_proc\<lparr>p_handles := run_table [Handle_new (Obj_Process 1), Handle_new Obj_Console]\<rparr>,
      run_proc\<lparr>p_life := Life_Created None, p_granted := True\<rparr>],
     k_chans = [], k_accounts = (\<lambda>_. Ledger_new 1048576)\<rparr>"

definition grant_rd :: "u64 \<Rightarrow> usize \<Rightarrow> byte list res" where
  "grant_rd ptr n = Inr (take n ([2, 0, 0, 0, 0, 0, 0, 0, 0x61, 0] @ replicate n 0))"

theorem second_grant_loses_handles_witness:
  "fst (process_grant grant_rd (\<lambda>_. True) (Inr 0) grant_kernel 0 1 0 1) = fail BadState \<and>
   HandleTable_get (table_of grant_kernel 0) 2 = Inr (Handle_new Obj_Console) \<and>
   HandleTable_get (table_of (snd (process_grant grant_rd (\<lambda>_. True) (Inr 0) grant_kernel 0 1 0 1)) 0) 2 = Inl BadHandle"
proof -
  have t: "table_of grant_kernel 0 = run_table [Handle_new (Obj_Process 1), Handle_new Obj_Console]"
    by (simp add: grant_kernel_def table_of_def)
  have get: "HandleTable_get (table_of grant_kernel 0) 2 = Inr (Handle_new Obj_Console)"
      "HandleTable_get (table_of grant_kernel 0) 1 = Inr (Handle_new (Obj_Process 1))"
    by (simp_all add: t HandleTable_get_def decode_def run_table_def)
  have l: "live (table_of grant_kernel 0) = {0, 1}" by (auto simp: t live_def run_table_def less_Suc_eq)
  have inv: "HandleTable_inv (table_of grant_kernel 0)"
    unfolding HandleTable_inv_def l by (simp add: t run_table_def HANDLES_PER_PROCESS_def less_Suc_eq) blast
  have typed: "typed grant_kernel 0 1 R_WRITE as_process = Inr 1"
    using get(2) by (simp add: typed_def lookup_def raw_def as_process_def Handle_new_def Rights_contains_def
        default_rights_def R_NONE_def abi_consts)
  have specs: "andthen (grant_rd 0 (1 * start_entry_SIZE)) (\<lambda>bytes. named_specs bytes [0..<1]) = Inr [(2, [0x61])]"
    by (simp add: grant_rd_def start_entry_SIZE_def start_entry_HANDLE_def start_entry_NAME_def read_u32_def
        checked_add_def U64_def slice_def Let_def NAME_MAX_def fixed_name_def)
  have chk: "named_check (table_of grant_kernel 0) [] [(2, [0x61])] = Inr ()"
    using get(1) by (simp add: Handle_new_def Rights_contains_def default_rights_def abi_consts valid_name_def name_byte_def)
  show ?thesis
    using second_grant_loses_handles [where k = grant_kernel and pid = 0 and n = 1 and process = 1 and child = 1
        and rd = grant_rd and entries = 0 and oks = "\<lambda>_. True" and mapped = "Inr 0", OF _ inv _ typed _ _ _ specs chk] get(1)
    by (simp add: grant_kernel_def is_created_def START_HANDLES_MAX_def)
qed

end
