(* ===== verification/DataPlane.thy ===== *)
theory DataPlane
  imports Signal VmSpace
begin

unbundle bit_operations_syntax

text \<open>
  The data plane (\<open>kernel/core/src/plane.rs\<close>): slots, through which the engine and a task pass memory
  objects by changing page tables, and the plane that gives a task its slots by number. What the code
  does while it holds a slot's lock is one step; \<open>Slot::get\<close> is the turns of its loop and its end. A
  process is the number it is known by, and its address space is an argument; whether a weak reference
  still has its process, whether a thread was killed and whether memory is had are arguments too.

  A slot is a FIFO of what was pushed into it: the entries ready, the one that is mapped, and the
  events that give entries back. \<open>port_call\<close> and \<open>slot_refuse\<close> are not modelled.
\<close>

subsection \<open>Slots\<close>

definition slot_INPUT :: u64 where [abi_consts]: "slot_INPUT = 1"
definition slot_OUTPUT :: u64 where [abi_consts]: "slot_OUTPUT = 2"
definition event_SIZE :: usize where [abi_consts]: "event_SIZE = 32"
definition event_KIND :: usize where [abi_consts]: "event_KIND = 0"
definition event_COOKIE :: usize where [abi_consts]: "event_COOKIE = 8"
definition event_OFFSET :: usize where [abi_consts]: "event_OFFSET = 16"
definition event_LEN :: usize where [abi_consts]: "event_LEN = 24"
definition event_RELEASED :: u32 where [abi_consts]: "event_RELEASED = 1"
definition event_PUT :: u32 where [abi_consts]: "event_PUT = 2"
definition event_RETURNED :: u32 where [abi_consts]: "event_RETURNED = 3"

record Entry =
  en_memory :: MemoryObject
  en_rights :: rights
  en_offset :: u64
  en_len :: u64
  en_cookie :: u64

record Mapped =
  mp_mapper :: nat
  mp_addr :: u64
  mp_span :: u64
  mp_entry :: Entry

datatype Event = Released u64 | Put Entry u64 u64 | Returned Entry

record PlaneSlot =
  sl_output :: bool
  sl_ready :: "Entry list"
  sl_current :: "Mapped option"
  sl_events :: "Event list"
  sl_closed :: bool
  sl_attached :: bool
  sl_ended :: bool
  sl_task :: "nat option"
  sl_index :: nat
  sl_engine_sig :: Signaller
  sl_task_sig :: Signaller

definition in_flight :: "PlaneSlot \<Rightarrow> usize" where
  "in_flight s = length (sl_ready s) + (case sl_current s of None \<Rightarrow> 0 | Some _ \<Rightarrow> 1) + length (sl_events s)"

text \<open>A slot refused for want of memory gives its charge back as it is dropped.\<close>

definition Slot_new :: "bool \<Rightarrow> u64 \<Rightarrow> Ledger \<Rightarrow> PlaneSlot res \<times> Ledger" where
  "Slot_new reserve_ok flags l =
     (if flags \<noteq> slot_INPUT \<and> flags \<noteq> slot_OUTPUT then (Inl InvalidArgs, l)
      else case ledger_charge l charge_SLOT of
        (Inl e, l1) \<Rightarrow> (Inl e, l1)
      | (Inr _, l1) \<Rightarrow>
          if \<not> reserve_ok then (Inl NoMemory, snd (ledger_uncharge l1 charge_SLOT))
          else (Inr \<lparr>sl_output = (flags = slot_OUTPUT), sl_ready = [], sl_current = None, sl_events = [],
                     sl_closed = False, sl_attached = False, sl_ended = False, sl_task = None, sl_index = 0,
                     sl_engine_sig = Signaller_new S_WRITABLE, sl_task_sig = Signaller_new S_NONE\<rparr>, l1))"

definition task_ready :: "PlaneSlot \<Rightarrow> bool" where
  "task_ready s \<longleftrightarrow> sl_ready s \<noteq> [] \<or> sl_closed s \<or> sl_ended s"

definition engine_signals :: "PlaneSlot \<Rightarrow> signals" where
  "engine_signals s =
     (let e0 = S_NONE;
          e1 = (if sl_events s \<noteq> [] then Signals_union e0 S_READABLE else e0);
          e2 = (if \<not> sl_closed s \<and> \<not> sl_ended s \<and> in_flight s < SLOT_DEPTH then Signals_union e1 S_WRITABLE else e1);
          e3 = (if sl_ended s then Signals_union e2 S_PEER_CLOSED else e2)
      in if task_ready s then Signals_union e3 S_SIGNALED else e3)"

definition task_signals :: "PlaneSlot \<Rightarrow> signals" where
  "task_signals s = (if task_ready s then S_READABLE else S_NONE)"

definition slot_refresh :: "PlaneSlot \<Rightarrow> PlaneSlot" where
  "slot_refresh s =
     s\<lparr>sl_engine_sig := set_signals (sl_engine_sig s) (engine_signals s),
       sl_task_sig := set_signals (sl_task_sig s) (task_signals s)\<rparr>"

definition push_rights :: "bool \<Rightarrow> rights" where
  "push_rights output =
     (if output then Rights_union (Rights_union R_READ R_WRITE) R_MAP else Rights_union R_READ R_MAP)"

definition slot_push ::
  "PlaneSlot \<Rightarrow> MemoryObject \<Rightarrow> rights \<Rightarrow> u64 \<Rightarrow> u64 \<Rightarrow> u64 \<Rightarrow> unit res \<times> PlaneSlot"
where
  "slot_push s memory rights offset len cookie =
     (if \<not> Rights_contains rights (push_rights (sl_output s)) then (Inl AccessDenied, s)
      else if len = 0 \<or> \<not> aligned offset \<or> (sl_output s \<and> \<not> aligned len) then (Inl InvalidArgs, s)
      else case pages len of
        Inl e \<Rightarrow> (Inl e, s)
      | Inr span \<Rightarrow>
          if (case checked_add offset span of None \<Rightarrow> True | Some e \<Rightarrow> e > mem_size memory) then (Inl OutOfRange, s)
          else if sl_closed s \<or> sl_ended s then (Inl BadState, s)
          else if in_flight s \<ge> SLOT_DEPTH then (Inl ShouldWait, s)
          else (Inr (), slot_refresh (s\<lparr>sl_ready := sl_ready s @
                 [\<lparr>en_memory = memory, en_rights = rights, en_offset = offset, en_len = len, en_cookie = cookie\<rparr>]\<rparr>)))"

definition slot_close :: "PlaneSlot \<Rightarrow> PlaneSlot" where
  "slot_close s = slot_refresh (s\<lparr>sl_closed := True\<rparr>)"

definition slot_attach :: "PlaneSlot \<Rightarrow> nat \<Rightarrow> nat \<Rightarrow> unit res \<times> PlaneSlot" where
  "slot_attach s task index =
     (if sl_attached s then (Inl BadState, s)
      else (Inr (), s\<lparr>sl_attached := True, sl_task := Some task, sl_index := index\<rparr>))"

text \<open>The input slot's release of the batch the task has mapped, in \<open>Slot::get\<close>.\<close>

definition get_release :: "u64 \<Rightarrow> PlaneSlot \<Rightarrow> Space \<Rightarrow> unit res \<times> PlaneSlot \<times> Space" where
  "get_release mx s sp =
     (case sl_current s of
        None \<Rightarrow> (Inr (), s, sp)
      | Some m \<Rightarrow>
          (case unmap_plane mx sp (mp_addr m) (mp_span m) (en_memory (mp_entry m)) of
             (Inl e, sp1) \<Rightarrow> (Inl e, s, sp1)
           | (Inr _, sp1) \<Rightarrow>
               (Inr (), slot_refresh (s\<lparr>sl_current := None,
                  sl_events := sl_events s @ [Released (en_cookie (mp_entry m))]\<rparr>), sp1)))"

text \<open>The next entry is mapped, or the end is answered; \<open>None\<close> where there is nothing yet.\<close>

definition get_next ::
  "u64 \<Rightarrow> Ostd \<Rightarrow> PlaneSlot \<Rightarrow> Space \<Rightarrow> nat \<Rightarrow> (u64 \<times> u64) res option \<times> PlaneSlot \<times> Space"
where
  "get_next mx os s sp mapper =
     (case sl_ready s of
        en # rest \<Rightarrow>
          (case pages (en_len en) of
             Inl e \<Rightarrow> (Some (Inl e), s, sp)
           | Inr span \<Rightarrow>
               (case map_plane mx os sp (en_memory en) (en_offset en div PAGE_SIZE) span (sl_output s) of
                  (Inl e, sp1) \<Rightarrow> (Some (Inl e), s, sp1)
                | (Inr addr, sp1) \<Rightarrow>
                    (Some (Inr (addr, en_len en)),
                     slot_refresh (s\<lparr>sl_ready := rest, sl_current := Some
                       \<lparr>mp_mapper = mapper, mp_addr = addr, mp_span = span, mp_entry = en\<rparr>\<rparr>), sp1)))
      | [] \<Rightarrow> (if sl_closed s then Some (Inr (0, 0)) else None, s, sp))"

text \<open>
  One turn of the loop of \<open>Slot::get\<close>: its answer, or \<open>None\<close> to go round again. The first turn that
  finds nothing registers the waker; a later one sleeps before it goes round.\<close>

definition get_turn ::
  "u64 \<Rightarrow> Ostd \<Rightarrow> bool \<Rightarrow> waker \<Rightarrow> bool \<Rightarrow> PlaneSlot \<Rightarrow> Space \<Rightarrow> nat \<Rightarrow>
   (u64 \<times> u64) res option \<times> bool \<times> PlaneSlot \<times> Space"
where
  "get_turn mx os killed w watching s sp mapper =
     (if killed \<or> sl_ended s then (Some (Inl BadState), watching, s, sp)
      else case (case sl_current s of
                   None \<Rightarrow> Inr None
                 | Some m \<Rightarrow> if mp_mapper m \<noteq> mapper then Inl BadState
                           else if sl_output s then Inr (Some (mp_addr m, en_len (mp_entry m))) else Inr None) of
        Inl e \<Rightarrow> (Some (Inl e), watching, s, sp)
      | Inr (Some r) \<Rightarrow> (Some (Inr r), watching, s, sp)
      | Inr None \<Rightarrow>
          (case get_release mx s sp of
             (Inl e, s1, sp1) \<Rightarrow> (Some (Inl e), watching, s1, sp1)
           | (Inr _, s1, sp1) \<Rightarrow>
               (case get_next mx os s1 sp1 mapper of
                  (Some r, s2, sp2) \<Rightarrow> (Some r, watching, s2, sp2)
                | (None, s2, sp2) \<Rightarrow>
                    if watching then (None, True, s2, sp2)
                    else (None, True, s2\<lparr>sl_task_sig := snd (observe (sl_task_sig s2) w)\<rparr>, sp2))))"

definition get_end :: "waker \<Rightarrow> bool \<Rightarrow> PlaneSlot \<Rightarrow> PlaneSlot" where
  "get_end w watching s = (if watching then s\<lparr>sl_task_sig := unobserve (sl_task_sig s) w\<rparr> else s)"

definition slot_put ::
  "u64 \<Rightarrow> PlaneSlot \<Rightarrow> Space \<Rightarrow> nat \<Rightarrow> u64 \<Rightarrow> u64 \<Rightarrow> unit res \<times> PlaneSlot \<times> Space"
where
  "slot_put mx s sp mapper addr len =
     (if \<not> sl_output s then (Inl InvalidArgs, s, sp)
      else case sl_current s of
        None \<Rightarrow> (Inl BadState, s, sp)
      | Some m \<Rightarrow>
          if mp_mapper m \<noteq> mapper then (Inl BadState, s, sp)
          else if len = 0 \<or> \<not> aligned addr then (Inl InvalidArgs, s, sp)
          else case checked_sub addr (mp_addr m) of
            None \<Rightarrow> (Inl OutOfRange, s, sp)
          | Some within \<Rightarrow>
              if (case checked_add within len of None \<Rightarrow> True | Some e \<Rightarrow> e > en_len (mp_entry m))
              then (Inl OutOfRange, s, sp)
              else case unmap_plane mx sp (mp_addr m) (mp_span m) (en_memory (mp_entry m)) of
                (Inl e, sp1) \<Rightarrow> (Inl e, s, sp1)
              | (Inr _, sp1) \<Rightarrow>
                  (Inr (), slot_refresh (s\<lparr>sl_current := None,
                     sl_events := sl_events s @ [Put (mp_entry m) (wadd (en_offset (mp_entry m)) within) len]\<rparr>), sp1))"

definition give_event :: "bool \<Rightarrow> Entry \<Rightarrow> Event" where
  "give_event output en = (if output then Returned en else Released (en_cookie en))"

text \<open>\<open>psp\<close> is the space of the process that has the entry mapped, while that process exists.\<close>

definition slot_detach :: "u64 \<Rightarrow> PlaneSlot \<Rightarrow> Space option \<Rightarrow> PlaneSlot \<times> Space option" where
  "slot_detach mx s psp =
     (if sl_ended s then (s, psp)
      else let (held, psp1) = (case sl_current s of
                 None \<Rightarrow> ([], psp)
               | Some m \<Rightarrow> ([give_event (sl_output s) (mp_entry m)],
                   map_option (\<lambda>sp. snd (unmap_plane mx sp (mp_addr m) (mp_span m) (en_memory (mp_entry m)))) psp))
           in (slot_refresh (s\<lparr>sl_ended := True, sl_current := None, sl_ready := [],
                 sl_events := sl_events s @ held @ map (give_event (sl_output s)) (sl_ready s)\<rparr>), psp1))"

record Taken =
  tk_bytes :: "byte list"
  tk_memory :: "(MemoryObject \<times> rights) option"

definition event_bytes :: "u32 \<Rightarrow> u64 \<Rightarrow> byte list" where
  "event_bytes kind cookie =
     snd (write_u64 (snd (write_u32 (replicate event_SIZE 0) event_KIND kind)) event_COOKIE cookie)"

definition event_range :: "byte list \<Rightarrow> u64 \<Rightarrow> u64 \<Rightarrow> byte list" where
  "event_range bytes offset len = snd (write_u64 (snd (write_u64 bytes event_OFFSET offset)) event_LEN len)"

fun taken_of :: "Event \<Rightarrow> Taken" where
  "taken_of (Released cookie) = \<lparr>tk_bytes = event_bytes event_RELEASED cookie, tk_memory = None\<rparr>"
| "taken_of (Put en offset len) =
     \<lparr>tk_bytes = event_range (event_bytes event_PUT (en_cookie en)) offset len,
      tk_memory = Some (en_memory en, en_rights en)\<rparr>"
| "taken_of (Returned en) =
     \<lparr>tk_bytes = event_range (event_bytes event_RETURNED (en_cookie en)) (en_offset en) (en_len en),
      tk_memory = Some (en_memory en, en_rights en)\<rparr>"

text \<open>\<open>insert\<close> is what the caller does with the event before it leaves the queue; it sees the answer.\<close>

definition slot_take :: "PlaneSlot \<Rightarrow> (Taken \<Rightarrow> unit res) \<Rightarrow> unit res \<times> PlaneSlot" where
  "slot_take s ins =
     (case sl_events s of
        [] \<Rightarrow> (Inl (if sl_ended s then PeerClosed else ShouldWait), s)
      | front # rest \<Rightarrow>
          (case ins (taken_of front) of
             Inl e \<Rightarrow> (Inl e, s)
           | Inr _ \<Rightarrow> (Inr (), slot_refresh (s\<lparr>sl_events := rest\<rparr>))))"

subsection \<open>A task's plane\<close>

text \<open>The slots are known by number, \<open>st\<close> gives each one's state; the port is its endpoint.\<close>

record TaskPlane =
  pl_slots :: "nat list"
  pl_port :: "(nat \<times> nat) option"

fun bind_attach ::
  "nat \<Rightarrow> nat \<Rightarrow> nat list \<Rightarrow> nat list \<Rightarrow> (nat \<Rightarrow> PlaneSlot) \<Rightarrow> unit res \<times> (nat \<Rightarrow> PlaneSlot)"
where
  "bind_attach task i bound [] st = (Inr (), st)"
| "bind_attach task i bound (sl # sls) st =
     (case slot_attach (st sl) task i of
        (Inl e, _) \<Rightarrow>
          (Inl e, fold (\<lambda>d f. f(d := (f d)\<lparr>sl_attached := False, sl_task := None\<rparr>)) bound st)
      | (Inr _, s') \<Rightarrow> bind_attach task (Suc i) (bound @ [sl]) sls (st(sl := s')))"

definition Plane_bind ::
  "nat \<Rightarrow> nat list \<Rightarrow> (nat \<times> nat) option \<Rightarrow> (nat \<Rightarrow> PlaneSlot) \<Rightarrow> TaskPlane res \<times> (nat \<Rightarrow> PlaneSlot)"
where
  "Plane_bind task sls endpoint st =
     (if list_ex (\<lambda>sl. sl_attached (st sl)) sls then (Inl BadState, st)
      else if \<not> distinct sls then (Inl InvalidArgs, st)
      else case bind_attach task 0 [] sls st of
        (Inl e, st1) \<Rightarrow> (Inl e, st1)
      | (Inr _, st1) \<Rightarrow> (Inr \<lparr>pl_slots = sls, pl_port = endpoint\<rparr>, st1))"

definition plane_slot :: "TaskPlane \<Rightarrow> u64 \<Rightarrow> nat res" where
  "plane_slot p index = (if index < length (pl_slots p) then Inr (pl_slots p ! index) else Inl BadHandle)"

subsection \<open>What a slot holds\<close>

definition entry_good :: "bool \<Rightarrow> Entry \<Rightarrow> bool" where
  "entry_good output en \<longleftrightarrow> Rights_contains (en_rights en) (push_rights output) \<and> 0 < en_len en \<and>
     aligned (en_offset en) \<and> (output \<longrightarrow> aligned (en_len en)) \<and>
     (case pages (en_len en) of
        Inl _ \<Rightarrow> False
      | Inr span \<Rightarrow> en_offset en + span < U64 \<and> en_offset en + span \<le> mem_size (en_memory en))"

fun event_good :: "bool \<Rightarrow> Event \<Rightarrow> bool" where
  "event_good output (Released _) \<longleftrightarrow> \<not> output"
| "event_good output (Put en offset len) \<longleftrightarrow> output \<and> entry_good output en \<and> 0 < len \<and>
     en_offset en \<le> offset \<and> offset + len \<le> en_offset en + en_len en"
| "event_good output (Returned en) \<longleftrightarrow> output \<and> entry_good output en"

definition mapped_good :: "bool \<Rightarrow> Mapped \<Rightarrow> bool" where
  "mapped_good output m \<longleftrightarrow> entry_good output (mp_entry m) \<and> pages (en_len (mp_entry m)) = Inr (mp_span m)"

definition queues_good :: "PlaneSlot \<Rightarrow> bool" where
  "queues_good s \<longleftrightarrow> in_flight s \<le> SLOT_DEPTH \<and> (sl_ended s \<longrightarrow> sl_ready s = [] \<and> sl_current s = None) \<and>
     list_all (entry_good (sl_output s)) (sl_ready s) \<and> pred_option (mapped_good (sl_output s)) (sl_current s) \<and>
     list_all (event_good (sl_output s)) (sl_events s)"

definition signals_good :: "PlaneSlot \<Rightarrow> bool" where
  "signals_good s \<longleftrightarrow> bits (sl_engine_sig s) = engine_signals s \<and> bits (sl_task_sig s) = task_signals s"

fun event_cookie :: "Event \<Rightarrow> u64" where
  "event_cookie (Released cookie) = cookie"
| "event_cookie (Put en _ _) = en_cookie en"
| "event_cookie (Returned en) = en_cookie en"

text \<open>The cookies of what the slot has, in the order it was pushed.\<close>

definition held_cookies :: "PlaneSlot \<Rightarrow> u64 list" where
  "held_cookies s = map event_cookie (sl_events s) @
     (case sl_current s of None \<Rightarrow> [] | Some m \<Rightarrow> [en_cookie (mp_entry m)]) @ map en_cookie (sl_ready s)"

lemma length_held_cookies: "length (held_cookies s) = in_flight s"
  by (simp add: held_cookies_def in_flight_def split: option.splits)

lemma slot_refresh_sel [simp]:
  "sl_output (slot_refresh s) = sl_output s" "sl_ready (slot_refresh s) = sl_ready s"
  "sl_current (slot_refresh s) = sl_current s" "sl_events (slot_refresh s) = sl_events s"
  "sl_closed (slot_refresh s) = sl_closed s" "sl_ended (slot_refresh s) = sl_ended s"
  by (simp_all add: slot_refresh_def)

lemma refresh_same [simp]:
  "in_flight (slot_refresh s) = in_flight s" "queues_good (slot_refresh s) = queues_good s"
  "held_cookies (slot_refresh s) = held_cookies s" "task_ready (slot_refresh s) = task_ready s"
  by (simp_all add: in_flight_def queues_good_def held_cookies_def task_ready_def)

lemma refresh_signals: "engine_signals (slot_refresh s) = engine_signals s" "task_signals (slot_refresh s) = task_signals s"
  by (simp_all add: engine_signals_def task_signals_def)

lemma known_engine_signals [simp]: "known_bits (engine_signals s)"
  by (simp add: engine_signals_def Let_def)

lemma known_task_signals [simp]: "known_bits (task_signals s)"
  by (simp add: task_signals_def)

lemma signals_good_refresh:
  "known_bits (bits (sl_engine_sig s)) \<Longrightarrow> known_bits (bits (sl_task_sig s)) \<Longrightarrow> signals_good (slot_refresh s)"
  unfolding signals_good_def by (simp only: refresh_signals) (simp add: slot_refresh_def)

text \<open>An operation either leaves the slot or ends by refreshing one whose signallers it did not touch.\<close>

lemma signals_good_known: "signals_good s \<Longrightarrow> known_bits (bits (sl_engine_sig s)) \<and> known_bits (bits (sl_task_sig s))"
  by (simp add: signals_good_def)

definition slot_good :: "PlaneSlot \<Rightarrow> bool" where
  "slot_good s \<longleftrightarrow> queues_good s \<and> signals_good s"

lemma slot_good_refresh:
  "slot_good s \<Longrightarrow> queues_good t \<Longrightarrow> sl_engine_sig t = sl_engine_sig s \<Longrightarrow> sl_task_sig t = sl_task_sig s \<Longrightarrow>
    slot_good (slot_refresh t)"
  using signals_good_known [of s] by (simp add: slot_good_def signals_good_refresh)

lemma slot_good_signaller:
  "slot_good s \<Longrightarrow> bits g = bits (sl_engine_sig s) \<Longrightarrow> slot_good (s\<lparr>sl_engine_sig := g\<rparr>)"
  "slot_good s \<Longrightarrow> bits g = bits (sl_task_sig s) \<Longrightarrow> slot_good (s\<lparr>sl_task_sig := g\<rparr>)"
  "slot_good s \<Longrightarrow> slot_good (s\<lparr>sl_attached := a, sl_task := b, sl_index := i\<rparr>)"
  by (simp_all add: slot_good_def queues_good_def signals_good_def engine_signals_def task_signals_def
      task_ready_def in_flight_def)

subsection \<open>Each operation\<close>

lemma slot_push_cases:
  assumes "slot_push s memory rights offset len cookie = (r, s')"
  obtains (refused) e where "r = Inl e" "s' = s"
  | (pushed) en where "r = Inr ()" "en_cookie en = cookie" "entry_good (sl_output s) en" "in_flight s < SLOT_DEPTH"
      "\<not> sl_ended s" "s' = slot_refresh (s\<lparr>sl_ready := sl_ready s @ [en]\<rparr>)"
proof (cases r)
  case (Inl e)
  then show ?thesis
    using assms refused by (auto simp: slot_push_def split: if_splits sum.splits option.splits)
next
  case (Inr u)
  let ?en = "\<lparr>en_memory = memory, en_rights = rights, en_offset = offset, en_len = len, en_cookie = cookie\<rparr>"
  have "entry_good (sl_output s) ?en" "in_flight s < SLOT_DEPTH" "\<not> sl_ended s"
      "s' = slot_refresh (s\<lparr>sl_ready := sl_ready s @ [?en]\<rparr>)"
    using assms Inr
    by (auto simp: slot_push_def entry_good_def checked_add_def split: if_splits sum.splits option.splits)
  then show ?thesis using pushed [of ?en] Inr by simp
qed

lemma slot_push_good:
  assumes "slot_push s memory rights offset len cookie = (r, s')" "slot_good s"
  shows "slot_good s' \<and> held_cookies s' = held_cookies s @ (case r of Inl _ \<Rightarrow> [] | Inr _ \<Rightarrow> [cookie])"
  using assms(1)
proof (cases rule: slot_push_cases)
  case refused
  then show ?thesis using assms(2) by simp
next
  case (pushed en)
  then have "queues_good (s\<lparr>sl_ready := sl_ready s @ [en]\<rparr>)"
    using assms(2) by (simp add: slot_good_def queues_good_def in_flight_def)
  then show ?thesis
    using pushed slot_good_refresh [OF assms(2)] by (simp add: held_cookies_def)
qed

text \<open>The mapped entry becomes an event: its release, its record, or its return.\<close>

lemma give_back_current:
  assumes "slot_good s" "sl_current s = Some m" "event_good (sl_output s) ev"
    and "event_cookie ev = en_cookie (mp_entry m)"
    and "t = s\<lparr>sl_current := None, sl_events := sl_events s @ [ev]\<rparr>"
  shows "slot_good (slot_refresh t) \<and> held_cookies (slot_refresh t) = held_cookies s"
proof
  have "queues_good t" using assms(1,2,3) by (simp add: assms(5) slot_good_def queues_good_def in_flight_def)
  then show "slot_good (slot_refresh t)" using slot_good_refresh [OF assms(1)] by (simp add: assms(5))
  show "held_cookies (slot_refresh t) = held_cookies s"
    using assms(2,4) by (simp add: held_cookies_def assms(5))
qed

lemma get_release_good:
  assumes "get_release mx s sp = (r, s', sp')" "slot_good s" "sl_output s \<Longrightarrow> sl_current s = None"
  shows "slot_good s' \<and> held_cookies s' = held_cookies s \<and> (r = Inr () \<longrightarrow> sl_current s' = None)"
proof (cases "sl_current s")
  case None
  then show ?thesis using assms by (simp add: get_release_def)
next
  case (Some m)
  then have "event_good (sl_output s) (Released (en_cookie (mp_entry m)))" using assms(3) by auto
  from give_back_current [OF assms(2) Some this _ refl] assms(1,2) Some
  show ?thesis by (auto simp: get_release_def split: prod.splits sum.splits)
qed

lemma get_next_good:
  assumes "get_next mx os s sp mapper = (r, s', sp')" "slot_good s" "sl_current s = None"
  shows "slot_good s' \<and> held_cookies s' = held_cookies s"
proof (cases "sl_ready s")
  case Nil
  then show ?thesis using assms by (simp add: get_next_def)
next
  case (Cons en rest)
  have "queues_good (s\<lparr>sl_ready := rest, sl_current := Some
      \<lparr>mp_mapper = mapper, mp_addr = addr, mp_span = span, mp_entry = en\<rparr>\<rparr>)" if "pages (en_len en) = Inr span" for addr span
    using assms(2,3) Cons that by (auto simp: slot_good_def queues_good_def in_flight_def mapped_good_def)
  then show ?thesis
    using assms Cons slot_good_refresh [OF assms(2)]
    by (auto simp: get_next_def held_cookies_def split: prod.splits sum.splits)
qed

lemma get_turn_good:
  assumes "get_turn mx os killed w watching s sp mapper = (r, b, s', sp')" "slot_good s"
  shows "slot_good s' \<and> held_cookies s' = held_cookies s"
proof (cases "killed \<or> sl_ended s \<or> (\<exists>m. sl_current s = Some m \<and> (mp_mapper m \<noteq> mapper \<or> sl_output s))")
  case True
  then have "s' = s" using assms(1) by (auto simp: get_turn_def split: if_splits)
  then show ?thesis using assms(2) by simp
next
  case False
  obtain r1 s1 sp1 where rel: "get_release mx s sp = (r1, s1, sp1)" by (cases "get_release mx s sp") auto
  have g1: "slot_good s1 \<and> held_cookies s1 = held_cookies s \<and> (r1 = Inr () \<longrightarrow> sl_current s1 = None)"
    using False by (intro get_release_good [OF rel assms(2)]) (cases "sl_current s"; simp)
  obtain r2 s2 sp2 where nx: "get_next mx os s1 sp1 mapper = (r2, s2, sp2)" by (cases "get_next mx os s1 sp1 mapper") auto
  have turn: "s' = s1 \<or> r1 = Inr () \<and> (s' = s2 \<or> s' = s2\<lparr>sl_task_sig := snd (observe (sl_task_sig s2) w)\<rparr>)"
    using assms(1) False rel nx
    by (cases "sl_current s"; cases r1) (auto simp: get_turn_def split: option.splits if_splits)
  have g2: "slot_good s2 \<and> held_cookies s2 = held_cookies s" if "r1 = Inr ()"
    using get_next_good [OF nx] g1 that by simp
  have "held_cookies (s2\<lparr>sl_task_sig := g\<rparr>) = held_cookies s2" for g by (simp add: held_cookies_def)
  then show ?thesis
    using turn g1 g2 slot_good_signaller(2) [of s2 "snd (observe (sl_task_sig s2) w)"] by (auto simp: observe_def)
qed

lemma slot_put_cases:
  assumes "slot_put mx s sp mapper addr len = (r, s', sp')" "space_inv mx sp" "user_max mx"
  obtains (refused) e where "r = Inl e" "s' = s" "sp' = sp"
  | (put) m where "r = Inr ()" "sl_output s" "sl_current s = Some m" "mp_mapper m = mapper" "0 < len"
      "mp_addr m \<le> addr" "addr - mp_addr m + len \<le> en_len (mp_entry m)"
      "unmap_plane mx sp (mp_addr m) (mp_span m) (en_memory (mp_entry m)) = (Inr (), sp')"
      "s' = slot_refresh (s\<lparr>sl_current := None, sl_events := sl_events s @
         [Put (mp_entry m) (wadd (en_offset (mp_entry m)) (addr - mp_addr m)) len]\<rparr>)"
proof (cases "sl_output s \<and> (\<exists>m. sl_current s = Some m \<and> mp_mapper m = mapper \<and> 0 < len \<and> aligned addr \<and>
    mp_addr m \<le> addr \<and> addr - mp_addr m + len < U64 \<and> addr - mp_addr m + len \<le> en_len (mp_entry m))")
  case False
  then have "\<exists>e. r = Inl e \<and> s' = s \<and> sp' = sp"
    using assms(1) by (auto simp: slot_put_def checked_sub_def checked_add_def split: if_splits option.splits)
  then show ?thesis using refused by blast
next
  case True
  then obtain m where m: "sl_output s" "sl_current s = Some m" "mp_mapper m = mapper" "0 < len" "aligned addr"
      "mp_addr m \<le> addr" "addr - mp_addr m + len < U64" "addr - mp_addr m + len \<le> en_len (mp_entry m)" by blast
  show ?thesis
    by (rule unmap_plane_cases [OF assms(2,3), of "mp_addr m" "mp_span m" "en_memory (mp_entry m)"])
      (use assms(1) m refused put in \<open>auto simp: slot_put_def checked_sub_def checked_add_def\<close>)
qed

lemma put_event_good:
  assumes "mapped_good True m" "0 < len" "mp_addr m \<le> addr" "addr - mp_addr m + len \<le> en_len (mp_entry m)"
  shows "wadd (en_offset (mp_entry m)) (addr - mp_addr m) = en_offset (mp_entry m) + (addr - mp_addr m)"
    and "event_good True (Put (mp_entry m) (wadd (en_offset (mp_entry m)) (addr - mp_addr m)) len)"
    and "en_offset (mp_entry m) + en_len (mp_entry m) \<le> mem_size (en_memory (mp_entry m))"
proof -
  let ?en = "mp_entry m"
  have p: "entry_good True ?en" "pages (en_len ?en) = Inr (mp_span m)" using assms(1) by (simp_all add: mapped_good_def)
  then have "en_offset ?en + mp_span m < U64" "en_offset ?en + mp_span m \<le> mem_size (en_memory ?en)"
    by (simp_all add: entry_good_def)
  moreover have "en_len ?en \<le> mp_span m" by (rule pages_fits(2) [OF p(2)])
  ultimately show "wadd (en_offset ?en) (addr - mp_addr m) = en_offset ?en + (addr - mp_addr m)"
      "en_offset ?en + en_len ?en \<le> mem_size (en_memory ?en)"
    using assms(4) by simp_all
  then show "event_good True (Put ?en (wadd (en_offset ?en) (addr - mp_addr m)) len)"
    using p(1) assms(2,4) by simp
qed

text \<open>What the slot becomes does not depend on the space beyond the answer of \<open>unmap_plane\<close>.\<close>

lemma slot_put_good:
  assumes "slot_put mx s sp mapper addr len = (r, s', sp')" "slot_good s"
  shows "slot_good s' \<and> held_cookies s' = held_cookies s"
proof (cases "s' = s")
  case False
  then obtain m where m: "sl_output s" "sl_current s = Some m" "0 < len" "mp_addr m \<le> addr"
      "addr - mp_addr m + len \<le> en_len (mp_entry m)"
      "s' = slot_refresh (s\<lparr>sl_current := None, sl_events := sl_events s @
         [Put (mp_entry m) (wadd (en_offset (mp_entry m)) (addr - mp_addr m)) len]\<rparr>)"
    using assms(1)
    by (auto simp: slot_put_def checked_sub_def checked_add_def split: if_splits option.splits prod.splits sum.splits)
  have "mapped_good True m" using assms(2) m(1,2) by (simp add: slot_good_def queues_good_def)
  from put_event_good(2) [OF this m(3,4,5)]
  show ?thesis using give_back_current [OF assms(2) m(2) _ _ refl] m(1,6) by simp
qed (use assms(2) in simp)

lemma give_event_simps [simp]:
  "entry_good output en \<Longrightarrow> event_good output (give_event output en)"
  "event_cookie (give_event output en) = en_cookie en"
  by (auto simp: give_event_def)

lemma slot_detach_good:
  assumes "slot_detach mx s psp = (s', psp')" "slot_good s"
  shows "slot_good s' \<and> held_cookies s' = held_cookies s \<and> sl_ended s'"
proof (cases "sl_ended s")
  case False
  define held where "held = (case sl_current s of None \<Rightarrow> [] | Some m \<Rightarrow> [give_event (sl_output s) (mp_entry m)])"
  define t where "t = s\<lparr>sl_ended := True, sl_current := None, sl_ready := [],
    sl_events := sl_events s @ held @ map (give_event (sl_output s)) (sl_ready s)\<rparr>"
  have s': "s' = slot_refresh t"
    using assms(1) False by (auto simp: slot_detach_def t_def held_def split: option.splits)
  have "queues_good t" using assms(2)
    by (auto simp: t_def held_def slot_good_def queues_good_def in_flight_def mapped_good_def list_all_iff
        split: option.splits)
  moreover have "held_cookies t = held_cookies s"
    by (simp add: t_def held_def held_cookies_def split: option.splits)
  moreover have "sl_engine_sig t = sl_engine_sig s" "sl_task_sig t = sl_task_sig s" "sl_ended t"
    by (simp_all add: t_def)
  ultimately show ?thesis using slot_good_refresh [OF assms(2)] by (simp add: s')
qed (use assms in \<open>simp add: slot_detach_def\<close>)

lemma slot_take_good:
  assumes "slot_take s ins = (r, s')" "slot_good s"
  shows "slot_good s' \<and> held_cookies s =
    (case r of Inl _ \<Rightarrow> [] | Inr _ \<Rightarrow> [event_cookie (hd (sl_events s))]) @ held_cookies s'"
proof (cases "\<exists>front rest. sl_events s = front # rest \<and> ins (taken_of front) = Inr ()")
  case False
  then have "s' = s \<and> (\<exists>e. r = Inl e)"
    using assms(1) by (cases "sl_events s"; cases "ins (taken_of (hd (sl_events s)))") (auto simp: slot_take_def, metis)
  then show ?thesis using assms(2) by auto
next
  case True
  then obtain front rest where f: "sl_events s = front # rest" "ins (taken_of front) = Inr ()" by blast
  then have s': "s' = slot_refresh (s\<lparr>sl_events := rest\<rparr>)" "r = Inr ()" using assms(1) by (simp_all add: slot_take_def)
  have "queues_good (s\<lparr>sl_events := rest\<rparr>)"
    using assms(2) f by (simp add: slot_good_def queues_good_def in_flight_def)
  then show ?thesis
    using slot_good_refresh [OF assms(2), of "s\<lparr>sl_events := rest\<rparr>"] f by (simp add: s' held_cookies_def)
qed

lemma slot_close_good: "slot_good s \<Longrightarrow> slot_good (slot_close s) \<and> held_cookies (slot_close s) = held_cookies s"
proof -
  assume g: "slot_good s"
  then have "queues_good (s\<lparr>sl_closed := True\<rparr>)" by (simp add: slot_good_def queues_good_def in_flight_def)
  then show ?thesis using slot_good_refresh [OF g, of "s\<lparr>sl_closed := True\<rparr>"] by (simp add: slot_close_def held_cookies_def)
qed

lemma Slot_new_good:
  assumes "Slot_new ok flags l = (Inr s, l')"
  shows "slot_good s" "held_cookies s = []" "sl_output s \<longleftrightarrow> flags = slot_OUTPUT"
  using assms
  by (auto simp: Slot_new_def slot_good_def queues_good_def signals_good_def held_cookies_def in_flight_def
      engine_signals_def task_signals_def task_ready_def Signaller_new_def Signals_union_def S_NONE_def abi_consts Let_def
      split: if_splits prod.splits sum.splits)

subsection \<open>A slot over its life\<close>

text \<open>
  The engine, the task and a server that serves it call in any order, on whatever spaces the processes
  have at the time; the run keeps the cookies pushed and those of the events taken.\<close>

record SlotRun =
  r_slot :: PlaneSlot
  r_pushed :: "u64 list"
  r_taken :: "u64 list"

datatype slot_op =
    SPush MemoryObject rights u64 u64 u64
  | SClose
  | SAttach nat nat
  | STurn u64 Ostd bool waker bool Space nat
  | SEnd waker bool
  | SPut u64 Space nat u64 u64
  | SDetach u64 "Space option"
  | STake "Taken \<Rightarrow> unit res"
  | SObserve waker
  | SUnobserve waker

fun slot_apply :: "slot_op \<Rightarrow> SlotRun \<Rightarrow> SlotRun" where
  "slot_apply (SPush memory rights offset len cookie) r =
     (case slot_push (r_slot r) memory rights offset len cookie of
        (Inl _, s) \<Rightarrow> r\<lparr>r_slot := s\<rparr>
      | (Inr _, s) \<Rightarrow> r\<lparr>r_slot := s, r_pushed := r_pushed r @ [cookie]\<rparr>)"
| "slot_apply SClose r = r\<lparr>r_slot := slot_close (r_slot r)\<rparr>"
| "slot_apply (SAttach task index) r = r\<lparr>r_slot := snd (slot_attach (r_slot r) task index)\<rparr>"
| "slot_apply (STurn mx os killed w watching sp mapper) r =
     r\<lparr>r_slot := fst (snd (snd (get_turn mx os killed w watching (r_slot r) sp mapper)))\<rparr>"
| "slot_apply (SEnd w watching) r = r\<lparr>r_slot := get_end w watching (r_slot r)\<rparr>"
| "slot_apply (SPut mx sp mapper addr len) r = r\<lparr>r_slot := fst (snd (slot_put mx (r_slot r) sp mapper addr len))\<rparr>"
| "slot_apply (SDetach mx psp) r = r\<lparr>r_slot := fst (slot_detach mx (r_slot r) psp)\<rparr>"
| "slot_apply (STake ins) r =
     (case slot_take (r_slot r) ins of
        (Inl _, s) \<Rightarrow> r\<lparr>r_slot := s\<rparr>
      | (Inr _, s) \<Rightarrow> r\<lparr>r_slot := s, r_taken := r_taken r @ [event_cookie (hd (sl_events (r_slot r)))]\<rparr>)"
| "slot_apply (SObserve w) r =
     r\<lparr>r_slot := (r_slot r)\<lparr>sl_engine_sig := snd (observe (sl_engine_sig (r_slot r)) w)\<rparr>\<rparr>"
| "slot_apply (SUnobserve w) r =
     r\<lparr>r_slot := (r_slot r)\<lparr>sl_engine_sig := unobserve (sl_engine_sig (r_slot r)) w\<rparr>\<rparr>"

inductive slot_step :: "SlotRun \<Rightarrow> SlotRun \<Rightarrow> bool" where
  "slot_step r (slot_apply op r)"

definition slot_start :: "SlotRun \<Rightarrow> bool" where
  "slot_start r \<longleftrightarrow> (\<exists>ok flags l l'. Slot_new ok flags l = (Inr (r_slot r), l')) \<and> r_pushed r = [] \<and> r_taken r = []"

definition run_good :: "SlotRun \<Rightarrow> bool" where
  "run_good r \<longleftrightarrow> slot_good (r_slot r) \<and> r_pushed r = r_taken r @ held_cookies (r_slot r)"

lemma held_cookies_upd [simp]:
  "held_cookies (s\<lparr>sl_engine_sig := g\<rparr>) = held_cookies s" "held_cookies (s\<lparr>sl_task_sig := g\<rparr>) = held_cookies s"
  "held_cookies (s\<lparr>sl_attached := a, sl_task := b, sl_index := i\<rparr>) = held_cookies s"
  by (simp_all add: held_cookies_def)

lemma slot_apply_good: "run_good r \<Longrightarrow> run_good (slot_apply op r)"
proof (cases op)
  case (SPush memory rights offset len cookie)
  assume "run_good r"
  then show ?thesis
    using slot_push_good [of "r_slot r" memory rights offset len cookie]
    by (cases "slot_push (r_slot r) memory rights offset len cookie")
      (auto simp: SPush run_good_def split: sum.splits)
next
  case (STurn mx os killed w watching sp mapper)
  assume "run_good r"
  then show ?thesis
    using get_turn_good [of mx os killed w watching "r_slot r" sp mapper]
    by (cases "get_turn mx os killed w watching (r_slot r) sp mapper") (auto simp: STurn run_good_def)
next
  case (SPut mx sp mapper addr len)
  assume "run_good r"
  then show ?thesis
    using slot_put_good [of mx "r_slot r" sp mapper addr len]
    by (cases "slot_put mx (r_slot r) sp mapper addr len") (auto simp: SPut run_good_def)
next
  case (SDetach mx psp)
  assume "run_good r"
  then show ?thesis
    using slot_detach_good [of mx "r_slot r" psp]
    by (cases "slot_detach mx (r_slot r) psp") (auto simp: SDetach run_good_def)
next
  case (STake ins)
  assume "run_good r"
  then show ?thesis
    using slot_take_good [of "r_slot r" ins]
    by (cases "slot_take (r_slot r) ins") (auto simp: STake run_good_def split: sum.splits)
qed (auto simp: run_good_def slot_attach_def get_end_def slot_close_good slot_good_signaller observe_def unobserve_def)

interpretation slots: transition_system slot_start slot_step run_good
proof
  show "run_good r" if "slot_start r" for r
    using that Slot_new_good by (auto simp: slot_start_def run_good_def)
  show "run_good t" if "run_good r" "slot_step r t" for r t
    using that(2,1) by (cases rule: slot_step.cases) (simp add: slot_apply_good)
qed

subsection \<open>A window mapped and handed back\<close>

text \<open>The slot of an output, one window of two pages pushed into it, and a task that maps it.\<close>

definition demo_memory :: MemoryObject where
  "demo_memory = \<lparr>mem_id = 5, frames = [10, 11, 12, 13], mem_size = 16384, mem_dma = False, mem_run = None, mem_charge = 0\<rparr>"

definition demo_slot :: PlaneSlot where
  "demo_slot = projr (fst (Slot_new True slot_OUTPUT (Ledger_new (2 ^ 40))))"

definition demo_entry :: Entry where
  "demo_entry = \<lparr>en_memory = demo_memory, en_rights = Rights_union (Rights_union R_READ R_WRITE) R_MAP, en_offset = 8192,
     en_len = 8192, en_cookie = 77\<rparr>"

definition demo_pushed :: PlaneSlot where
  "demo_pushed = snd (slot_push demo_slot demo_memory (en_rights demo_entry) 8192 8192 77)"

lemma demo_slot_is: "Slot_new True slot_OUTPUT (Ledger_new (2 ^ 40)) =
    (Inr demo_slot, snd (Slot_new True slot_OUTPUT (Ledger_new (2 ^ 40))))"
  "sl_output demo_slot" "sl_ready demo_slot = []" "sl_current demo_slot = None" "sl_events demo_slot = []"
  "\<not> sl_closed demo_slot" "\<not> sl_ended demo_slot"
  by (simp_all add: demo_slot_def Slot_new_def ledger_charge_def Ledger_charge_def Ledger_fits_def Ledger_new_def abi_consts
      U64_def checked_add_def wadd_def)

lemma demo_pushed_is: "slot_push demo_slot demo_memory (en_rights demo_entry) 8192 8192 77 = (Inr (), demo_pushed)"
  "demo_pushed = slot_refresh (demo_slot\<lparr>sl_ready := [demo_entry]\<rparr>)"
proof -
  have "slot_push demo_slot demo_memory (en_rights demo_entry) 8192 8192 77 =
      (Inr (), slot_refresh (demo_slot\<lparr>sl_ready := [demo_entry]\<rparr>))"
    by (simp add: slot_push_def demo_slot_is demo_pages demo_entry_def push_rights_def Rights_contains_def aligned_def
        PAGE_SIZE_def checked_add_def U64_def demo_memory_def in_flight_def SLOT_DEPTH_def)
  then show "slot_push demo_slot demo_memory (en_rights demo_entry) 8192 8192 77 = (Inr (), demo_pushed)"
    "demo_pushed = slot_refresh (demo_slot\<lparr>sl_ready := [demo_entry]\<rparr>)"
    by (simp_all add: demo_pushed_def)
qed

lemma demo_pushed_good: "slot_good demo_pushed"
  using slot_push_good [OF demo_pushed_is(1) Slot_new_good(1) [OF demo_slot_is(1)]] by simp

definition demo_window :: Space where
  "demo_window = snd (map_plane demo_mx demo_os demo_new demo_memory 2 8192 True)"

lemma demo_window_is:
  "map_plane demo_mx demo_os demo_new demo_memory 2 8192 True = (Inr (MAP_BASE + 4096), demo_window)"
  "areas demo_window = [(MAP_BASE + 4096, \<lparr>a_end = MAP_BASE + 12288, a_kind = Plane, a_prot = map_READ OR map_WRITE,
     a_backing = Object demo_memory 2 True\<rparr>)]"
proof -
  let ?a = "\<lparr>a_end = 0x100000003000, a_kind = Plane, a_prot = map_READ OR map_WRITE, a_backing = Object demo_memory 2 True\<rparr>"
  let ?w = "demo_new\<lparr>account := with_used (account demo_new) 12384, charged := 12384, tables_n := wadd 0 3,
    areas := [(0x100000001000, ?a)]\<rparr>"
  have none: "areas demo_new = []" "tables_n demo_new = 0" "zero demo_new = []" by (simp_all add: demo_new_def)
  have i: "MAP_BASE = 0x100000000000" "wadd 0x100000001000 8192 = 0x100000003000"
    by (simp_all add: MAP_BASE_def IMAGE_END_def wadd_def U64_def)
  have prot: "check_prot (map_READ OR map_WRITE) (Object demo_memory 2 True) = Inr ()"
    by (simp add: check_prot_def abi_consts)
  have place: "map_place demo_mx demo_new None 8192 False = (Inr 0x100000001000, demo_new)"
    by (simp add: map_place_def find_free_def none bt_from_def i PAGE_SIZE_def checked_add_def U64_def demo_end)
  have t: "t_pages (tables [(0x100000001000, 0x100000003000)] None None 0x7ffffffff000) = 3"
    by (simp add: tables_def charge_TABLE_REGIONS_def Let_def regions_def)
  have c: "wadd charge_AREA (Tables_bytes (tables [(0x100000001000, 0x100000003000)] None None 0x7ffffffff000)) = 12384"
    by (simp add: Tables_bytes_def t abi_consts wadd_def wmul_def U64_def)
  have f: "fill_ptes demo_os x 0x100000001000 ?a 0x100000001000 0x100000003000 = Inr ()" for x
    by (simp add: fill_ptes_def demo_os_def demo_memory_def PAGE_SIZE_def slice_def Let_def)
  have "map_at demo_mx demo_os demo_new 0x100000001000 8192 ?a = (Inr 0x100000001000, ?w)"
    unfolding map_at_def i by (simp add: neighbours_def none bt_to_def bt_from_def demo_end c demo_charge t f Let_def)
  then have m: "map_plane demo_mx demo_os demo_new demo_memory 2 8192 True = (Inr 0x100000001000, ?w)"
    unfolding map_plane_def map_area_def by (simp add: prot demo_pages place) (simp add: i)
  show "map_plane demo_mx demo_os demo_new demo_memory 2 8192 True = (Inr (MAP_BASE + 4096), demo_window)"
    by (simp add: demo_window_def m i)
  show "areas demo_window = [(MAP_BASE + 4096, \<lparr>a_end = MAP_BASE + 12288, a_kind = Plane, a_prot = map_READ OR map_WRITE,
     a_backing = Object demo_memory 2 True\<rparr>)]" by (simp add: demo_window_def m i)
qed

definition demo_mapped :: Mapped where
  "demo_mapped = \<lparr>mp_mapper = 3, mp_addr = MAP_BASE + 4096, mp_span = 8192, mp_entry = demo_entry\<rparr>"

definition demo_got :: PlaneSlot where
  "demo_got = slot_refresh (demo_pushed\<lparr>sl_ready := [], sl_current := Some demo_mapped\<rparr>)"

lemma demo_get: "get_turn demo_mx demo_os False 9 False demo_pushed demo_new 3 =
    (Some (Inr (MAP_BASE + 4096, 8192)), False, demo_got, demo_window)"
  using demo_window_is(1)
  by (simp add: get_turn_def get_release_def get_next_def demo_pushed_is(2) demo_slot_is demo_entry_def demo_pages
      PAGE_SIZE_def demo_got_def demo_mapped_def)

lemma demo_got_good: "slot_good demo_got"
  using get_turn_good [OF demo_get demo_pushed_good] by simp

subsection \<open>What a turn of \<open>Slot::get\<close> answers\<close>

lemma get_next_answer:
  assumes "get_next mx os s sp mapper = (Some (Inr (addr, len)), s', sp')" "vm_good mx sp" "user_max mx"
    and "list_all (entry_good (sl_output s)) (sl_ready s)"
  obtains (ended) "addr = 0" "len = 0" "sl_ready s = []" "sl_closed s" "s' = s" "sp' = sp"
  | (mapped) en rest span where "sl_ready s = en # rest" "pages (en_len en) = Inr span" "len = en_len en"
      "sl_ready s' = rest"
      "sl_current s' = Some \<lparr>mp_mapper = mapper, mp_addr = addr, mp_span = span, mp_entry = en\<rparr>"
      "MAP_BASE < addr" "\<forall>x. addr \<le> x \<and> x < addr + span \<longrightarrow> view (areas sp) x = None"
      "view (areas sp') = spec_map addr (addr + span) Plane (if sl_output s then map_READ OR map_WRITE else map_READ)
         (Object (en_memory en) (en_offset en div PAGE_SIZE) (sl_output s)) (view (areas sp))"
proof (cases "sl_ready s")
  case Nil
  have "addr = 0" "len = 0" "sl_closed s" "s' = s" "sp' = sp"
    using assms(1) Nil by (simp_all add: get_next_def split: if_splits)
  then show ?thesis using ended Nil by blast
next
  case (Cons en rest)
  have "entry_good (sl_output s) en" using assms(4) Cons by simp
  then obtain span where span: "pages (en_len en) = Inr span" by (auto simp: entry_good_def split: sum.splits)
  have v: "space_inv mx sp" "base_clear (areas sp)" using assms(2) by (simp_all add: vm_good_def)
  let ?p = "if sl_output s then map_READ OR map_WRITE else map_READ"
  let ?b = "Object (en_memory en) (en_offset en div PAGE_SIZE) (sl_output s)"
  show ?thesis
  proof (rule map_area_cases [OF v(1) assms(3), of None os span Plane ?p ?b False])
    fix e sp1
    assume "map_area mx os sp None span Plane ?p ?b False = (Inl e, sp1)"
    then show ?thesis using assms(1) Cons span by (simp add: get_next_def map_plane_def)
  next
    fix va n sp1
    assume m: "map_area mx os sp None span Plane ?p ?b False = (Inr va, sp1)" "pages span = Inr n"
      "view (areas sp1) = spec_map va (va + n) Plane ?p ?b (view (areas sp))"
      "False \<or> (\<forall>x. va \<le> x \<and> x < va + n \<longrightarrow> view (areas sp) x = None)" "None = None \<Longrightarrow> MAP_BASE < va"
    have "span + (PAGE_SIZE - 1) < U64" using m(2) by (simp add: pages_Inr)
    then have "n = span" using pages_aligned [OF pages_fits(1) [OF span]] m(2) by simp
    moreover have "s' = slot_refresh (s\<lparr>sl_ready := rest, sl_current := Some
        \<lparr>mp_mapper = mapper, mp_addr = va, mp_span = span, mp_entry = en\<rparr>\<rparr>) \<and> sp' = sp1 \<and> addr = va \<and> len = en_len en"
      using assms(1) Cons span m(1) by (auto simp: get_next_def map_plane_def)
    ultimately show ?thesis using mapped Cons span m by simp
  qed (use v(2) in simp)
qed

lemma get_release_view:
  assumes "get_release mx s sp = (Inr (), s', sp')" "vm_good mx sp" "user_max mx"
  shows "vm_good mx sp' \<and> sl_ready s' = sl_ready s \<and> sl_output s' = sl_output s \<and> sl_closed s' = sl_closed s \<and>
    view (areas sp') = (case sl_current s of None \<Rightarrow> view (areas sp)
      | Some m \<Rightarrow> spec_unmap (mp_addr m) (mp_addr m + mp_span m) (view (areas sp)))"
proof (cases "sl_current s")
  case None
  then show ?thesis using assms by (simp add: get_release_def)
next
  case (Some m)
  have v: "space_inv mx sp" "base_clear (areas sp)" using assms(2) by (simp_all add: vm_good_def)
  show ?thesis
    by (rule unmap_plane_cases [OF v(1) assms(3), of "mp_addr m" "mp_span m" "en_memory (mp_entry m)"])
      (use assms(1) Some v(2) in \<open>auto simp: get_release_def vm_good_def base_clear_def\<close>)
qed

lemma get_turn_answer:
  assumes "get_turn mx os killed w watching s sp mapper = (Some (Inr a), b, s', sp')"
  obtains (again) m where "sl_output s" "sl_current s = Some m" "mp_mapper m = mapper"
      "a = (mp_addr m, en_len (mp_entry m))" "s' = s" "sp' = sp"
  | (fetched) s1 sp1 where "get_release mx s sp = (Inr (), s1, sp1)" "get_next mx os s1 sp1 mapper = (Some (Inr a), s', sp')"
      "sl_output s \<longrightarrow> sl_current s = None"
proof (cases "\<exists>m. sl_output s \<and> sl_current s = Some m \<and> mp_mapper m = mapper")
  case True
  then show ?thesis using assms again by (auto simp: get_turn_def split: if_splits)
next
  case False
  then have "\<exists>s1 sp1. get_release mx s sp = (Inr (), s1, sp1) \<and> get_next mx os s1 sp1 mapper = (Some (Inr a), s', sp') \<and>
      (sl_output s \<longrightarrow> sl_current s = None)"
    using assms
    by (auto simp: get_turn_def split: if_splits option.splits prod.splits sum.splits)
  then show ?thesis using fetched by blast
qed

subsection \<open>The bytes of an event\<close>

fun event_fields :: "Event \<Rightarrow> u32 \<times> u64 \<times> u64 \<times> u64" where
  "event_fields (Released cookie) = (event_RELEASED, cookie, 0, 0)"
| "event_fields (Put en offset len) = (event_PUT, en_cookie en, offset, len)"
| "event_fields (Returned en) = (event_RETURNED, en_cookie en, en_offset en, en_len en)"

lemma event_bytes_eq: "event_bytes kind cookie = to_le 4 kind @ replicate 4 0 @ to_le 8 cookie @ replicate 16 0"
proof -
  have "write_u32 (replicate 32 0) 0 kind = (True, to_le 4 kind @ replicate 28 0)"
    by (simp add: write_u32_def checked_add_def U64_def slice_def)
  moreover have "write_u64 (to_le 4 kind @ replicate 28 0) 8 cookie =
      (True, to_le 4 kind @ replicate 4 0 @ to_le 8 cookie @ replicate 16 0)"
    by (simp add: write_u64_def checked_add_def U64_def slice_def length_to_le)
  ultimately show ?thesis by (simp add: event_bytes_def abi_consts)
qed

lemma event_range_eq:
  "event_range (event_bytes kind cookie) offset len =
     to_le 4 kind @ replicate 4 0 @ to_le 8 cookie @ to_le 8 offset @ to_le 8 len"
proof -
  have "write_u64 (event_bytes kind cookie) 16 offset =
      (True, to_le 4 kind @ replicate 4 0 @ to_le 8 cookie @ to_le 8 offset @ replicate 8 0)"
    by (simp add: event_bytes_eq write_u64_def checked_add_def U64_def slice_def length_to_le)
  moreover have "write_u64 (to_le 4 kind @ replicate 4 0 @ to_le 8 cookie @ to_le 8 offset @ replicate 8 0) 24 len =
      (True, to_le 4 kind @ replicate 4 0 @ to_le 8 cookie @ to_le 8 offset @ to_le 8 len)"
    by (simp add: write_u64_def checked_add_def U64_def slice_def length_to_le)
  ultimately show ?thesis by (simp add: event_range_def abi_consts)
qed

lemma to_le_0: "to_le n 0 = replicate n 0"
  by (induction n) simp_all

lemma taken_bytes:
  "event_fields ev = (kind, cookie, offset, len) \<Longrightarrow>
    tk_bytes (taken_of ev) = to_le 4 kind @ to_le 4 0 @ to_le 8 cookie @ to_le 8 offset @ to_le 8 len"
  by (cases ev) (auto simp: event_range_eq [unfolded event_bytes_eq] event_bytes_eq to_le_0 replicate_add [symmetric])

subsection \<open>What a sleeping \<open>Slot::get\<close> sees\<close>

lemma sig_run_append: "sig_run (os @ os') g = sig_run os' (sig_run os g)"
  by (induction os arbitrary: g) simp_all

lemma sig_trace_end: "bits (sig_run os g) \<in> set (sig_trace os g)"
  by (induction os arbitrary: g) simp_all

text \<open>What an operation does to the task's signaller is a run of updates and registrations.\<close>

definition sig_evolves :: "waker \<Rightarrow> Signaller \<Rightarrow> Signaller \<Rightarrow> bool" where
  "sig_evolves w g h \<longleftrightarrow> (\<exists>os. Unobserve w \<notin> set os \<and> h = sig_run os g)"

lemma sig_evolves_refl [simp]: "sig_evolves w g g"
  unfolding sig_evolves_def by (rule exI [of _ "[]"]) simp

lemma sig_evolves_trans: "sig_evolves w g h \<Longrightarrow> sig_evolves w h i \<Longrightarrow> sig_evolves w g i"
proof -
  assume "sig_evolves w g h" "sig_evolves w h i"
  then obtain os os' where "Unobserve w \<notin> set (os @ os')" "i = sig_run (os @ os') g"
    unfolding sig_evolves_def sig_run_append by auto
  then show ?thesis unfolding sig_evolves_def by blast
qed

lemma sig_evolves_steps:
  "sig_evolves w g (set_signals g b)" "sig_evolves w g (snd (observe g v))" "v \<noteq> w \<Longrightarrow> sig_evolves w g (unobserve g v)"
proof -
  show "sig_evolves w g (set_signals g b)"
    unfolding sig_evolves_def set_signals_def by (rule exI [of _ "[Update (Signals_difference S_ALL b) b]"]) simp
  show "sig_evolves w g (snd (observe g v))"
    unfolding sig_evolves_def by (rule exI [of _ "[Observe v]"]) simp
  show "sig_evolves w g (unobserve g v)" if "v \<noteq> w"
    unfolding sig_evolves_def using that by (intro exI [of _ "[Unobserve v]"]) simp
qed

lemma sig_evolves_refresh: "sl_task_sig t = sl_task_sig s \<Longrightarrow> sig_evolves w (sl_task_sig s) (sl_task_sig (slot_refresh t))"
  using sig_evolves_steps(1) by (simp add: slot_refresh_def)

lemma get_release_sig: "get_release mx s sp = (r, s', sp') \<Longrightarrow> sig_evolves w (sl_task_sig s) (sl_task_sig s')"
  by (auto simp: get_release_def intro: sig_evolves_refresh split: option.splits prod.splits sum.splits)

lemma get_next_sig: "get_next mx os s sp mapper = (r, s', sp') \<Longrightarrow> sig_evolves w (sl_task_sig s) (sl_task_sig s')"
  by (auto simp: get_next_def intro: sig_evolves_refresh split: list.splits prod.splits sum.splits)

lemma get_turn_sig:
  assumes "get_turn mx os killed v watching s sp mapper = (r, b, s', sp')"
  shows "sig_evolves w (sl_task_sig s) (sl_task_sig s')"
proof (cases "s' = s")
  case False
  obtain r1 s1 sp1 where rel: "get_release mx s sp = (r1, s1, sp1)" by (cases "get_release mx s sp") auto
  obtain r2 s2 sp2 where nx: "get_next mx os s1 sp1 mapper = (r2, s2, sp2)" by (cases "get_next mx os s1 sp1 mapper") auto
  have "s' = s1 \<or> s' = s2 \<or> s' = s2\<lparr>sl_task_sig := snd (observe (sl_task_sig s2) v)\<rparr>"
    using assms False rel nx by (auto simp: get_turn_def split: if_splits option.splits sum.splits)
  then show ?thesis
    using get_release_sig [OF rel, of w] get_next_sig [OF nx, of w] sig_evolves_steps(2) [of w "sl_task_sig s2" v]
    by (auto intro: sig_evolves_trans)
qed simp

lemma slot_push_sig: "sig_evolves w (sl_task_sig s) (sl_task_sig (snd (slot_push s memory rights offset len cookie)))"
  by (auto simp: slot_push_def intro: sig_evolves_refresh split: option.splits sum.splits)

lemma slot_put_sig: "sig_evolves w (sl_task_sig s) (sl_task_sig (fst (snd (slot_put mx s sp mapper addr len))))"
  by (auto simp: slot_put_def intro: sig_evolves_refresh split: option.splits sum.splits prod.splits)

lemma slot_detach_sig: "sig_evolves w (sl_task_sig s) (sl_task_sig (fst (slot_detach mx s psp)))"
  by (auto simp: slot_detach_def intro: sig_evolves_refresh split: option.splits)

lemma slot_take_sig: "sig_evolves w (sl_task_sig s) (sl_task_sig (snd (slot_take s ins)))"
  by (auto simp: slot_take_def intro: sig_evolves_refresh split: list.splits sum.splits)

lemma slot_apply_sig:
  assumes "op \<noteq> SEnd w True"
  shows "sig_evolves w (sl_task_sig (r_slot r)) (sl_task_sig (r_slot (slot_apply op r)))"
proof (cases op)
  case (SPush memory rights offset len cookie)
  then show ?thesis
    using slot_push_sig [of w "r_slot r" memory rights offset len cookie] by (auto split: prod.splits sum.splits)
next
  case (STurn mx os killed v watching sp mapper)
  then show ?thesis
    using get_turn_sig [of mx os killed v watching "r_slot r" sp mapper]
    by (cases "get_turn mx os killed v watching (r_slot r) sp mapper") auto
next
  case (SEnd v b)
  then show ?thesis using assms sig_evolves_steps(3) [of v w] by (auto simp: get_end_def)
next
  case (STake ins)
  then show ?thesis using slot_take_sig [of w "r_slot r" ins] by (auto split: prod.splits sum.splits)
qed (auto simp: slot_close_def slot_attach_def slot_put_sig slot_detach_sig intro: sig_evolves_refresh)

lemma slot_run_sig:
  "SEnd w True \<notin> set ops \<Longrightarrow>
    sig_evolves w (sl_task_sig (r_slot r)) (sl_task_sig (r_slot (foldl (\<lambda>r op. slot_apply op r) r ops)))"
proof (induction ops arbitrary: r)
  case (Cons op ops)
  then have "op \<noteq> SEnd w True" "SEnd w True \<notin> set ops" by auto
  then show ?case using sig_evolves_trans [OF slot_apply_sig Cons.IH] by simp
qed simp

lemma slot_run_good: "run_good r \<Longrightarrow> run_good (foldl (\<lambda>r op. slot_apply op r) r ops)"
  by (induction ops arbitrary: r) (simp_all add: slot_apply_good)

text \<open>A turn that registered the waker found nothing: not the end, and no entry.\<close>

lemma get_turn_sleeps:
  assumes "get_turn mx os killed w False s sp mapper = (None, b, s', sp')"
  shows "b \<and> w \<in> set (observers (sl_task_sig s')) \<and> \<not> task_ready s'"
proof -
  obtain r1 s1 sp1 where rel: "get_release mx s sp = (r1, s1, sp1)" by (cases "get_release mx s sp") auto
  obtain r2 s2 sp2 where nx: "get_next mx os s1 sp1 mapper = (r2, s2, sp2)" by (cases "get_next mx os s1 sp1 mapper") auto
  have t: "b" "\<not> sl_ended s" "r2 = None" "s' = s2\<lparr>sl_task_sig := snd (observe (sl_task_sig s2) w)\<rparr>"
    using assms rel nx by (auto simp: get_turn_def split: if_splits option.splits sum.splits)
  have "sl_ended s1 = sl_ended s"
    using rel by (auto simp: get_release_def split: option.splits prod.splits sum.splits)
  moreover have "s2 = s1 \<and> sl_ready s1 = [] \<and> \<not> sl_closed s1"
    using nx t(3) by (auto simp: get_next_def split: list.splits prod.splits sum.splits if_splits)
  ultimately show ?thesis using t by (simp add: task_ready_def observe_def)
qed

subsection \<open>Binding a plane\<close>

lemma bind_attach_all:
  assumes "distinct sls" "\<forall>sl \<in> set sls. \<not> sl_attached (st sl)"
  shows "bind_attach task i bound sls st = (Inr (), \<lambda>x. case map_of (zip sls [i..<i + length sls]) x of
      None \<Rightarrow> st x
    | Some j \<Rightarrow> (st x)\<lparr>sl_attached := True, sl_task := Some task, sl_index := j\<rparr>)"
  using assms
proof (induction sls arbitrary: i bound st)
  case (Cons sl sls)
  let ?st = "st(sl := (st sl)\<lparr>sl_attached := True, sl_task := Some task, sl_index := i\<rparr>)"
  have "\<forall>x \<in> set sls. \<not> sl_attached (?st x)" "distinct sls" "sl \<notin> set sls" using Cons.prems by auto
  then have "bind_attach task (Suc i) (bound @ [sl]) sls ?st = (Inr (), \<lambda>x. case map_of (zip sls [Suc i..<Suc i + length sls]) x of
      None \<Rightarrow> ?st x | Some j \<Rightarrow> (?st x)\<lparr>sl_attached := True, sl_task := Some task, sl_index := j\<rparr>)"
    using Cons.IH by blast
  moreover have "[i..<i + length (sl # sls)] = i # [Suc i..<Suc i + length sls]"
    by (subst upt_conv_Cons) simp_all
  moreover have "map_of (zip sls js) sl = None" for js :: "nat list"
    using \<open>sl \<notin> set sls\<close> by (auto simp: map_of_eq_None_iff dest: set_zip_leftD)
  ultimately show ?case using Cons.prems(2) by (auto simp: slot_attach_def fun_eq_iff split: option.splits)
qed (simp add: fun_eq_iff)

text \<open>A plane binds each of its slots to its number, or none; slot \<open>i\<close> of it is then the one given.\<close>

lemma Plane_bind_all_or_nothing:
  assumes "Plane_bind task sls endpoint st = (r, st')"
  shows "case r of
      Inl _ \<Rightarrow> st' = st
    | Inr p \<Rightarrow> distinct sls \<and> (\<forall>sl \<in> set sls. \<not> sl_attached (st sl)) \<and> (\<forall>x. x \<notin> set sls \<longrightarrow> st' x = st x) \<and>
        (\<forall>i < length sls. plane_slot p i = Inr (sls ! i) \<and>
          st' (sls ! i) = (st (sls ! i))\<lparr>sl_attached := True, sl_task := Some task, sl_index := i\<rparr>)"
proof (cases "distinct sls \<and> (\<forall>sl \<in> set sls. \<not> sl_attached (st sl))")
  case True
  then have b: "bind_attach task 0 [] sls st = (Inr (), \<lambda>x. case map_of (zip sls [0..<length sls]) x of
      None \<Rightarrow> st x | Some j \<Rightarrow> (st x)\<lparr>sl_attached := True, sl_task := Some task, sl_index := j\<rparr>)"
    using bind_attach_all [of sls st task 0 "[]"] by simp
  have at': "map_of (zip sls [0..<length sls]) (sls ! i) = Some i" if "i < length sls" for i
    using True that by (simp add: map_of_zip_nth)
  have out: "map_of (zip sls [0..<length sls]) x = None" if "x \<notin> set sls" for x
    using that by (auto simp: map_of_eq_None_iff dest: set_zip_leftD)
  have "\<not> list_ex (\<lambda>sl. sl_attached (st sl)) sls" using True by (simp add: list_ex_iff)
  then have "r = Inr \<lparr>pl_slots = sls, pl_port = endpoint\<rparr>" "st' = (\<lambda>x. case map_of (zip sls [0..<length sls]) x of
      None \<Rightarrow> st x | Some j \<Rightarrow> (st x)\<lparr>sl_attached := True, sl_task := Some task, sl_index := j\<rparr>)"
    using assms True by (auto simp: Plane_bind_def b)
  then show ?thesis using True by (simp add: at' out plane_slot_def)
next
  case False
  then show ?thesis using assms by (auto simp: Plane_bind_def list_ex_iff split: if_splits)
qed

subsection \<open>Properties\<close>

text \<open>
  C6. Nothing pushed into a slot is lost, doubled or overtaken: whatever the engine and the task call,
  and whenever the task ends, the cookies pushed are those of the events the engine has taken followed by
  those the slot still has, in order; a slot never has more than \<open>SLOT_DEPTH\<close> of them, once the
  task has ended all of them are events, and both sides' signals are those of the slot's state.\<close>

theorem slot_gives_everything_back:
  assumes "slot_start r0" "slot_step\<^sup>*\<^sup>* r0 r"
  shows "r_pushed r = r_taken r @ held_cookies (r_slot r) \<and> length (held_cookies (r_slot r)) \<le> SLOT_DEPTH \<and>
    (sl_ended (r_slot r) \<longrightarrow> held_cookies (r_slot r) = map event_cookie (sl_events (r_slot r))) \<and>
    bits (sl_engine_sig (r_slot r)) = engine_signals (r_slot r) \<and> bits (sl_task_sig (r_slot r)) = task_signals (r_slot r)"
proof -
  have g: "run_good r" by (rule slots.reachable_good [OF assms])
  then have "sl_ended (r_slot r) \<longrightarrow> held_cookies (r_slot r) = map event_cookie (sl_events (r_slot r))"
    by (auto simp: run_good_def slot_good_def queues_good_def held_cookies_def)
  then show ?thesis using g
    by (simp add: run_good_def slot_good_def queues_good_def signals_good_def length_held_cookies)
qed

theorem slot_gives_everything_back_witness:
  "\<exists>r :: SlotRun. r_pushed r = [77] \<and> r_taken r = [] \<and> held_cookies (r_slot r) = [77] \<and> sl_ready (r_slot r) = [] \<and>
    length (held_cookies (r_slot r)) \<le> SLOT_DEPTH \<and> bits (sl_task_sig (r_slot r)) = task_signals (r_slot r)"
proof -
  let ?r0 = "\<lparr>r_slot = demo_slot, r_pushed = [], r_taken = []\<rparr>"
  let ?r1 = "\<lparr>r_slot = demo_pushed, r_pushed = [77], r_taken = []\<rparr>"
  let ?r2 = "\<lparr>r_slot = demo_got, r_pushed = [77], r_taken = []\<rparr>"
  have start: "slot_start ?r0" unfolding slot_start_def using demo_slot_is(1) by auto
  have "slot_step ?r0 ?r1"
    using slot_step.intros [of ?r0 "SPush demo_memory (en_rights demo_entry) 8192 8192 77"] by (simp add: demo_pushed_is(1))
  moreover have "slot_step ?r1 ?r2"
    using slot_step.intros [of ?r1 "STurn demo_mx demo_os False 9 False demo_new 3"] by (simp add: demo_get)
  ultimately have "slot_step\<^sup>*\<^sup>* ?r0 ?r2" by auto
  from slot_gives_everything_back [OF start this] have "r_pushed ?r2 = [77] \<and> r_taken ?r2 = [] \<and>
      held_cookies (r_slot ?r2) = [77] \<and> sl_ready (r_slot ?r2) = [] \<and> length (held_cookies (r_slot ?r2)) \<le> SLOT_DEPTH \<and>
      bits (sl_task_sig (r_slot ?r2)) = task_signals (r_slot ?r2)"
    by (simp add: demo_got_def)
  then show ?thesis by (rule exI [of _ ?r2])
qed




lemma demo_put: "fst (slot_put demo_mx demo_got demo_window 3 (MAP_BASE + 8192) 100) = Inr ()"
proof -
  have "check_range demo_mx (MAP_BASE + 4096) 8192 = Inr (MAP_BASE + 12288)"
    by (simp add: check_range_def demo_end aligned_def PAGE_SIZE_def checked_add_def U64_def MAP_BASE_def abi_consts)
  then have "fst (unmap_plane demo_mx demo_window (MAP_BASE + 4096) 8192 demo_memory) = Inr ()"
    by (simp add: unmap_plane_def demo_window_is(2) bt_get_def Let_def split: prod.splits)
  then show ?thesis
    by (cases "unmap_plane demo_mx demo_window (MAP_BASE + 4096) 8192 demo_memory")
      (simp add: slot_put_def demo_got_def demo_pushed_is(2) demo_slot_is demo_mapped_def demo_entry_def aligned_def
        PAGE_SIZE_def MAP_BASE_def IMAGE_END_def checked_sub_def checked_add_def U64_def)
qed


text \<open>
  C35. The 32 bytes \<open>slot_take\<close> hands the engine say what the event was: read back with the ABI's
  readers they give its kind, the reserved word zero, the cookie of the push, and where a record or a
  window lies in its memory object; the object comes with the rights it was pushed through.\<close>

theorem event_reads_back:
  assumes "event_fields ev = (kind, cookie, offset, len)" "cookie < U64" "offset < U64" "len < U64"
  shows "let b = tk_bytes (taken_of ev) in length b = event_SIZE \<and> read_u32 b event_KIND = Some kind \<and>
      read_u32 b 4 = Some 0 \<and> read_u64 b event_COOKIE = Some cookie \<and>
      read_u64 b event_OFFSET = Some offset \<and> read_u64 b event_LEN = Some len \<and>
      tk_memory (taken_of ev) = (case ev of Released _ \<Rightarrow> None
        | Put en _ _ \<Rightarrow> Some (en_memory en, en_rights en) | Returned en \<Rightarrow> Some (en_memory en, en_rights en))"
proof -
  have k: "kind < 2 ^ 32" using assms(1) by (cases ev) (auto simp: abi_consts)
  have "from_le (to_le 4 (0::nat)) = 0" "from_le (to_le 4 kind) = kind"
    using from_le_to_le [of 0 4] from_le_to_le [of kind 4] k by simp_all
  moreover have "tk_memory (taken_of ev) = (case ev of Released _ \<Rightarrow> None
        | Put en _ _ \<Rightarrow> Some (en_memory en, en_rights en) | Returned en \<Rightarrow> Some (en_memory en, en_rights en))"
    by (cases ev) simp_all
  ultimately show ?thesis
    using assms(2,3,4) by (simp add: taken_bytes [OF assms(1)] read_u64_Some read_u32_Some length_to_le
      from_le_to_le Let_def event_SIZE_def event_KIND_def event_COOKIE_def event_OFFSET_def event_LEN_def U64_def)
qed

theorem event_reads_back_witness:
  "read_u64 (tk_bytes (taken_of (Put demo_entry 12288 100))) event_COOKIE = Some 77 \<and>
    read_u64 (tk_bytes (taken_of (Put demo_entry 12288 100))) event_LEN = Some 100"
  using event_reads_back [of "Put demo_entry 12288 100" event_PUT 77 12288 100]
  by (simp add: demo_entry_def U64_def Let_def)

text \<open>
  C23. A task asleep in \<open>batch_get\<close> is woken when there is something for it: once its turn has found
  nothing and registered its waker, any run of calls on the slot that leaves an entry ready, the slot closed
  or the task ended has woken that waker since, whatever else was called and until the task's call ends.\<close>

theorem waiting_get_is_woken:
  assumes "slot_good s" "get_turn mx os killed w False s sp mapper = (None, b, s', sp')"
    and "SEnd w True \<notin> set ops" "r_slot r = s'" "run_good r"
    and "task_ready (r_slot (foldl (\<lambda>r op. slot_apply op r) r ops))"
  shows "w \<in> set (drop (length (woken (sl_task_sig s')))
    (woken (sl_task_sig (r_slot (foldl (\<lambda>r op. slot_apply op r) r ops)))))"
proof -
  let ?last_sig = "sl_task_sig (r_slot (foldl (\<lambda>r op. slot_apply op r) r ops))"
  have sleeps: "w \<in> set (observers (sl_task_sig s'))" "\<not> task_ready s'" using get_turn_sleeps [OF assms(2)] by auto
  have before: "bits (sl_task_sig s') = S_NONE"
    using assms(4,5) sleeps(2) by (simp add: run_good_def slot_good_def signals_good_def task_signals_def)
  have after: "bits ?last_sig = S_READABLE"
    using slot_run_good [OF assms(5), of ops] assms(6)
    by (simp add: run_good_def slot_good_def signals_good_def task_signals_def)
  obtain os where os: "Unobserve w \<notin> set os" "?last_sig = sig_run os (sl_task_sig s')"
    using slot_run_sig [OF assms(3), of r] assms(4) unfolding sig_evolves_def by blast
  have "bits ?last_sig \<in> set (sig_trace os (sl_task_sig s'))" using sig_trace_end os(2) by metis
  moreover have "bits ?last_sig \<noteq> bits (sl_task_sig s')" unfolding before after by (simp add: S_NONE_def S_READABLE_def)
  ultimately obtain ws where "woken ?last_sig = woken (sl_task_sig s') @ ws" "w \<in> set ws"
    using sig_run_wakes [OF sleeps(1) os(1)] os(2) by metis
  then show ?thesis by simp
qed

theorem waiting_get_is_woken_witness:
  "9 \<in> set (woken (sl_task_sig (slot_close (demo_slot\<lparr>sl_task_sig := snd (observe (sl_task_sig demo_slot) 9)\<rparr>))))"
proof -
  let ?s = "demo_slot\<lparr>sl_task_sig := snd (observe (sl_task_sig demo_slot) 9)\<rparr>"
  let ?r = "\<lparr>r_slot = ?s, r_pushed = [], r_taken = []\<rparr>"
  have new: "slot_good demo_slot" "held_cookies demo_slot = []" using Slot_new_good [OF demo_slot_is(1)] by simp_all
  have t: "get_turn demo_mx demo_os False 9 False demo_slot demo_new 3 = (None, True, ?s, demo_new)"
    by (simp add: get_turn_def get_release_def get_next_def demo_slot_is)
  have g: "run_good ?r"
    using slot_good_signaller(2) [OF new(1), of "snd (observe (sl_task_sig demo_slot) 9)"] new(2)
    by (simp add: run_good_def observe_def)
  have "task_ready (r_slot (foldl (\<lambda>r op. slot_apply op r) ?r [SClose]))"
    by (simp add: slot_close_def task_ready_def)
  from waiting_get_is_woken [OF new(1) t _ _ g this] show ?thesis by (auto dest: in_set_dropD)
qed

end
