(* ===== verification/Spec2Isabelle.thy ===== *)
theory Spec2Isabelle
  imports Handles VmSpace Elf Cpio Futex CallProps DataPlane
begin

end
